(* ===== verification/Prelude.thy ===== *)
theory Prelude
  imports Main "HOL-Library.Word" "HOL-Library.Monad_Syntax"
begin

text \<open>
  What the components share: C pointers and heaps of one struct type each, the result codes of
  \<open>bitzer.h\<close>, and the total-correctness predicate \<open>ensures\<close> on fallible computations.

  A pointer is a natural number and 0 is \<open>NULL\<close>. The objects of one struct type live in a
  partial map from addresses. \<open>deref\<close> fails at \<open>NULL\<close> and at an address with no object;
  a computation that would have undefined behaviour in C, or that does not return, has the value
  \<open>None\<close>. \<open>ensures m P\<close> says that \<open>m\<close> does return, with a result in \<open>P\<close>.
\<close>

section \<open>Pointers and heaps\<close>

type_synonym addr = nat

abbreviation (input) NULL :: addr where
  "NULL \<equiv> 0"

definition deref :: "(addr \<rightharpoonup> 'a) \<Rightarrow> addr \<Rightarrow> 'a option" where
  "deref h p = (if p = NULL then None else h p)"

text \<open>\<open>peek f h p\<close> is the C expression \<open>p->f\<close>; \<open>poke h p u\<close> is an assignment through \<open>p\<close>.\<close>

definition peek :: "('a \<Rightarrow> 'b) \<Rightarrow> (addr \<rightharpoonup> 'a) \<Rightarrow> addr \<Rightarrow> 'b option" where
  "peek f h p = map_option f (deref h p)"

definition poke :: "(addr \<rightharpoonup> 'a) \<Rightarrow> addr \<Rightarrow> ('a \<Rightarrow> 'a) \<Rightarrow> (addr \<rightharpoonup> 'a) option" where
  "poke h p u = (case deref h p of None \<Rightarrow> None | Some v \<Rightarrow> Some (h(p \<mapsto> u v)))"

named_theorems heap_simps \<open>reading and writing one object of a heap\<close>

lemma deref_NULL [simp]: "deref h 0 = None"
  by (simp add: deref_def)

lemma deref_upd [heap_simps]:
  "deref (h(a := v)) p = (if p = a then (if a = NULL then None else v) else deref h p)"
  by (simp add: deref_def)

lemma deref_upd_other [simp]: "p \<noteq> a \<Longrightarrow> deref (h(a := v)) p = deref h p"
  by (simp add: deref_def)

lemma deref_not_NULL: "deref h p = Some v \<Longrightarrow> p \<noteq> NULL"
  by (simp add: deref_def split: if_splits)

lemma peek_Some [heap_simps]: "deref h p = Some v \<Longrightarrow> peek f h p = Some (f v)"
  by (simp add: peek_def)

lemma peek_SomeE: "peek f h p = Some x \<Longrightarrow> (\<And>v. deref h p = Some v \<Longrightarrow> x = f v \<Longrightarrow> thesis) \<Longrightarrow> thesis"
  by (auto simp: peek_def)

lemma poke_Some [heap_simps]: "deref h p = Some v \<Longrightarrow> poke h p u = Some (h(p \<mapsto> u v))"
  by (simp add: poke_def)

lemma deref_upd_same [heap_simps]: "deref h p = Some w \<Longrightarrow> deref (h(p \<mapsto> v)) p = Some v"
  by (auto simp: deref_def split: if_splits)

section \<open>Total correctness of fallible computations\<close>

definition ensures :: "'a option \<Rightarrow> ('a \<Rightarrow> bool) \<Rightarrow> bool" where
  "ensures m P \<longleftrightarrow> (case m of None \<Rightarrow> False | Some x \<Rightarrow> P x)"

lemma ensures_Some [simp]: "ensures (Some x) P \<longleftrightarrow> P x"
  by (simp add: ensures_def)

lemma ensures_None [simp]: "\<not> ensures None P"
  by (simp add: ensures_def)

lemma ensures_iff: "ensures m P \<longleftrightarrow> (\<exists>x. m = Some x \<and> P x)"
  by (cases m) simp_all

lemma ensures_bind: "ensures (Option.bind m f) P \<longleftrightarrow> ensures m (\<lambda>x. ensures (f x) P)"
  by (cases m) simp_all

lemma ensures_mono: "ensures m Q \<Longrightarrow> (\<And>x. m = Some x \<Longrightarrow> Q x \<Longrightarrow> P x) \<Longrightarrow> ensures m P"
  by (auto simp: ensures_iff)

lemma ensures_bindI:
  "ensures m Q \<Longrightarrow> (\<And>x. m = Some x \<Longrightarrow> Q x \<Longrightarrow> ensures (f x) P) \<Longrightarrow> ensures (Option.bind m f) P"
  by (auto simp: ensures_iff)

lemma ensuresE: "ensures m P \<Longrightarrow> (\<And>x. m = Some x \<Longrightarrow> P x \<Longrightarrow> thesis) \<Longrightarrow> thesis"
  by (auto simp: ensures_iff)

section \<open>Result codes (bitzer.h)\<close>

definition BZ_OK :: int where "BZ_OK = 0"

definition BZ_ERROR :: int where "BZ_ERROR = -1"

lemma BZ_ERROR_neq_OK [simp]: "BZ_ERROR \<noteq> BZ_OK" "BZ_OK \<noteq> BZ_ERROR"
  by (simp_all add: BZ_OK_def BZ_ERROR_def)

lemma distinct_member: "distinct (concat (map f xs)) \<Longrightarrow> x \<in> set xs \<Longrightarrow> distinct (f x)"
  by (induction xs) auto

end
