(* ===== verification/Rbtree.thy ===== *)
theory Rbtree
  imports Prelude
begin

text \<open>
  The red-black tree of \<open>src/rbtree.h\<close> and \<open>src/rbtree.c\<close>, statement by statement, on a heap of
  \<open>rbtree_node_t\<close> objects. \<open>tree->root\<close> is passed in and returned, \<open>tree->sentinel\<close> never changes.
  The \<open>color\<close> byte only ever holds 0 (black) or 1 (red) and is kept as a truth value: true is red.
  Each loop is a \<open>partial_function\<close>: a loop that never ends, like a read through a bad pointer, is
  the value \<open>None\<close>.
\<close>

record rbnode =
  rb_left :: addr
  rb_right :: addr
  rb_parent :: addr
  rb_key :: "64 word"
  rb_color :: bool

type_synonym rbheap = "addr \<rightharpoonup> rbnode"

record rbtree =
  rbt_root :: addr
  rbt_sentinel :: addr

section \<open>The macros of rbtree.h\<close>

definition rbtree_red :: "rbheap \<Rightarrow> addr \<Rightarrow> rbheap option" where
  "rbtree_red h p = poke h p (\<lambda>n. n\<lparr>rb_color := True\<rparr>)"

definition rbtree_black :: "rbheap \<Rightarrow> addr \<Rightarrow> rbheap option" where
  "rbtree_black h p = poke h p (\<lambda>n. n\<lparr>rb_color := False\<rparr>)"

definition rbtree_is_red :: "rbheap \<Rightarrow> addr \<Rightarrow> bool option" where
  "rbtree_is_red h p = peek rb_color h p"

definition rbtree_is_black :: "rbheap \<Rightarrow> addr \<Rightarrow> bool option" where
  "rbtree_is_black h p = map_option Not (rbtree_is_red h p)"

definition rbtree_copy_color :: "rbheap \<Rightarrow> addr \<Rightarrow> addr \<Rightarrow> rbheap option" where
  "rbtree_copy_color h n1 n2 = do { c \<leftarrow> peek rb_color h n2; poke h n1 (\<lambda>n. n\<lparr>rb_color := c\<rparr>) }"

definition rbtree_empty :: "rbtree \<Rightarrow> bool" where
  "rbtree_empty t = (rbt_root t = rbt_sentinel t)"

definition rbtree_node_init :: "rbheap \<Rightarrow> addr \<Rightarrow> rbheap option" where
  "rbtree_node_init h p =
     poke h p (\<lambda>n. n\<lparr>rb_left := NULL, rb_right := NULL, rb_parent := NULL, rb_key := 0\<rparr>)"

section \<open>Initialisation, minimum and maximum\<close>

definition rbtree_init :: "rbheap \<Rightarrow> addr \<Rightarrow> (rbheap \<times> rbtree) option" where
  "rbtree_init h sentinel = do {
     h \<leftarrow> rbtree_node_init h sentinel;
     h \<leftarrow> rbtree_black h sentinel;
     Some (h, \<lparr>rbt_root = sentinel, rbt_sentinel = sentinel\<rparr>)
   }"

partial_function (option) rbtree_node_min :: "rbheap \<Rightarrow> addr \<Rightarrow> addr \<Rightarrow> addr option" where
  "rbtree_node_min h node sentinel = do {
     l \<leftarrow> peek rb_left h node;
     if l \<noteq> sentinel then rbtree_node_min h l sentinel else Some node
   }"

definition rbtree_min :: "rbheap \<Rightarrow> rbtree \<Rightarrow> addr option" where
  "rbtree_min h tree =
     (let node = rbt_root tree; sentinel = rbt_sentinel tree in
      if node = sentinel then Some NULL else rbtree_node_min h node sentinel)"

partial_function (option) rbtree_node_max :: "rbheap \<Rightarrow> addr \<Rightarrow> addr \<Rightarrow> addr option" where
  "rbtree_node_max h node sentinel = do {
     r \<leftarrow> peek rb_right h node;
     if r \<noteq> sentinel then rbtree_node_max h r sentinel else Some node
   }"

definition rbtree_max :: "rbheap \<Rightarrow> rbtree \<Rightarrow> addr option" where
  "rbtree_max h tree =
     (let node = rbt_root tree; sentinel = rbt_sentinel tree in
      if node = sentinel then Some NULL else rbtree_node_max h node sentinel)"

section \<open>Rotations\<close>

definition rbtree_left_rotate :: "addr \<Rightarrow> addr \<Rightarrow> rbheap \<Rightarrow> addr \<Rightarrow> (rbheap \<times> addr) option" where
  "rbtree_left_rotate sentinel node h root = do {
     temp \<leftarrow> peek rb_right h node;
     tl \<leftarrow> peek rb_left h temp;
     h \<leftarrow> poke h node (\<lambda>n. n\<lparr>rb_right := tl\<rparr>);
     tl \<leftarrow> peek rb_left h temp;
     h \<leftarrow> (if tl \<noteq> sentinel then poke h tl (\<lambda>n. n\<lparr>rb_parent := node\<rparr>) else Some h);
     np \<leftarrow> peek rb_parent h node;
     h \<leftarrow> poke h temp (\<lambda>n. n\<lparr>rb_parent := np\<rparr>);
     (h, root) \<leftarrow>
       (if node = root then Some (h, temp)
        else do {
          np \<leftarrow> peek rb_parent h node;
          npl \<leftarrow> peek rb_left h np;
          h \<leftarrow> (if node = npl then poke h np (\<lambda>n. n\<lparr>rb_left := temp\<rparr>)
                else poke h np (\<lambda>n. n\<lparr>rb_right := temp\<rparr>));
          Some (h, root)
        });
     h \<leftarrow> poke h temp (\<lambda>n. n\<lparr>rb_left := node\<rparr>);
     h \<leftarrow> poke h node (\<lambda>n. n\<lparr>rb_parent := temp\<rparr>);
     Some (h, root)
   }"

definition rbtree_right_rotate :: "addr \<Rightarrow> addr \<Rightarrow> rbheap \<Rightarrow> addr \<Rightarrow> (rbheap \<times> addr) option" where
  "rbtree_right_rotate sentinel node h root = do {
     temp \<leftarrow> peek rb_left h node;
     tr \<leftarrow> peek rb_right h temp;
     h \<leftarrow> poke h node (\<lambda>n. n\<lparr>rb_left := tr\<rparr>);
     tr \<leftarrow> peek rb_right h temp;
     h \<leftarrow> (if tr \<noteq> sentinel then poke h tr (\<lambda>n. n\<lparr>rb_parent := node\<rparr>) else Some h);
     np \<leftarrow> peek rb_parent h node;
     h \<leftarrow> poke h temp (\<lambda>n. n\<lparr>rb_parent := np\<rparr>);
     (h, root) \<leftarrow>
       (if node = root then Some (h, temp)
        else do {
          np \<leftarrow> peek rb_parent h node;
          npr \<leftarrow> peek rb_right h np;
          h \<leftarrow> (if node = npr then poke h np (\<lambda>n. n\<lparr>rb_right := temp\<rparr>)
                else poke h np (\<lambda>n. n\<lparr>rb_left := temp\<rparr>));
          Some (h, root)
        });
     h \<leftarrow> poke h temp (\<lambda>n. n\<lparr>rb_right := node\<rparr>);
     h \<leftarrow> poke h node (\<lambda>n. n\<lparr>rb_parent := temp\<rparr>);
     Some (h, root)
   }"

section \<open>Insertion\<close>

text \<open>The slot \<open>p\<close> of the descent is \<open>&temp->left\<close> or \<open>&temp->right\<close>: a node and a side.\<close>

datatype side = SLeft | SRight

primrec child :: "side \<Rightarrow> rbnode \<Rightarrow> addr" where
  "child SLeft n = rb_left n"
| "child SRight n = rb_right n"

primrec set_child :: "side \<Rightarrow> addr \<Rightarrow> rbnode \<Rightarrow> rbnode" where
  "set_child SLeft x n = n\<lparr>rb_left := x\<rparr>"
| "set_child SRight x n = n\<lparr>rb_right := x\<rparr>"

partial_function (option) rbtree_insert_slot ::
  "rbheap \<Rightarrow> addr \<Rightarrow> addr \<Rightarrow> addr \<Rightarrow> (addr \<times> side) option" where
  "rbtree_insert_slot h sentinel node temp = do {
     nk \<leftarrow> peek rb_key h node;
     tk \<leftarrow> peek rb_key h temp;
     let p = (if nk < tk then SLeft else SRight);
     x \<leftarrow> peek (child p) h temp;
     if x = sentinel then Some (temp, p) else rbtree_insert_slot h sentinel node x
   }"

definition rbtree_insert_step ::
  "addr \<Rightarrow> addr \<Rightarrow> rbheap \<Rightarrow> addr \<Rightarrow> (addr \<times> rbheap \<times> addr) option" where
  "rbtree_insert_step sentinel node h root = do {
     p \<leftarrow> peek rb_parent h node;
     g \<leftarrow> peek rb_parent h p;
     gl \<leftarrow> peek rb_left h g;
     if p = gl then do {
       temp \<leftarrow> peek rb_right h g;
       red \<leftarrow> rbtree_is_red h temp;
       if red then do {
         h \<leftarrow> rbtree_black h p;
         h \<leftarrow> rbtree_black h temp;
         h \<leftarrow> rbtree_red h g;
         Some (g, h, root)
       } else do {
         pr \<leftarrow> peek rb_right h p;
         (node, h, root) \<leftarrow>
           (if node = pr then do {
              (h, root) \<leftarrow> rbtree_left_rotate sentinel p h root;
              Some (p, h, root)
            } else Some (node, h, root));
         p \<leftarrow> peek rb_parent h node;
         h \<leftarrow> rbtree_black h p;
         g \<leftarrow> peek rb_parent h p;
         h \<leftarrow> rbtree_red h g;
         (h, root) \<leftarrow> rbtree_right_rotate sentinel g h root;
         Some (node, h, root)
       }
     } else do {
       temp \<leftarrow> peek rb_left h g;
       red \<leftarrow> rbtree_is_red h temp;
       if red then do {
         h \<leftarrow> rbtree_black h p;
         h \<leftarrow> rbtree_black h temp;
         h \<leftarrow> rbtree_red h g;
         Some (g, h, root)
       } else do {
         pl \<leftarrow> peek rb_left h p;
         (node, h, root) \<leftarrow>
           (if node = pl then do {
              (h, root) \<leftarrow> rbtree_right_rotate sentinel p h root;
              Some (p, h, root)
            } else Some (node, h, root));
         p \<leftarrow> peek rb_parent h node;
         h \<leftarrow> rbtree_black h p;
         g \<leftarrow> peek rb_parent h p;
         h \<leftarrow> rbtree_red h g;
         (h, root) \<leftarrow> rbtree_left_rotate sentinel g h root;
         Some (node, h, root)
       }
     }
   }"

partial_function (option) rbtree_insert_fixup ::
  "addr \<Rightarrow> addr \<Rightarrow> rbheap \<Rightarrow> addr \<Rightarrow> (rbheap \<times> addr) option" where
  "rbtree_insert_fixup sentinel node h root =
     (if node = root then Some (h, root)
      else do {
        p \<leftarrow> peek rb_parent h node;
        red \<leftarrow> rbtree_is_red h p;
        if red then do {
          (node, h, root) \<leftarrow> rbtree_insert_step sentinel node h root;
          rbtree_insert_fixup sentinel node h root
        } else Some (h, root)
      })"

definition rbtree_insert :: "rbheap \<Rightarrow> rbtree \<Rightarrow> addr \<Rightarrow> (rbheap \<times> rbtree) option" where
  "rbtree_insert h tree node =
     (let root = rbt_root tree; sentinel = rbt_sentinel tree in
      if root = sentinel then do {
        h \<leftarrow> poke h node (\<lambda>n. n\<lparr>rb_parent := NULL, rb_left := sentinel, rb_right := sentinel\<rparr>);
        h \<leftarrow> rbtree_black h node;
        Some (h, tree\<lparr>rbt_root := node\<rparr>)
      } else do {
        (temp, p) \<leftarrow> rbtree_insert_slot h sentinel node root;
        h \<leftarrow> poke h temp (set_child p node);
        h \<leftarrow> poke h node (\<lambda>n. n\<lparr>rb_parent := temp, rb_left := sentinel, rb_right := sentinel\<rparr>);
        h \<leftarrow> rbtree_red h node;
        (h, root) \<leftarrow> rbtree_insert_fixup sentinel node h root;
        h \<leftarrow> rbtree_black h root;
        Some (h, tree\<lparr>rbt_root := root\<rparr>)
      })"

section \<open>Deletion\<close>

definition rbtree_delete_step ::
  "addr \<Rightarrow> addr \<Rightarrow> rbheap \<Rightarrow> addr \<Rightarrow> (addr \<times> rbheap \<times> addr) option" where
  "rbtree_delete_step sentinel temp h root = do {
     p \<leftarrow> peek rb_parent h temp;
     pl \<leftarrow> peek rb_left h p;
     if temp = pl then do {
       w \<leftarrow> peek rb_right h p;
       red \<leftarrow> rbtree_is_red h w;
       (w, h, root) \<leftarrow>
         (if red then do {
            h \<leftarrow> rbtree_black h w;
            h \<leftarrow> rbtree_red h p;
            (h, root) \<leftarrow> rbtree_left_rotate sentinel p h root;
            p \<leftarrow> peek rb_parent h temp;
            w \<leftarrow> peek rb_right h p;
            Some (w, h, root)
          } else Some (w, h, root));
       wl \<leftarrow> peek rb_left h w;
       bl \<leftarrow> rbtree_is_black h wl;
       both \<leftarrow> (if bl then do { wr \<leftarrow> peek rb_right h w; rbtree_is_black h wr } else Some False);
       if both then do {
         h \<leftarrow> rbtree_red h w;
         p \<leftarrow> peek rb_parent h temp;
         Some (p, h, root)
       } else do {
         wr \<leftarrow> peek rb_right h w;
         br \<leftarrow> rbtree_is_black h wr;
         (w, h, root) \<leftarrow>
           (if br then do {
              wl \<leftarrow> peek rb_left h w;
              h \<leftarrow> rbtree_black h wl;
              h \<leftarrow> rbtree_red h w;
              (h, root) \<leftarrow> rbtree_right_rotate sentinel w h root;
              p \<leftarrow> peek rb_parent h temp;
              w \<leftarrow> peek rb_right h p;
              Some (w, h, root)
            } else Some (w, h, root));
         p \<leftarrow> peek rb_parent h temp;
         h \<leftarrow> rbtree_copy_color h w p;
         h \<leftarrow> rbtree_black h p;
         wr \<leftarrow> peek rb_right h w;
         h \<leftarrow> rbtree_black h wr;
         (h, root) \<leftarrow> rbtree_left_rotate sentinel p h root;
         Some (root, h, root)
       }
     } else do {
       w \<leftarrow> peek rb_left h p;
       red \<leftarrow> rbtree_is_red h w;
       (w, h, root) \<leftarrow>
         (if red then do {
            h \<leftarrow> rbtree_black h w;
            h \<leftarrow> rbtree_red h p;
            (h, root) \<leftarrow> rbtree_right_rotate sentinel p h root;
            p \<leftarrow> peek rb_parent h temp;
            w \<leftarrow> peek rb_left h p;
            Some (w, h, root)
          } else Some (w, h, root));
       wl \<leftarrow> peek rb_left h w;
       bl \<leftarrow> rbtree_is_black h wl;
       both \<leftarrow> (if bl then do { wr \<leftarrow> peek rb_right h w; rbtree_is_black h wr } else Some False);
       if both then do {
         h \<leftarrow> rbtree_red h w;
         p \<leftarrow> peek rb_parent h temp;
         Some (p, h, root)
       } else do {
         (w, h, root) \<leftarrow>
           (if bl then do {
              wr \<leftarrow> peek rb_right h w;
              h \<leftarrow> rbtree_black h wr;
              h \<leftarrow> rbtree_red h w;
              (h, root) \<leftarrow> rbtree_left_rotate sentinel w h root;
              p \<leftarrow> peek rb_parent h temp;
              w \<leftarrow> peek rb_left h p;
              Some (w, h, root)
            } else Some (w, h, root));
         p \<leftarrow> peek rb_parent h temp;
         h \<leftarrow> rbtree_copy_color h w p;
         h \<leftarrow> rbtree_black h p;
         wl \<leftarrow> peek rb_left h w;
         h \<leftarrow> rbtree_black h wl;
         (h, root) \<leftarrow> rbtree_right_rotate sentinel p h root;
         Some (root, h, root)
       }
     }
   }"

partial_function (option) rbtree_delete_fixup ::
  "addr \<Rightarrow> addr \<Rightarrow> rbheap \<Rightarrow> addr \<Rightarrow> (addr \<times> rbheap \<times> addr) option" where
  "rbtree_delete_fixup sentinel temp h root =
     (if temp = root then Some (temp, h, root)
      else do {
        black \<leftarrow> rbtree_is_black h temp;
        if black then do {
          (temp, h, root) \<leftarrow> rbtree_delete_step sentinel temp h root;
          rbtree_delete_fixup sentinel temp h root
        } else Some (temp, h, root)
      })"

text \<open>Lines 209 to 218: the node that leaves its place and the child that moves up.\<close>

definition rbtree_delete_target :: "rbheap \<Rightarrow> addr \<Rightarrow> addr \<Rightarrow> (addr \<times> addr) option" where
  "rbtree_delete_target h sentinel node = do {
     l \<leftarrow> peek rb_left h node;
     r \<leftarrow> peek rb_right h node;
     if l = sentinel then Some (node, r)
     else if r = sentinel then Some (node, l)
     else do {
       subst \<leftarrow> rbtree_node_min h r sentinel;
       temp \<leftarrow> peek rb_right h subst;
       Some (subst, temp)
     }
   }"

text \<open>Lines 239 to 269: \<open>subst\<close> takes the place of \<open>node\<close>.\<close>

definition rbtree_delete_replace ::
  "addr \<Rightarrow> addr \<Rightarrow> addr \<Rightarrow> addr \<Rightarrow> rbheap \<Rightarrow> addr \<Rightarrow> (rbheap \<times> addr) option" where
  "rbtree_delete_replace sentinel node subst temp h root = do {
     sp \<leftarrow> peek rb_parent h subst;
     h \<leftarrow> (if sp = node then poke h temp (\<lambda>n. n\<lparr>rb_parent := subst\<rparr>)
           else poke h temp (\<lambda>n. n\<lparr>rb_parent := sp\<rparr>));
     l \<leftarrow> peek rb_left h node;
     h \<leftarrow> poke h subst (\<lambda>n. n\<lparr>rb_left := l\<rparr>);
     r \<leftarrow> peek rb_right h node;
     h \<leftarrow> poke h subst (\<lambda>n. n\<lparr>rb_right := r\<rparr>);
     np \<leftarrow> peek rb_parent h node;
     h \<leftarrow> poke h subst (\<lambda>n. n\<lparr>rb_parent := np\<rparr>);
     h \<leftarrow> rbtree_copy_color h subst node;
     (h, root) \<leftarrow>
       (if node = root then Some (h, subst)
        else do {
          npl \<leftarrow> peek rb_left h np;
          h \<leftarrow> (if node = npl then poke h np (\<lambda>n. n\<lparr>rb_left := subst\<rparr>)
                else poke h np (\<lambda>n. n\<lparr>rb_right := subst\<rparr>));
          Some (h, root)
        });
     sl \<leftarrow> peek rb_left h subst;
     h \<leftarrow> (if sl \<noteq> sentinel then poke h sl (\<lambda>n. n\<lparr>rb_parent := subst\<rparr>) else Some h);
     sr \<leftarrow> peek rb_right h subst;
     h \<leftarrow> (if sr \<noteq> sentinel then poke h sr (\<lambda>n. n\<lparr>rb_parent := subst\<rparr>) else Some h);
     Some (h, root)
   }"

definition rbtree_delete :: "rbheap \<Rightarrow> rbtree \<Rightarrow> addr \<Rightarrow> (rbheap \<times> rbtree) option" where
  "rbtree_delete h tree node =
     (let root = rbt_root tree; sentinel = rbt_sentinel tree in do {
        (subst, temp) \<leftarrow> rbtree_delete_target h sentinel node;
        if subst = root then do {
          h \<leftarrow> rbtree_black h temp;
          h \<leftarrow> rbtree_node_init h node;
          Some (h, tree\<lparr>rbt_root := temp\<rparr>)
        } else do {
          red \<leftarrow> rbtree_is_red h subst;
          sp \<leftarrow> peek rb_parent h subst;
          spl \<leftarrow> peek rb_left h sp;
          h \<leftarrow> (if subst = spl then poke h sp (\<lambda>n. n\<lparr>rb_left := temp\<rparr>)
                else poke h sp (\<lambda>n. n\<lparr>rb_right := temp\<rparr>));
          (h, root) \<leftarrow>
            (if subst = node then do {
               sp \<leftarrow> peek rb_parent h subst;
               h \<leftarrow> poke h temp (\<lambda>n. n\<lparr>rb_parent := sp\<rparr>);
               Some (h, root)
             } else rbtree_delete_replace sentinel node subst temp h root);
          h \<leftarrow> rbtree_node_init h node;
          if red then Some (h, tree\<lparr>rbt_root := root\<rparr>)
          else do {
            (temp, h, root) \<leftarrow> rbtree_delete_fixup sentinel temp h root;
            h \<leftarrow> rbtree_black h temp;
            Some (h, tree\<lparr>rbt_root := root\<rparr>)
          }
        }
      })"

end
