(* ===== verification/Rbtree_Rep.thy ===== *)
theory Rbtree_Rep
  imports Rbtree "HOL-Library.Multiset"
begin

text \<open>
  The abstraction of the pointer tree. \<open>ptree\<close> is a tree of node addresses, colours and keys;
  \<open>rep h s p t\<close> says that the heap holds \<open>t\<close> with sentinel \<open>s\<close> below a parent pointer \<open>p\<close>. A
  position inside the tree is a path of \<open>frame\<close>s from the focus up to the root, and
  \<open>focused h s pp rt path t\<close> says that the heap holds the whole tree, seen from the subtree \<open>t\<close>.
  The parent pointer of the root is the parameter \<open>pp\<close>: the code leaves it at any value.
\<close>

section \<open>Trees and paths\<close>

datatype ptree = Lf | Nd addr bool "64 word" ptree ptree

datatype frame = Fr side addr bool "64 word" ptree

primrec opposite :: "side \<Rightarrow> side" where
  "opposite SLeft = SRight"
| "opposite SRight = SLeft"

lemma opposite_opposite [simp]: "opposite (opposite d) = d"
  by (cases d) simp_all

text \<open>A node whose subtree on side \<open>d\<close> is \<open>x\<close> and on the other side is \<open>y\<close>.\<close>

primrec nd :: "side \<Rightarrow> addr \<Rightarrow> bool \<Rightarrow> 64 word \<Rightarrow> ptree \<Rightarrow> ptree \<Rightarrow> ptree" where
  "nd SLeft a c k x y = Nd a c k x y"
| "nd SRight a c k x y = Nd a c k y x"

lemma nd_opposite [simp]: "nd (opposite d) a c k x y = nd d a c k y x"
  by (cases d) simp_all

lemma Nd_nd: "Nd a c k l r = nd SLeft a c k l r"
  by simp

fun plug :: "frame list \<Rightarrow> ptree \<Rightarrow> ptree" where
  "plug [] t = t"
| "plug (Fr d a c k sib # fs) t = plug fs (nd d a c k t sib)"

lemma plug_append: "plug (fs @ gs) t = plug gs (plug fs t)"
  by (induction fs t rule: plug.induct) simp_all

fun ptr :: "addr \<Rightarrow> ptree \<Rightarrow> addr" where
  "ptr s Lf = s"
| "ptr s (Nd a c k l r) = a"

lemma ptr_nd [simp]: "ptr s (nd d a c k x y) = a"
  by (cases d) simp_all

fun addrs :: "ptree \<Rightarrow> addr list" where
  "addrs Lf = []"
| "addrs (Nd a c k l r) = addrs l @ a # addrs r"

fun entries :: "ptree \<Rightarrow> (addr \<times> 64 word) list" where
  "entries Lf = []"
| "entries (Nd a c k l r) = entries l @ (a, k) # entries r"

lemma addrs_entries: "addrs t = map fst (entries t)"
  by (induction t) simp_all

fun faddr :: "frame \<Rightarrow> addr" where
  "faddr (Fr d a c k sib) = a"

fun paddrs :: "frame list \<Rightarrow> addr list" where
  "paddrs [] = []"
| "paddrs (Fr d a c k sib # fs) = a # addrs sib @ paddrs fs"

lemma set_addrs_nd [simp]: "set (addrs (nd d a c k x y)) = insert a (set (addrs x) \<union> set (addrs y))"
  by (cases d) auto

lemma distinct_addrs_nd [simp]:
  "distinct (addrs (nd d a c k x y)) \<longleftrightarrow>
     distinct (addrs x) \<and> distinct (addrs y) \<and> a \<notin> set (addrs x) \<and> a \<notin> set (addrs y) \<and>
     set (addrs x) \<inter> set (addrs y) = {}"
  by (cases d) auto

lemma mset_addrs_nd [simp]:
  "mset (addrs (nd d a c k x y)) = add_mset a (mset (addrs x) + mset (addrs y))"
  by (cases d) simp_all

lemma mset_addrs_plug: "mset (addrs (plug fs t)) = mset (addrs t @ paddrs fs)"
  by (induction fs t rule: plug.induct) simp_all

lemmas set_addrs_plug = mset_addrs_plug [THEN mset_eq_setD]
  and distinct_addrs_plug = mset_addrs_plug [THEN mset_eq_imp_distinct_iff]

section \<open>The heap holds a tree\<close>

primrec cell :: "side \<Rightarrow> addr \<Rightarrow> addr \<Rightarrow> addr \<Rightarrow> 64 word \<Rightarrow> bool \<Rightarrow> rbnode" where
  "cell SLeft x y p k c =
     \<lparr>rb_left = x, rb_right = y, rb_parent = p, rb_key = k, rb_color = c\<rparr>"
| "cell SRight x y p k c =
     \<lparr>rb_left = y, rb_right = x, rb_parent = p, rb_key = k, rb_color = c\<rparr>"

lemma cell_opposite [simp]: "cell (opposite d) x y p k c = cell d y x p k c"
  by (cases d) simp_all

lemma cell_sel [simp]:
  "rb_parent (cell d x y p k c) = p" "rb_key (cell d x y p k c) = k"
  "rb_color (cell d x y p k c) = c" "child d (cell d x y p k c) = x"
  "child (opposite d) (cell d x y p k c) = y"
  by (cases d; simp)+

lemma cell_upd [simp]:
  "(cell d x y p k c)\<lparr>rb_parent := p'\<rparr> = cell d x y p' k c"
  "(cell d x y p k c)\<lparr>rb_color := c'\<rparr> = cell d x y p k c'"
  "set_child d x' (cell d x y p k c) = cell d x' y p k c"
  "set_child (opposite d) y' (cell d x y p k c) = cell d x y' p k c"
  by (cases d; simp)+

fun rep :: "rbheap \<Rightarrow> addr \<Rightarrow> addr \<Rightarrow> ptree \<Rightarrow> bool" where
  "rep h s p Lf \<longleftrightarrow> True"
| "rep h s p (Nd a c k l r) \<longleftrightarrow>
     deref h a = Some (cell SLeft (ptr s l) (ptr s r) p k c) \<and> rep h s a l \<and> rep h s a r"

lemma rep_nd [simp]:
  "rep h s p (nd d a c k x y) \<longleftrightarrow>
     deref h a = Some (cell d (ptr s x) (ptr s y) p k c) \<and> rep h s a x \<and> rep h s a y"
  by (cases d) auto

text \<open>The parent that a path gives to its focus.\<close>

fun par :: "addr \<Rightarrow> frame list \<Rightarrow> addr" where
  "par pp [] = pp"
| "par pp (f # fs) = faddr f"

fun prep :: "rbheap \<Rightarrow> addr \<Rightarrow> addr \<Rightarrow> frame list \<Rightarrow> addr \<Rightarrow> bool" where
  "prep h s pp [] x \<longleftrightarrow> True"
| "prep h s pp (Fr d a c k sib # fs) x \<longleftrightarrow>
     deref h a = Some (cell d x (ptr s sib) (par pp fs) k c) \<and> rep h s a sib \<and> prep h s pp fs a"

fun root_of :: "frame list \<Rightarrow> addr \<Rightarrow> addr" where
  "root_of [] x = x"
| "root_of (f # fs) x = root_of fs (faddr f)"

lemma ptr_plug: "ptr s (plug fs t) = root_of fs (ptr s t)"
  by (induction fs t rule: plug.induct) simp_all

lemma rep_plug: "rep h s pp (plug fs t) \<longleftrightarrow> prep h s pp fs (ptr s t) \<and> rep h s (par pp fs) t"
  by (induction fs t rule: plug.induct) auto

lemma root_of_in: "fs \<noteq> [] \<Longrightarrow> root_of fs x \<in> set (paddrs fs)"
proof (induction fs x rule: root_of.induct)
  case (2 f fs x)
  then show ?case by (cases f; cases fs) auto
qed simp

lemma rep_upd [simp]: "a \<notin> set (addrs t) \<Longrightarrow> rep (h(a := v)) s p t = rep h s p t"
  by (induction t arbitrary: p) auto

lemma prep_upd [simp]: "a \<notin> set (paddrs fs) \<Longrightarrow> prep (h(a := v)) s pp fs x = prep h s pp fs x"
  by (induction fs x rule: prep.induct[of _ h s pp]) auto

lemma rep_cong: "(\<And>a. a \<in> set (addrs t) \<Longrightarrow> h' a = h a) \<Longrightarrow> rep h' s p t = rep h s p t"
  by (induction t arbitrary: p) (auto simp: deref_def)

lemma addrs_not_NULL: "rep h s p t \<Longrightarrow> NULL \<notin> set (addrs t)"
  by (induction t arbitrary: p) (auto dest: deref_not_NULL)

text \<open>The sentinel is black; its parent pointer is scratch space of the deletion.\<close>

definition sentinel_ok :: "rbheap \<Rightarrow> addr \<Rightarrow> bool" where
  "sentinel_ok h s \<longleftrightarrow> (\<exists>n. deref h s = Some n \<and> \<not> rb_color n)"

lemma sentinel_ok_upd [simp]: "s \<noteq> a \<Longrightarrow> sentinel_ok (h(a := v)) s = sentinel_ok h s"
  by (simp add: sentinel_ok_def)

definition apart :: "addr \<Rightarrow> frame list \<Rightarrow> ptree \<Rightarrow> bool" where
  "apart s fs t \<longleftrightarrow> distinct (addrs t @ paddrs fs) \<and> s \<notin> set (addrs t @ paddrs fs)"

lemma apart_perm:
  assumes "apart s fs t" and "mset (addrs t' @ paddrs fs') = mset (addrs t @ paddrs fs)"
  shows "apart s fs' t'"
  using assms(1) mset_eq_setD [OF assms(2)] mset_eq_imp_distinct_iff [OF assms(2)]
  unfolding apart_def by metis

definition focused ::
  "rbheap \<Rightarrow> addr \<Rightarrow> addr \<Rightarrow> addr \<Rightarrow> frame list \<Rightarrow> ptree \<Rightarrow> bool" where
  "focused h s pp rt fs t \<longleftrightarrow>
     prep h s pp fs (ptr s t) \<and> rep h s (par pp fs) t \<and> rt = root_of fs (ptr s t) \<and>
     apart s fs t \<and> sentinel_ok h s"

lemma apart_whole: "apart s fs t = apart s [] (plug fs t)"
  by (metis apart_perm append_Nil2 mset_addrs_plug paddrs.simps(1))

lemma focused_plug: "focused h s pp rt (fs @ gs) t \<longleftrightarrow> focused h s pp rt gs (plug fs t)"
proof -
  have "focused h s pp rt fs' t \<longleftrightarrow> focused h s pp rt [] (plug fs' t)" for fs' t
    by (auto simp: focused_def rep_plug ptr_plug apart_whole [of s fs' t])
  then show ?thesis by (metis plug_append)
qed

lemma focused_up: "focused h s pp rt (Fr d a c k sib # fs) t = focused h s pp rt fs (nd d a c k t sib)"
  using focused_plug [of h s pp rt "[Fr d a c k sib]" fs t] by simp

lemma focused_whole: "focused h s pp rt fs t = focused h s pp rt [] (plug fs t)"
  using focused_plug [of h s pp rt fs "[]" t] by simp

text \<open>Nothing outside the tree changes.\<close>

definition unchanged_outside :: "addr set \<Rightarrow> rbheap \<Rightarrow> rbheap \<Rightarrow> bool" where
  "unchanged_outside X h h' \<longleftrightarrow> (\<forall>a. a \<notin> X \<longrightarrow> h' a = h a)"

lemma unchanged_outside_refl [simp]: "unchanged_outside X h h"
  by (simp add: unchanged_outside_def)

lemma unchanged_outside_upd [simp]: "a \<in> X \<Longrightarrow> unchanged_outside X h (h'(a := v)) = unchanged_outside X h h'"
  by (auto simp: unchanged_outside_def)

lemma unchanged_outside_trans [trans]:
  "unchanged_outside X h h' \<Longrightarrow> unchanged_outside X h' h'' \<Longrightarrow> unchanged_outside X h h''"
  by (simp add: unchanged_outside_def)

lemma unchanged_outside_mono: "unchanged_outside X h h' \<Longrightarrow> X \<subseteq> Y \<Longrightarrow> unchanged_outside Y h h'"
  by (auto simp: unchanged_outside_def)

end
