(* ===== verification/Rbtree_Ops.thy ===== *)
theory Rbtree_Ops
  imports Rbtree_Rep
begin

text \<open>
  The rotations and the colour assignments act on a focused tree as they should: \<open>rotate_focused\<close>
  covers both rotations (the side is a parameter, \<open>rot\<close>), \<open>color_focused\<close> every assignment to a
  colour.
\<close>

section \<open>Sides and neighbours\<close>

lemma side_cases2: "e = d \<or> e = opposite d"
  by (cases d; cases e; simp)

lemma opposite_neq [simp]: "opposite d \<noteq> d" "d \<noteq> opposite d"
  by (cases d; simp)+

lemma ptr_neq: "a \<notin> set (addrs t) \<Longrightarrow> a \<noteq> s \<Longrightarrow> ptr s t \<noteq> a"
  by (cases t) auto

primrec rot :: "side \<Rightarrow> addr \<Rightarrow> addr \<Rightarrow> rbheap \<Rightarrow> addr \<Rightarrow> (rbheap \<times> addr) option" where
  "rot SLeft = rbtree_left_rotate"
| "rot SRight = rbtree_right_rotate"

lemma rotate_eq:
  "rot d sentinel node h root = do {
     temp \<leftarrow> peek (child (opposite d)) h node;
     x \<leftarrow> peek (child d) h temp;
     h \<leftarrow> poke h node (set_child (opposite d) x);
     x \<leftarrow> peek (child d) h temp;
     h \<leftarrow> (if x \<noteq> sentinel then poke h x (\<lambda>n. n\<lparr>rb_parent := node\<rparr>) else Some h);
     np \<leftarrow> peek rb_parent h node;
     h \<leftarrow> poke h temp (\<lambda>n. n\<lparr>rb_parent := np\<rparr>);
     (h, root) \<leftarrow>
       (if node = root then Some (h, temp)
        else do {
          np \<leftarrow> peek rb_parent h node;
          x \<leftarrow> peek (child d) h np;
          h \<leftarrow> (if node = x then poke h np (set_child d temp)
                else poke h np (set_child (opposite d) temp));
          Some (h, root)
        });
     h \<leftarrow> poke h temp (set_child d node);
     h \<leftarrow> poke h node (\<lambda>n. n\<lparr>rb_parent := temp\<rparr>);
     Some (h, root)
   }"
proof -
  have c: "child SLeft = rb_left" "child SRight = rb_right"
    "set_child SLeft x = (\<lambda>n. n\<lparr>rb_left := x\<rparr>)" "set_child SRight x = (\<lambda>n. n\<lparr>rb_right := x\<rparr>)" for x
    by (rule ext; simp)+
  show ?thesis
    by (cases d) (simp_all add: rbtree_left_rotate_def rbtree_right_rotate_def c cong: if_cong)
qed

lemma path_cases:
  obtains (nil) "fs = []"
  | (same) g cg kg sib fs' where "fs = Fr d g cg kg sib # fs'"
  | (other) g cg kg sib fs' where "fs = Fr (opposite d) g cg kg sib # fs'"
proof (cases fs)
  case (Cons f fs')
  then show thesis by (cases f) (use that side_cases2 in blast)
qed

lemma rotate_run:
  assumes "deref h a = Some (cell d ya b p k c)" "deref h b = Some (cell d x yb pb k' c')"
    and "x \<noteq> s \<Longrightarrow> deref h x = Some nx" "a \<noteq> b" "x \<noteq> a" "x \<noteq> b"
    and "a \<noteq> rt \<Longrightarrow> deref h p = Some np" "a \<noteq> rt \<Longrightarrow> p \<noteq> a" "a \<noteq> rt \<Longrightarrow> p \<noteq> b"
    and "a \<noteq> rt \<Longrightarrow> x \<noteq> s \<Longrightarrow> p \<noteq> x"
  shows "rot d s a h rt =
    (let h1 = (if x = s then h else h(x \<mapsto> nx\<lparr>rb_parent := a\<rparr>));
         h2 = (if a = rt then h1
               else h1(p \<mapsto> set_child (if child d np = a then d else opposite d) b np))
     in Some (h2(a \<mapsto> cell d ya x b k c, b \<mapsto> cell d a yb p k' c'), if a = rt then b else rt))"
proof -
  have nn: "a \<noteq> NULL" "b \<noteq> NULL" "x \<noteq> s \<Longrightarrow> x \<noteq> NULL" "a \<noteq> rt \<Longrightarrow> p \<noteq> NULL"
    using assms deref_not_NULL by metis+
  note eval = rotate_eq peek_def poke_def deref_upd
  consider "a = rt" "x = s" | "a = rt" "x \<noteq> s" | "a \<noteq> rt" "x = s" | "a \<noteq> rt" "x \<noteq> s" by blast
  then show ?thesis
  proof cases
    case 1
    with assms nn show ?thesis by (simp add: eval fun_upd_twist)
  next
    case 2
    with assms nn show ?thesis by (simp add: eval fun_upd_twist)
  next
    case 3
    with assms nn show ?thesis by (simp add: eval fun_upd_twist)
  next
    case 4
    with assms nn show ?thesis by (simp add: eval fun_upd_twist)
  qed
qed


lemma ptr_in: "ptr s t = s \<or> ptr s t \<in> set (addrs t)"
  by (cases t) auto

lemma ptr_cell: "rep h s p t \<Longrightarrow> ptr s t \<noteq> s \<Longrightarrow> \<exists>n. deref h (ptr s t) = Some n"
  by (cases t) auto

section \<open>Rotations on a focused tree\<close>

text \<open>Redirecting the parent of a subtree, as the rotations and the deletion do.\<close>

lemma rep_reparent:
  assumes "rep h s p t" "s \<notin> set (addrs t)" "distinct (addrs t)"
    and "deref h (ptr s t) = Some n"
  shows "rep (if ptr s t = s then h else h(ptr s t \<mapsto> n\<lparr>rb_parent := p'\<rparr>)) s p' t"
proof (cases t)
  case (Nd a c k l r)
  with assms have "n = cell SLeft (ptr s l) (ptr s r) p k c" and "a \<noteq> s" by auto
  with Nd assms show ?thesis by (auto simp: deref_upd dest: deref_not_NULL)
qed simp

lemma prep_child:
  assumes "prep h s pp fs a" and "fs \<noteq> []" and "a \<notin> set (paddrs fs)" and "a \<noteq> s"
    and "deref h (par pp fs) = Some np" and "distinct (paddrs fs)"
  shows "prep (h(par pp fs \<mapsto> set_child (if child d np = a then d else opposite d) b np)) s pp fs b"
proof (cases rule: path_cases [where fs = fs and d = d])
  case nil
  with assms show ?thesis by simp
next
  case (same g cg kg sib fs')
  with assms show ?thesis by (auto simp: deref_upd dest: deref_not_NULL)
next
  case (other g cg kg sib fs')
  with assms(3) have "a \<notin> set (addrs sib)" by simp
  then have neq: "ptr s sib \<noteq> a" using assms(4) by (rule ptr_neq)
  have "g \<noteq> NULL" using other assms by (auto dest: deref_not_NULL)
  moreover have "np = cell d (ptr s sib) a (par pp fs') kg cg" using other assms by simp
  ultimately show ?thesis using other assms neq by (simp add: deref_upd)
qed

lemma par_in: "fs \<noteq> [] \<Longrightarrow> par pp fs \<in> set (paddrs fs)"
  by (cases fs rule: paddrs.cases) auto

lemma prep_par: "prep h s pp fs x \<Longrightarrow> fs \<noteq> [] \<Longrightarrow> \<exists>n. deref h (par pp fs) = Some n"
  by (cases fs rule: paddrs.cases) auto

lemma rotate_focused:
  assumes foc: "focused h s pp rt fs (nd (opposite d) a c k (nd (opposite d) b c' k' C B) A)"
  shows "ensures (rot d s a h rt) (\<lambda>(h', rt').
     focused h' s pp rt' fs (nd d b c' k' (nd d a c k A B) C) \<and>
     unchanged_outside (set (paddrs fs) \<union> {a, b} \<union> set (addrs B)) h h')"
proof -
  let ?x = "ptr s B" and ?p = "par pp fs"
  have ap: "apart s fs (nd (opposite d) a c k (nd (opposite d) b c' k' C B) A)"
    using foc by (simp add: focused_def)
  then have ap': "apart s fs (nd d b c' k' (nd d a c k A B) C)"
    by (rule apart_perm) simp
  obtain nx where nx: "?x \<noteq> s \<Longrightarrow> deref h ?x = Some nx"
    using foc ptr_cell [of h s b B] by (auto simp: focused_def)
  obtain np where np: "fs \<noteq> [] \<Longrightarrow> deref h ?p = Some np"
    using foc prep_par [of h s pp fs a] by (auto simp: focused_def)
  have root: "a = rt \<longleftrightarrow> fs = []"
    using foc root_of_in [of fs a] by (auto simp: focused_def apart_def)
  have neq: "a \<noteq> b" "?x \<noteq> a" "?x \<noteq> b" "fs \<noteq> [] \<Longrightarrow> ?p \<noteq> a" "fs \<noteq> [] \<Longrightarrow> ?p \<noteq> b"
    "fs \<noteq> [] \<Longrightarrow> ?x \<noteq> s \<Longrightarrow> ?p \<noteq> ?x"
    using ap par_in [of fs pp] ptr_in [of s B] by (auto simp: apart_def)
  define h1 where "h1 = (if ?x = s then h else h(?x \<mapsto> nx\<lparr>rb_parent := a\<rparr>))"
  define h2 where "h2 = (if a = rt then h1
    else h1(?p \<mapsto> set_child (if child d np = a then d else opposite d) b np))"
  have run: "rot d s a h rt =
      Some (h2(a \<mapsto> cell d (ptr s A) ?x b k c, b \<mapsto> cell d a (ptr s C) ?p k' c'), if a = rt then b else rt)"
    using foc neq root nx np
    by (subst rotate_run [where d = d and ya = "ptr s A" and b = b and p = "?p" and x = ?x and yb = "ptr s C"
      and pb = a and nx = nx and np = np and k = k and c = c and k' = k' and c' = c'])
      (auto simp: focused_def Let_def h1_def h2_def)
  have xp: "?x \<noteq> s \<Longrightarrow> ?x \<notin> set (paddrs fs)"
    using ap ptr_in [of s B] by (auto simp: apart_def)
  have B: "rep h1 s a B"
    using rep_reparent [of h s b B nx a] foc nx ap by (cases B) (auto simp: h1_def focused_def apart_def)
  have fs: "fs \<noteq> [] \<Longrightarrow> prep h1 s pp fs a \<and> deref h1 ?p = Some np"
    using foc np neq xp by (auto simp: h1_def focused_def deref_upd)
  have prep: "prep h2 s pp fs b"
    using prep_child [of h1 s pp fs a np d b] fs root ap by (cases "fs = []") (auto simp: h2_def apart_def)
  have ps: "fs \<noteq> [] \<Longrightarrow> ?p \<notin> set (addrs A) \<union> set (addrs B) \<union> set (addrs C)" and p: "fs \<noteq> [] \<Longrightarrow> ?p \<in> set (paddrs fs)"
    and xs: "?x \<noteq> s \<Longrightarrow> ?x \<in> set (addrs B)" "?x \<noteq> s \<Longrightarrow> ?x \<notin> set (addrs A) \<union> set (addrs C)"
    using ap par_in [of fs pp] ptr_in [of s B] by (auto simp: apart_def)
  have sub: "rep h2 s a A" "rep h2 s a B" "rep h2 s b C"
    using foc B ps xs root by (auto simp: h2_def h1_def focused_def)
  have "s \<noteq> ?p" if "fs \<noteq> []" using p [OF that] ap by (auto simp: apart_def)
  then have sent: "sentinel_ok h2 s"
    using foc root by (simp add: h2_def h1_def focused_def)
  have nn: "a \<noteq> NULL" "b \<noteq> NULL"
    using foc by (auto simp: focused_def dest: deref_not_NULL)
  have "focused (h2(a \<mapsto> cell d (ptr s A) ?x b k c, b \<mapsto> cell d a (ptr s C) ?p k' c')) s pp
      (if a = rt then b else rt) fs (nd d b c' k' (nd d a c k A B) C)"
    using prep sub ap ap' nn neq foc sent root by (cases fs) (auto simp: focused_def apart_def deref_upd)
  moreover have "unchanged_outside (set (paddrs fs) \<union> {a, b} \<union> set (addrs B)) h h2"
    using p xs root by (simp add: h2_def h1_def)
  ultimately show ?thesis by (simp add: run)
qed

section \<open>Colours\<close>

lemma color_focused:
  assumes "focused h s pp rt fs (nd d a c k x y)"
  shows "ensures (poke h a (\<lambda>n. n\<lparr>rb_color := c'\<rparr>))
    (\<lambda>h'. focused h' s pp rt fs (nd d a c' k x y) \<and> unchanged_outside {a} h h')"
proof -
  have "apart s fs (nd d a c' k x y)"
    using assms by (auto simp: focused_def apart_def)
  with assms show ?thesis
    by (auto simp: poke_def focused_def apart_def deref_upd dest: deref_not_NULL)
qed

lemma focused_sib:
  "focused h s pp rt (Fr d a c k sib # fs) t = focused h s pp rt (Fr (opposite d) a c k t # fs) sib"
  by (simp add: focused_up)

definition nodes :: "frame list \<Rightarrow> ptree \<Rightarrow> addr set" where
  "nodes fs t = set (addrs t @ paddrs fs)"

lemma nodes_whole: "nodes fs t = set (addrs (plug fs t))"
  by (simp only: nodes_def set_addrs_plug)

fun red :: "ptree \<Rightarrow> bool" where
  "red Lf = False"
| "red (Nd a c k l r) = c"

lemma red_nd [simp]: "red (nd d a c k x y) = c"
  by (cases d) simp_all

lemma is_red_focus: "focused h s pp rt fs t \<Longrightarrow> rbtree_is_red h (ptr s t) = Some (red t)"
  by (cases t) (auto simp: focused_def rbtree_is_red_def peek_def sentinel_ok_def)

lemma is_red_sib: "focused h s pp rt (Fr d a c k sib # fs) t \<Longrightarrow> rbtree_is_red h (ptr s sib) = Some (red sib)"
  by (rule is_red_focus [OF iffD1 [OF focused_sib]])

end
