(* ===== verification/Rbtree_Balance.thy ===== *)
theory Rbtree_Balance
  imports Rbtree_Ops
begin

text \<open>
  The red-black invariant on trees and on paths (no red node has a red child, every path down has
  the same number of black nodes, the root is black), the in-order entries of a tree seen from a
  path, and \<open>rbtree_holds\<close>, what a client may rely on: the heap holds a balanced search tree.
\<close>

section \<open>Balance\<close>

fun invc :: "ptree \<Rightarrow> bool" where
  "invc Lf \<longleftrightarrow> True"
| "invc (Nd a c k l r) \<longleftrightarrow> (c \<longrightarrow> \<not> red l \<and> \<not> red r) \<and> invc l \<and> invc r"

fun bheight :: "ptree \<Rightarrow> nat" where
  "bheight Lf = 0"
| "bheight (Nd a c k l r) = (if c then bheight l else Suc (bheight l))"

fun invh :: "ptree \<Rightarrow> bool" where
  "invh Lf \<longleftrightarrow> True"
| "invh (Nd a c k l r) \<longleftrightarrow> bheight l = bheight r \<and> invh l \<and> invh r"

fun blacken :: "ptree \<Rightarrow> ptree" where
  "blacken Lf = Lf"
| "blacken (Nd a c k l r) = Nd a False k l r"

text \<open>What a path asks of its focus: the colour \<open>r\<close> and the black height \<open>n\<close> it may have.\<close>

fun pinvc :: "frame list \<Rightarrow> bool \<Rightarrow> bool" where
  "pinvc [] r \<longleftrightarrow> True"
| "pinvc (Fr d a c k sib # fs) r \<longleftrightarrow> invc sib \<and> (c \<longrightarrow> \<not> r \<and> \<not> red sib) \<and> pinvc fs c"

fun pinvh :: "frame list \<Rightarrow> nat \<Rightarrow> bool" where
  "pinvh [] n \<longleftrightarrow> True"
| "pinvh (Fr d a c k sib # fs) n \<longleftrightarrow>
     invh sib \<and> bheight sib = n \<and> pinvh fs (if c then n else Suc n)"

fun top_black :: "frame list \<Rightarrow> bool" where
  "top_black [] \<longleftrightarrow> True"
| "top_black [Fr d a c k sib] \<longleftrightarrow> \<not> c"
| "top_black (f # g # fs) \<longleftrightarrow> top_black (g # fs)"

lemma invc_nd [simp]: "invc (nd d a c k x y) \<longleftrightarrow> (c \<longrightarrow> \<not> red x \<and> \<not> red y) \<and> invc x \<and> invc y"
  by (cases d) auto

lemma bheight_nd: "bheight x = bheight y \<Longrightarrow> bheight (nd d a c k x y) = (if c then bheight x else Suc (bheight x))"
  by (cases d) auto

lemma invh_nd [simp]: "invh (nd d a c k x y) \<longleftrightarrow> bheight x = bheight y \<and> invh x \<and> invh y"
  by (cases d) auto

lemma blacken_nd [simp]: "blacken (nd d a c k x y) = nd d a False k x y"
  by (cases d) auto

lemma invc_plug: "invc (plug fs t) \<longleftrightarrow> invc t \<and> pinvc fs (red t)"
  by (induction fs t rule: plug.induct) auto

lemma invh_plug: "invh (plug fs t) \<longleftrightarrow> invh t \<and> pinvh fs (bheight t)"
  by (induction fs t rule: plug.induct) (auto simp: bheight_nd)

lemma pinvc_black: "pinvc fs r \<Longrightarrow> pinvc fs False"
  by (cases fs rule: paddrs.cases) auto

lemma red_plug: "red (plug fs t) \<longleftrightarrow> (if fs = [] then red t else \<not> top_black fs)"
proof (induction fs arbitrary: t rule: top_black.induct)
  case (3 f g fs)
  then show ?case by (cases f) simp
qed simp_all

lemma invc_blacken: "invc t \<Longrightarrow> invc (blacken t)"
  by (cases t) auto

lemma invh_blacken [simp]: "invh (blacken t) = invh t"
  by (cases t) auto

lemma entries_blacken [simp]: "entries (blacken t) = entries t"
  by (cases t) auto

definition rbt :: "ptree \<Rightarrow> bool" where
  "rbt t \<longleftrightarrow> invc t \<and> invh t \<and> \<not> red t"

lemma rbt_blacken: "invc (blacken t) \<Longrightarrow> invh t \<Longrightarrow> rbt (blacken t)"
  by (cases t) (auto simp: rbt_def)

primrec joined :: "side \<Rightarrow> 'a list \<Rightarrow> 'a \<Rightarrow> 'a list \<Rightarrow> 'a list" where
  "joined SLeft xs e ys = xs @ e # ys"
| "joined SRight xs e ys = ys @ e # xs"

lemma entries_nd: "entries (nd d a c k x y) = joined d (entries x) (a, k) (entries y)"
  by (cases d) simp_all

lemma joined_assoc:
  "joined d (joined d xs e ys) f zs = joined d xs e (joined d ys f zs)"
  by (cases d) simp_all

lemma joined_opposite [simp]: "joined (opposite d) xs e ys = joined d ys e xs"
  by (cases d) simp_all

lemma entries_plug_cong: "entries t = entries t' \<Longrightarrow> entries (plug fs t) = entries (plug fs t')"
  by (induction fs arbitrary: t t' rule: paddrs.induct) (auto simp: entries_nd)

section \<open>Entries seen from a path\<close>

fun before :: "frame list \<Rightarrow> (addr \<times> 64 word) list" where
  "before [] = []"
| "before (Fr d a c k sib # fs) = before fs @ (case d of SLeft \<Rightarrow> [] | SRight \<Rightarrow> entries sib @ [(a, k)])"

fun after :: "frame list \<Rightarrow> (addr \<times> 64 word) list" where
  "after [] = []"
| "after (Fr d a c k sib # fs) = (case d of SLeft \<Rightarrow> (a, k) # entries sib | SRight \<Rightarrow> []) @ after fs"

lemma entries_plug: "entries (plug fs t) = before fs @ entries t @ after fs"
  by (induction fs t rule: plug.induct) (auto simp: entries_nd split: side.split)

abbreviation keys :: "ptree \<Rightarrow> 64 word list" where
  "keys t \<equiv> map snd (entries t)"

section \<open>The contract of the tree\<close>

definition rbtree_holds :: "rbheap \<Rightarrow> rbtree \<Rightarrow> ptree \<Rightarrow> bool" where
  "rbtree_holds h tree T \<longleftrightarrow>
     (\<exists>pp. focused h (rbt_sentinel tree) pp (rbt_root tree) [] T) \<and> rbt T \<and> sorted (keys T)"

lemma blacken_root:
  assumes "focused h s pp rt [] T" "T \<noteq> Lf"
  shows "ensures (rbtree_black h rt) (\<lambda>h'. focused h' s pp rt [] (blacken T) \<and> unchanged_outside (set (addrs T)) h h')"
proof -
  obtain a c k l r where T: "T = nd SLeft a c k l r" using assms(2) by (cases T) auto
  with assms have "rt = a" by (simp add: focused_def)
  with T color_focused [OF assms(1) [unfolded T], of False] show ?thesis
    by (auto simp: rbtree_black_def elim!: ensures_mono intro: unchanged_outside_mono)
qed

end
