(* ===== verification/Rbtree_Insert.thy ===== *)
theory Rbtree_Insert
  imports Rbtree_Balance
begin

text \<open>
  \<open>rbtree_insert\<close> on a focused tree: one turn of the rebalancing loop (recolouring, outer and inner
  rotation), the loop by induction on the length of the path, the descent to the free slot, and the
  whole insertion (\<open>insert_rbtree_holds\<close>).
\<close>

section \<open>One turn of the loop\<close>

definition insert_step_at ::
  "side \<Rightarrow> addr \<Rightarrow> addr \<Rightarrow> addr \<Rightarrow> addr \<Rightarrow> rbheap \<Rightarrow> addr \<Rightarrow> (addr \<times> rbheap \<times> addr) option" where
  "insert_step_at d sentinel p g node h root = do {
     temp \<leftarrow> peek (child (opposite d)) h g;
     red \<leftarrow> rbtree_is_red h temp;
     if red then do {
       h \<leftarrow> rbtree_black h p;
       h \<leftarrow> rbtree_black h temp;
       h \<leftarrow> rbtree_red h g;
       Some (g, h, root)
     } else do {
       x \<leftarrow> peek (child (opposite d)) h p;
       (node, h, root) \<leftarrow>
         (if node = x then do {
            (h, root) \<leftarrow> rot d sentinel p h root;
            Some (p, h, root)
          } else Some (node, h, root));
       p \<leftarrow> peek rb_parent h node;
       h \<leftarrow> rbtree_black h p;
       g \<leftarrow> peek rb_parent h p;
       h \<leftarrow> rbtree_red h g;
       (h, root) \<leftarrow> rot (opposite d) sentinel g h root;
       Some (node, h, root)
     }
   }"

lemma child_fun: "child SLeft = rb_left" "child SRight = rb_right"
  by (rule ext; simp)+

lemma rbtree_insert_step_eq:
  "rbtree_insert_step sentinel node h root = do {
     p \<leftarrow> peek rb_parent h node;
     g \<leftarrow> peek rb_parent h p;
     gl \<leftarrow> peek rb_left h g;
     insert_step_at (if p = gl then SLeft else SRight) sentinel p g node h root
   }"
  unfolding rbtree_insert_step_def insert_step_at_def
  by (intro Option.bind_cong refl) (simp add: child_fun cong: if_cong)

lemma insert_step_side:
  assumes "focused h s pp rt (Fr d1 p cp kp sib # Fr d g cg kg unc # fs) (Nd n c k x y)"
  shows "rbtree_insert_step s n h rt = insert_step_at d s p g n h rt"
proof -
  have "p \<notin> set (addrs unc)" "p \<noteq> s"
    using assms by (simp_all add: focused_def apart_def)
  then have "ptr s unc \<noteq> p" by (rule ptr_neq)
  moreover have "peek rb_parent h n = Some p" "peek rb_parent h p = Some g"
    "peek rb_left h g = Some (case d of SLeft \<Rightarrow> p | SRight \<Rightarrow> ptr s unc)"
    using assms by (simp_all add: focused_def peek_def split: side.split)
  ultimately show ?thesis
    by (simp add: rbtree_insert_step_eq split: side.split)
qed

lemma insert_step_recolor:
  assumes foc: "focused h s pp rt (Fr d1 p cp kp sib # Fr d g cg kg (nd e u True ku ul ur) # fs) (Nd n c k x y)"
  shows "ensures (rbtree_insert_step s n h rt) (\<lambda>(n', h', rt'). n' = g \<and> rt' = rt \<and>
    focused h' s pp rt fs (nd d g True kg (nd d1 p False kp (Nd n c k x y) sib) (nd e u False ku ul ur)) \<and>
    unchanged_outside (nodes (Fr d1 p cp kp sib # Fr d g cg kg (nd e u True ku ul ur) # fs) (Nd n c k x y)) h h')"
proof -
  let ?t = "Nd n c k x y"
  have "focused h s pp rt (Fr d g cg kg (nd e u True ku ul ur) # fs) (nd d1 p cp kp ?t sib)"
    using foc by (simp add: focused_up)
  from color_focused [OF this, of False] obtain h1 where
    h1: "poke h p (\<lambda>n. n\<lparr>rb_color := False\<rparr>) = Some h1" and u1: "unchanged_outside {p} h h1"
    and f1: "focused h1 s pp rt (Fr d g cg kg (nd e u True ku ul ur) # fs) (nd d1 p False kp ?t sib)"
    by (auto elim!: ensuresE)
  from color_focused [OF f1 [THEN focused_sib [THEN iffD1]], of False] obtain h2 where
    h2: "poke h1 u (\<lambda>n. n\<lparr>rb_color := False\<rparr>) = Some h2" and u2: "unchanged_outside {u} h1 h2"
    and "focused h2 s pp rt (Fr (opposite d) g cg kg (nd d1 p False kp ?t sib) # fs) (nd e u False ku ul ur)"
    by (auto elim!: ensuresE)
  then have "focused h2 s pp rt fs (nd d g cg kg (nd d1 p False kp ?t sib) (nd e u False ku ul ur))"
    by (simp add: focused_up)
  from color_focused [OF this, of True] obtain h3 where
    h3: "poke h2 g (\<lambda>n. n\<lparr>rb_color := True\<rparr>) = Some h3" and u3: "unchanged_outside {g} h2 h3"
    and f3: "focused h3 s pp rt fs (nd d g True kg (nd d1 p False kp ?t sib) (nd e u False ku ul ur))"
    by (auto elim!: ensuresE)
  have reads: "peek (child (opposite d)) h g = Some u" "rbtree_is_red h u = Some True"
    using foc by (simp_all add: focused_def peek_def rbtree_is_red_def)
  have "unchanged_outside (nodes (Fr d1 p cp kp sib # Fr d g cg kg (nd e u True ku ul ur) # fs) ?t) h h3"
    using u1 u2 u3 by (simp add: unchanged_outside_def nodes_def)
  then show ?thesis
    by (simp add: insert_step_side [OF foc] insert_step_at_def reads rbtree_black_def rbtree_red_def h1 h2 h3 f3)
qed


text \<open>Blacken the parent, redden the grandparent, rotate at the grandparent.\<close>

lemma insert_step_tail:
  assumes foc: "focused h s pp rt (Fr d p cp kp sib # Fr d g cg kg unc # fs) t"
  shows "ensures (do {
       h \<leftarrow> rbtree_black h p;
       g \<leftarrow> peek rb_parent h p;
       h \<leftarrow> rbtree_red h g;
       rot (opposite d) s g h rt }) (\<lambda>(h', rt').
    focused h' s pp rt' (Fr d p False kp (nd d g True kg sib unc) # fs) t \<and>
    unchanged_outside (nodes (Fr d p cp kp sib # Fr d g cg kg unc # fs) t) h h')"
proof -
  have "focused h s pp rt (Fr d g cg kg unc # fs) (nd d p cp kp t sib)"
    using foc by (simp add: focused_up)
  from color_focused [OF this, of False] obtain h1 where
    h1: "poke h p (\<lambda>n. n\<lparr>rb_color := False\<rparr>) = Some h1" and u1: "unchanged_outside {p} h h1"
    and f1: "focused h1 s pp rt (Fr d g cg kg unc # fs) (nd d p False kp t sib)"
    by (auto elim!: ensuresE)
  from f1 have "focused h1 s pp rt fs (nd d g cg kg (nd d p False kp t sib) unc)"
    by (simp add: focused_up)
  from color_focused [OF this, of True] obtain h2 where
    h2: "poke h1 g (\<lambda>n. n\<lparr>rb_color := True\<rparr>) = Some h2" and u2: "unchanged_outside {g} h1 h2"
    and "focused h2 s pp rt fs (nd d g True kg (nd d p False kp t sib) unc)"
    by (auto elim!: ensuresE)
  then have "focused h2 s pp rt fs
      (nd (opposite (opposite d)) g True kg (nd (opposite (opposite d)) p False kp t sib) unc)"
    by simp
  from rotate_focused [OF this] obtain h3 rt3 where
    r3: "rot (opposite d) s g h2 rt = Some (h3, rt3)"
    and u3: "unchanged_outside (set (paddrs fs) \<union> {g, p} \<union> set (addrs sib)) h2 h3"
    and f3: "focused h3 s pp rt3 fs (nd d p False kp t (nd d g True kg sib unc))"
    by (auto elim!: ensuresE)
  have "peek rb_parent h1 p = Some g"
    using f1 by (simp add: focused_def peek_def)
  moreover have "unchanged_outside (nodes (Fr d p cp kp sib # Fr d g cg kg unc # fs) t) h h3"
    using u1 u2 u3 by (simp add: unchanged_outside_def nodes_def)
  ultimately show ?thesis
    using f3 by (simp add: rbtree_black_def rbtree_red_def h1 h2 r3 focused_up)
qed

lemma insert_step_outer:
  assumes foc: "focused h s pp rt (Fr d p cp kp sib # Fr d g cg kg unc # fs) (Nd n c k x y)"
    and unc: "\<not> red unc"
  shows "ensures (rbtree_insert_step s n h rt) (\<lambda>(n', h', rt'). n' = n \<and>
    focused h' s pp rt' (Fr d p False kp (nd d g True kg sib unc) # fs) (Nd n c k x y) \<and>
    unchanged_outside (nodes (Fr d p cp kp sib # Fr d g cg kg unc # fs) (Nd n c k x y)) h h')"
proof -
  have "n \<notin> set (addrs sib)" "n \<noteq> s"
    using foc by (simp_all add: focused_def apart_def)
  then have "n \<noteq> ptr s sib" using ptr_neq by metis
  moreover have "rbtree_is_red h (ptr s unc) = Some False"
    using is_red_sib [of h s pp rt d g cg kg unc fs] foc unc by (simp add: focused_up)
  moreover have "peek (child (opposite d)) h g = Some (ptr s unc)"
    "peek (child (opposite d)) h p = Some (ptr s sib)" "peek rb_parent h n = Some p"
    using foc by (simp_all add: focused_def peek_def)
  ultimately show ?thesis
    using insert_step_tail [OF foc]
    by (auto simp: insert_step_side [OF foc] insert_step_at_def ensures_bind split_def)
qed

lemma insert_step_inner:
  assumes foc: "focused h s pp rt (Fr (opposite d) p cp kp sib # Fr d g cg kg unc # fs) (nd d n c k x y)"
    and unc: "\<not> red unc"
  shows "ensures (rbtree_insert_step s n h rt) (\<lambda>(n', h', rt'). n' = p \<and>
    focused h' s pp rt' (Fr d n False k (nd d g True kg y unc) # fs) (nd d p cp kp sib x) \<and>
    unchanged_outside (nodes (Fr (opposite d) p cp kp sib # Fr d g cg kg unc # fs) (nd d n c k x y)) h h')"
    (is "ensures _ (\<lambda>(n', h', rt'). _ \<and> _ \<and> unchanged_outside ?U h h')")
proof -
  have "focused h s pp rt (Fr d g cg kg unc # fs) (nd (opposite d) p cp kp (nd (opposite d) n c k y x) sib)"
    using foc by (simp add: focused_up)
  from rotate_focused [OF this] obtain h1 rt1 where
    r1: "rot d s p h rt = Some (h1, rt1)"
    and u1: "unchanged_outside (set (paddrs (Fr d g cg kg unc # fs)) \<union> {p, n} \<union> set (addrs x)) h h1"
    and "focused h1 s pp rt1 (Fr d g cg kg unc # fs) (nd d n c k (nd d p cp kp sib x) y)"
    by (auto elim!: ensuresE)
  then have f1: "focused h1 s pp rt1 (Fr d n c k y # Fr d g cg kg unc # fs) (nd d p cp kp sib x)"
    by (simp add: focused_up)
  have U: "nodes (Fr d n c k y # Fr d g cg kg unc # fs) (nd d p cp kp sib x) = ?U"
    by (auto simp: nodes_def)
  have U1: "unchanged_outside ?U h h1"
    by (rule unchanged_outside_mono [OF u1]) (auto simp: nodes_def)
  have step: "rbtree_insert_step s n h rt = insert_step_at d s p g n h rt"
    using insert_step_side [of h s pp rt "opposite d" p cp kp sib d g cg kg unc fs n c k
      "case d of SLeft \<Rightarrow> x | SRight \<Rightarrow> y" "case d of SLeft \<Rightarrow> y | SRight \<Rightarrow> x"] foc
    by (cases d) simp_all
  have reads: "peek (child (opposite d)) h g = Some (ptr s unc)" "peek (child (opposite d)) h p = Some n"
    "peek rb_parent h1 p = Some n"
    using foc f1 by (simp_all add: focused_def peek_def)
  have "rbtree_is_red h (ptr s unc) = Some False"
    using is_red_sib [of h s pp rt d g cg kg unc fs] foc unc by (simp add: focused_up)
  with insert_step_tail [OF f1] reads U1 show ?thesis
    unfolding U
    by (auto simp: step insert_step_at_def r1 ensures_bind split_def elim!: ensures_mono
        intro: unchanged_outside_trans)
qed


section \<open>The rebalancing loop\<close>

lemma insert_fixup_exit:
  assumes foc: "focused h s pp rt (Fr d p False kp sib # fs) t" and "t \<noteq> Lf"
  shows "rbtree_insert_fixup s (ptr s t) h rt = Some (h, rt)"
proof -
  have "ptr s t \<noteq> rt"
    using assms root_of_in [of "Fr d p False kp sib # fs" "ptr s t"] ptr_in [of s t]
    by (auto simp: focused_def apart_def)
  moreover have "peek rb_parent h (ptr s t) = Some p" "rbtree_is_red h p = Some False"
    using assms by (cases t; simp add: focused_def peek_def rbtree_is_red_def)+
  ultimately show ?thesis
    by (subst rbtree_insert_fixup.simps) simp
qed

lemma insert_fixup_step:
  assumes foc: "focused h s pp rt (Fr d p True kp sib # fs) t" and "t \<noteq> Lf"
  shows "rbtree_insert_fixup s (ptr s t) h rt =
    Option.bind (rbtree_insert_step s (ptr s t) h rt) (\<lambda>(n, h, rt). rbtree_insert_fixup s n h rt)"
proof -
  have "ptr s t \<noteq> rt"
    using assms root_of_in [of "Fr d p True kp sib # fs" "ptr s t"] ptr_in [of s t]
    by (auto simp: focused_def apart_def)
  moreover have "peek rb_parent h (ptr s t) = Some p" "rbtree_is_red h p = Some True"
    using assms by (cases t; simp add: focused_def peek_def rbtree_is_red_def)+
  ultimately show ?thesis
    by (subst rbtree_insert_fixup.simps) simp
qed


definition insert_fixed :: "addr \<Rightarrow> addr \<Rightarrow> rbheap \<Rightarrow> ptree \<Rightarrow> rbheap \<times> addr \<Rightarrow> bool" where
  "insert_fixed s pp h T r \<longleftrightarrow> (case r of (h', rt') \<Rightarrow>
     (\<exists>T'. focused h' s pp rt' [] T' \<and> entries T' = entries T \<and> invh T' \<and> invc (blacken T') \<and>
       unchanged_outside (set (addrs T)) h h'))"

lemma insert_fixedI:
  assumes "focused h' s pp rt' fs t" "entries (plug fs t) = entries T" "invh (plug fs t)"
    "invc (blacken (plug fs t))" "unchanged_outside (set (addrs T)) h h'"
  shows "insert_fixed s pp h T (h', rt')"
  using assms unfolding insert_fixed_def by (auto simp: focused_whole [of _ _ _ _ fs])

lemma insert_fixed_trans:
  assumes "insert_fixed s pp h1 T1 r" "entries T1 = entries T" "unchanged_outside (set (addrs T)) h h1"
  shows "insert_fixed s pp h T r"
proof -
  have "set (addrs T1) = set (addrs T)" using assms(2) by (simp add: addrs_entries)
  with assms show ?thesis
    unfolding insert_fixed_def by (auto intro: unchanged_outside_trans)
qed

lemma red_nd_cases:
  assumes "red t"
  obtains u k l r where "t = Nd u True k l r"
  using assms by (cases t) auto

lemma insert_fixup_correct:
  assumes "focused h s pp rt fs t" and "red t" "invc t" "invh (plug fs t)" "pinvc fs False" "top_black fs"
  shows "ensures (rbtree_insert_fixup s (ptr s t) h rt) (insert_fixed s pp h (plug fs t))"
  using assms
proof (induction "length fs" arbitrary: h rt fs t rule: less_induct)
  case (less fs)
  note foc = less.prems(1) and red = less.prems(2) and bal = less.prems(3-6)
  have nLf: "t \<noteq> Lf" using red by auto
  consider (top) "fs = []"
    | (black) d p k sib fs' where "fs = Fr d p False k sib # fs'"
    | (red) d1 p kp sib d g cg kg unc fs' where "fs = Fr d1 p True kp sib # Fr d g cg kg unc # fs'"
    using bal(4) by (cases fs rule: top_black.cases) (auto, metis frame.exhaust)
  then show ?case
  proof cases
    case top
    then have "rbtree_insert_fixup s (ptr s t) h rt = Some (h, rt)"
      using foc by (subst rbtree_insert_fixup.simps) (simp add: focused_def)
    with top foc bal show ?thesis
      by (auto intro!: insert_fixedI [OF foc] simp: invc_blacken)
  next
    case (black d p k sib fs')
    with foc bal nLf show ?thesis
      by (auto simp: insert_fixup_exit invc_plug invc_blacken intro!: insert_fixedI [OF foc])
  next
    case (red d1 p kp sib d g cg kg unc fs')
    obtain n k x y where t: "t = Nd n True k x y" using \<open>red t\<close> by (cases t) auto
    have ncg: "\<not> cg" using bal(3) red by simp
    have step: "rbtree_insert_fixup s (ptr s t) h rt =
        Option.bind (rbtree_insert_step s n h rt) (\<lambda>(n, h, rt). rbtree_insert_fixup s n h rt)"
      using insert_fixup_step [OF foc [unfolded red] nLf] t by simp
    have whole: "unchanged_outside (nodes fs t) h h' \<longleftrightarrow> unchanged_outside (set (addrs (plug fs t))) h h'" for h'
      by (simp only: nodes_whole)
    show ?thesis
    proof (cases "red unc")
      case True
      then obtain u ku ul ur where unc: "unc = nd SLeft u True ku ul ur" by (cases unc) auto
      let ?t = "nd d g True kg (nd d1 p False kp t sib) (Nd u False ku ul ur)"
      obtain h1 where s1: "rbtree_insert_step s n h rt = Some (g, h1, rt)"
        and f1: "focused h1 s pp rt fs' ?t" and u1: "unchanged_outside (nodes fs t) h h1"
        using insert_step_recolor [OF foc [unfolded red unc t]] unfolding red unc t
        by (auto elim!: ensuresE)
      have len: "length fs' < length fs" using red by simp
      have bal': "red ?t" "invc ?t" "invh (plug fs' ?t)" "pinvc fs' False" "top_black fs'"
        using bal red unc t ncg by (auto simp: invh_plug bheight_nd intro: pinvc_black elim: top_black.elims)
      have "ensures (rbtree_insert_fixup s g h1 rt) (insert_fixed s pp h1 (plug fs' ?t))"
        using less.hyps [OF len f1 bal'] by simp
      moreover have "entries (plug fs' ?t) = entries (plug fs t)"
        by (auto simp: red unc entries_nd intro!: entries_plug_cong)
      ultimately show ?thesis
        using u1 unfolding step s1 whole by (auto elim!: ensures_mono insert_fixed_trans)
    next
      case black: False
      have "d1 = d \<or> d1 = opposite d" by (rule side_cases2)
      then show ?thesis
      proof
        assume d1: "d1 = d"
        let ?fs = "Fr d p False kp (nd d g True kg sib unc) # fs'"
        obtain h1 rt1 where s1: "rbtree_insert_step s n h rt = Some (n, h1, rt1)"
          and f1: "focused h1 s pp rt1 ?fs t" and u1: "unchanged_outside (nodes fs t) h h1"
          using insert_step_outer [OF foc [unfolded red t d1] black] unfolding red t d1
          by (auto elim!: ensuresE)
        have "insert_fixed s pp h (plug fs t) (h1, rt1)"
          using bal red t d1 ncg black
          by (intro insert_fixedI [OF f1 _ _ _ u1 [unfolded whole]])
            (auto simp: entries_nd joined_assoc invc_plug invh_plug bheight_nd
              intro!: entries_plug_cong invc_blacken intro: pinvc_black)
        with insert_fixup_exit [OF f1 nLf] show ?thesis unfolding step s1 by (simp add: t)
      next
        assume d1: "d1 = opposite d"
        obtain x' y' where t': "t = nd d n True k x' y'" using t by (cases d) (auto intro: that)
        let ?t = "nd d p True kp sib x'" and ?fs = "Fr d n False k (nd d g True kg y' unc) # fs'"
        obtain h1 rt1 where s1: "rbtree_insert_step s n h rt = Some (p, h1, rt1)"
          and f1: "focused h1 s pp rt1 ?fs ?t" and u1: "unchanged_outside (nodes fs t) h h1"
          using insert_step_inner [OF foc [unfolded red t' d1] black] unfolding red t' d1
          by (auto elim!: ensuresE)
        have "insert_fixed s pp h (plug fs t) (h1, rt1)"
          using bal red t' d1 ncg black
          by (intro insert_fixedI [OF f1 _ _ _ u1 [unfolded whole]])
            (auto simp: entries_nd joined_assoc invc_plug invh_plug bheight_nd
              intro!: entries_plug_cong invc_blacken intro: pinvc_black)
        moreover have "?t \<noteq> Lf" by (cases d) simp_all
        ultimately show ?thesis using insert_fixup_exit [OF f1] unfolding step s1 by simp
      qed
    qed
  qed
qed


section \<open>The descent\<close>

fun insert_path :: "64 word \<Rightarrow> frame list \<Rightarrow> ptree \<Rightarrow> frame list" where
  "insert_path k fs Lf = fs"
| "insert_path k fs (Nd a c ka l r) =
     (if k < ka then insert_path k (Fr SLeft a c ka r # fs) l
      else insert_path k (Fr SRight a c ka l # fs) r)"

lemma plug_insert_path: "plug (insert_path k fs t) Lf = plug fs t"
  by (induction k fs t rule: insert_path.induct) simp_all

lemma insert_slot_path:
  assumes "focused h s pp rt fs (Nd a c ka l r)" and "peek rb_key h node = Some k"
  shows "\<exists>d a' c' k' sib fs'. insert_path k fs (Nd a c ka l r) = Fr d a' c' k' sib # fs' \<and>
    rbtree_insert_slot h s node a = Some (a', d)"
  using assms(1)
proof (induction "Nd a c ka l r" arbitrary: fs a c ka l r)
  case (Nd a c ka l r)
  define d where "d = (if k < ka then SLeft else SRight)"
  define x where "x = (if k < ka then l else r)"
  define y where "y = (if k < ka then r else l)"
  have t: "Nd a c ka l r = nd d a c ka x y" by (simp add: d_def x_def y_def)
  have path: "insert_path k fs (Nd a c ka l r) = insert_path k (Fr d a c ka y # fs) x"
    by (simp add: d_def x_def y_def)
  have foc: "focused h s pp rt (Fr d a c ka y # fs) x"
    using Nd.prems by (simp add: focused_up t)
  have "peek rb_key h a = Some ka" "peek (child d) h a = Some (ptr s x)"
    using foc by (simp_all add: focused_def peek_def)
  then have run: "rbtree_insert_slot h s node a =
      (if ptr s x = s then Some (a, d) else rbtree_insert_slot h s node (ptr s x))"
    using assms(2) by (subst rbtree_insert_slot.simps) (simp add: d_def Let_def)
  show ?case
  proof (cases x)
    case Lf
    then show ?thesis by (simp add: path run del: insert_path.simps(2))
  next
    case (Nd a2 c2 k2 l2 r2)
    with foc have "a2 \<noteq> s" by (auto simp: focused_def apart_def)
    moreover have "x = l \<or> x = r" by (simp add: x_def)
    ultimately show ?thesis
      using Nd foc Nd.hyps(1,2) by (auto simp: path run simp del: insert_path.simps(2))
  qed
qed

lemma insert_path_bounds:
  assumes "sorted (keys (plug fs t))" "\<forall>e \<in> set (before fs). snd e \<le> k" "\<forall>e \<in> set (after fs). k < snd e"
  shows "(\<forall>e \<in> set (before (insert_path k fs t)). snd e \<le> k) \<and>
    (\<forall>e \<in> set (after (insert_path k fs t)). k < snd e)"
  using assms
proof (induction k fs t rule: insert_path.induct)
  case (2 k fs a c ka l r)
  have l: "\<forall>e \<in> set (entries l). snd e \<le> ka" and r: "\<forall>e \<in> set (entries r). ka \<le> snd e"
    using "2.prems"(1) by (auto simp: entries_plug sorted_append)
  show ?case
  proof (cases "k < ka")
    case True
    with r have "\<forall>e \<in> set (entries r). k < snd e" by (blast intro: less_le_trans)
    with True "2.IH"(1) "2.prems" show ?thesis by (simp add: ball_Un)
  next
    case False
    with l have "\<forall>e \<in> set (entries l). snd e \<le> k" by (meson linorder_not_less order_trans)
    with False "2.IH"(2) "2.prems" show ?thesis by (simp add: ball_Un not_less)
  qed
qed simp

section \<open>Insertion\<close>

lemma focused_attach:
  assumes foc: "focused h s pp rt (Fr d a c ka sib # fs) Lf"
    and n: "deref h n = Some nn" "n \<notin> nodes (Fr d a c ka sib # fs) Lf" "n \<noteq> s"
  shows "ensures (do {
      h \<leftarrow> poke h a (set_child d n);
      h \<leftarrow> poke h n (\<lambda>n. n\<lparr>rb_parent := a, rb_left := s, rb_right := s\<rparr>);
      rbtree_red h n }) (\<lambda>h'.
    focused h' s pp rt (Fr d a c ka sib # fs) (Nd n True (rb_key nn) Lf Lf) \<and>
    unchanged_outside {n, a} h h')"
proof -
  have nn: "n \<noteq> NULL" "a \<noteq> NULL" using foc n by (auto simp: focused_def dest: deref_not_NULL)
  have sn: "s \<noteq> n" "s \<noteq> a" "n \<noteq> a" using foc n by (auto simp: focused_def apart_def nodes_def)
  have "apart s (Fr d a c ka sib # fs) (Nd n True (rb_key nn) Lf Lf)"
    using foc n by (auto simp: focused_def apart_def nodes_def)
  with foc n nn sn show ?thesis
    by (auto simp: focused_def apart_def nodes_def rbtree_red_def poke_def deref_upd)
qed


lemma insert_entries:
  assumes "sorted (keys T)"
  shows "entries (plug (insert_path k [] T) (Nd n c k Lf Lf)) =
    filter (\<lambda>e. snd e \<le> k) (entries T) @ (n, k) # filter (\<lambda>e. k < snd e) (entries T)"
proof -
  let ?fs = "insert_path k [] T"
  have T: "entries T = before ?fs @ after ?fs"
    using plug_insert_path [of k "[]" T] entries_plug [of ?fs Lf] by simp
  have "(\<forall>e \<in> set (before ?fs). snd e \<le> k) \<and> (\<forall>e \<in> set (after ?fs). k < snd e)"
    using insert_path_bounds [of "[]" T k] assms by simp
  then have "filter (\<lambda>e. snd e \<le> k) (entries T) = before ?fs" "filter (\<lambda>e. k < snd e) (entries T) = after ?fs"
    unfolding T by (auto simp: filter_empty_conv not_le not_less)
  then show ?thesis by (simp add: entries_plug)
qed

lemma insert_path_balance:
  assumes "rbt T" and fs: "insert_path k [] T = fs" "fs \<noteq> []"
  shows "invh (plug fs (Nd n True k Lf Lf))" "pinvc fs False" "top_black fs"
proof -
  have T: "T = plug fs Lf" using plug_insert_path [of k "[]" T] fs by simp
  from assms(1) show "invh (plug fs (Nd n True k Lf Lf))" "pinvc fs False"
    unfolding T by (simp_all add: rbt_def invh_plug invc_plug)
  from assms(1) fs(2) show "top_black fs" unfolding T by (simp add: rbt_def red_plug)
qed

lemma sorted_insert_entries:
  assumes "sorted (map snd xs)"
  shows "sorted (map snd (filter (\<lambda>e. snd e \<le> k) xs @ (n, k) # filter (\<lambda>e. (k::64 word) < snd e) xs))"
  using assms by (auto simp: sorted_append sorted_map sorted_wrt_filter intro: order_trans less_imp_le)

lemma insert_rbtree_holds:
  assumes holds: "rbtree_holds h tree T" and n: "deref h n = Some nn" "n \<notin> set (addrs T)" "n \<noteq> rbt_sentinel tree"
  shows "ensures (rbtree_insert h tree n) (\<lambda>(h', tree'). \<exists>T'. rbtree_holds h' tree' T' \<and>
    rbt_sentinel tree' = rbt_sentinel tree \<and>
    entries T' = filter (\<lambda>e. snd e \<le> rb_key nn) (entries T) @ (n, rb_key nn) #
                 filter (\<lambda>e. rb_key nn < snd e) (entries T) \<and>
    unchanged_outside (insert n (set (addrs T))) h h')"
proof -
  let ?s = "rbt_sentinel tree" and ?rt = "rbt_root tree" and ?k = "rb_key nn"
  obtain pp where foc: "focused h ?s pp ?rt [] T" and bal: "rbt T" and sorted: "sorted (keys T)"
    using holds by (auto simp: rbtree_holds_def)
  show ?thesis
  proof (cases T)
    case Lf
    then have "?rt = ?s" using foc by (simp add: focused_def)
    with Lf foc n show ?thesis
      by (cases nn) (auto simp: rbtree_insert_def Let_def poke_def rbtree_black_def deref_upd rbtree_holds_def rbt_def
          focused_def apart_def dest: deref_not_NULL intro!: exI [of _ "Nd n False ?k Lf Lf"])
  next
    case (Nd a c ka l r)
    let ?fs = "insert_path ?k [] T"
    have rt: "?rt = a" "?rt \<noteq> ?s" using foc Nd by (auto simp: focused_def apart_def)
    obtain d a' c' k' sib fs' where path: "?fs = Fr d a' c' k' sib # fs'"
      and slot: "rbtree_insert_slot h ?s n a = Some (a', d)"
      using insert_slot_path [OF foc [unfolded Nd], of n ?k] n(1) Nd by (auto simp: peek_def)
    have T: "plug ?fs Lf = T" using plug_insert_path [of ?k "[]" T] by simp
    have "focused h ?s pp ?rt ?fs Lf" using foc T by (simp add: focused_whole [of _ _ _ _ ?fs])
    moreover have N: "nodes ?fs Lf = set (addrs T)" by (simp only: nodes_whole T)
    ultimately obtain h1 h2 h3 where
      w: "poke h a' (set_child d n) = Some h1"
        "poke h1 n (\<lambda>m. m\<lparr>rb_parent := a', rb_left := ?s, rb_right := ?s\<rparr>) = Some h2" "rbtree_red h2 n = Some h3"
      and f3: "focused h3 ?s pp ?rt ?fs (Nd n True ?k Lf Lf)" and u3: "unchanged_outside {n, a'} h h3"
      using focused_attach [of h ?s pp ?rt d a' c' k' sib fs' n nn] n path
      by (auto simp: ensures_iff bind_eq_Some_conv)
    let ?T1 = "plug ?fs (Nd n True ?k Lf Lf)"
    have fixup: "ensures (rbtree_insert_fixup ?s n h3 ?rt) (insert_fixed ?s pp h3 ?T1)"
      using insert_fixup_correct [OF f3] insert_path_balance [OF bal refl, where k = ?k] path by simp
    then obtain h4 rt4 T4 where r4: "rbtree_insert_fixup ?s n h3 ?rt = Some (h4, rt4)"
      and f4: "focused h4 ?s pp rt4 [] T4" and e4: "entries T4 = entries ?T1" "invh T4" "invc (blacken T4)"
      and u4: "unchanged_outside (set (addrs ?T1)) h3 h4"
      by (auto simp: insert_fixed_def elim!: ensuresE)
    have "T4 \<noteq> Lf" using e4(1) by (auto simp: entries_plug)
    from blacken_root [OF f4 this] obtain h5 where r5: "rbtree_black h4 rt4 = Some h5"
      and f5: "focused h5 ?s pp rt4 [] (blacken T4)" and u5: "unchanged_outside (set (addrs T4)) h4 h5"
      by (auto elim!: ensuresE)
    have E: "entries T4 = filter (\<lambda>e. snd e \<le> ?k) (entries T) @ (n, ?k) # filter (\<lambda>e. ?k < snd e) (entries T)"
      using e4(1) insert_entries [OF sorted] by simp
    have "set (entries T4) = insert (n, ?k) (set (entries T))" by (auto simp: E not_less)
    then have "set (addrs T4) = insert n (set (addrs T))" by (simp add: addrs_entries)
    moreover have "set (addrs ?T1) = set (addrs T4)" by (simp add: addrs_entries e4(1))
    moreover have "a' \<in> set (addrs T)" using N path by (auto simp: nodes_def)
    ultimately have "unchanged_outside (insert n (set (addrs T))) h h5"
      using u3 u4 u5 by (auto simp: unchanged_outside_def)
    moreover have "sorted (keys T4)" unfolding E by (rule sorted_insert_entries [OF sorted])
    then have "rbtree_holds h5 (tree\<lparr>rbt_root := rt4\<rparr>) (blacken T4)"
      using f5 rbt_blacken [OF e4(3,2)] by (auto simp: rbtree_holds_def)
    ultimately show ?thesis
      using rt E by (auto simp: rbtree_insert_def Let_def slot w r4 r5 intro!: exI [of _ "blacken T4"])
  qed
qed

end
