(* ===== verification/Rbtree_Delete_Fixup.thy ===== *)
theory Rbtree_Delete_Fixup
  imports Rbtree_Insert
begin

text \<open>
  The repair loop of \<open>rbtree_delete\<close>: one turn on a focused tree, in each of its four cases on either side, and the loop
  by induction on the length of the path.
\<close>

section \<open>One turn of the loop\<close>

text \<open>The rest of a turn, once the sibling \<open>w\<close> is black; \<open>temp\<close> is on side \<open>d\<close> of its parent.\<close>

primrec delete_tail ::
  "side \<Rightarrow> addr \<Rightarrow> addr \<Rightarrow> addr \<Rightarrow> rbheap \<Rightarrow> addr \<Rightarrow> (addr \<times> rbheap \<times> addr) option" where
  "delete_tail SLeft sentinel temp = (\<lambda>w h root. do {
     wl \<leftarrow> peek rb_left h w;
     bl \<leftarrow> rbtree_is_black h wl;
     both \<leftarrow> (if bl then do { wr \<leftarrow> peek rb_right h w; rbtree_is_black h wr } else Some False);
     if both then do {
       h \<leftarrow> rbtree_red h w;
       p \<leftarrow> peek rb_parent h temp;
       Some (p, h, root)
     } else do {
       wr \<leftarrow> peek rb_right h w;
       br \<leftarrow> rbtree_is_black h wr;
       (w, h, root) \<leftarrow>
         (if br then do {
            wl \<leftarrow> peek rb_left h w;
            h \<leftarrow> rbtree_black h wl;
            h \<leftarrow> rbtree_red h w;
            (h, root) \<leftarrow> rbtree_right_rotate sentinel w h root;
            p \<leftarrow> peek rb_parent h temp;
            w \<leftarrow> peek rb_right h p;
            Some (w, h, root)
          } else Some (w, h, root));
       p \<leftarrow> peek rb_parent h temp;
       h \<leftarrow> rbtree_copy_color h w p;
       h \<leftarrow> rbtree_black h p;
       wr \<leftarrow> peek rb_right h w;
       h \<leftarrow> rbtree_black h wr;
       (h, root) \<leftarrow> rbtree_left_rotate sentinel p h root;
       Some (root, h, root)
     }
   })"
| "delete_tail SRight sentinel temp = (\<lambda>w h root. do {
     wl \<leftarrow> peek rb_left h w;
     bl \<leftarrow> rbtree_is_black h wl;
     both \<leftarrow> (if bl then do { wr \<leftarrow> peek rb_right h w; rbtree_is_black h wr } else Some False);
     if both then do {
       h \<leftarrow> rbtree_red h w;
       p \<leftarrow> peek rb_parent h temp;
       Some (p, h, root)
     } else do {
       (w, h, root) \<leftarrow>
         (if bl then do {
            wr \<leftarrow> peek rb_right h w;
            h \<leftarrow> rbtree_black h wr;
            h \<leftarrow> rbtree_red h w;
            (h, root) \<leftarrow> rbtree_left_rotate sentinel w h root;
            p \<leftarrow> peek rb_parent h temp;
            w \<leftarrow> peek rb_left h p;
            Some (w, h, root)
          } else Some (w, h, root));
       p \<leftarrow> peek rb_parent h temp;
       h \<leftarrow> rbtree_copy_color h w p;
       h \<leftarrow> rbtree_black h p;
       wl \<leftarrow> peek rb_left h w;
       h \<leftarrow> rbtree_black h wl;
       (h, root) \<leftarrow> rbtree_right_rotate sentinel p h root;
       Some (root, h, root)
     }
   })"

lemma rbtree_delete_step_eq:
  "rbtree_delete_step sentinel temp h root = do {
     p \<leftarrow> peek rb_parent h temp;
     pl \<leftarrow> peek rb_left h p;
     let d = (if temp = pl then SLeft else SRight);
     w \<leftarrow> peek (child (opposite d)) h p;
     red \<leftarrow> rbtree_is_red h w;
     (w, h, root) \<leftarrow>
       (if red then do {
          h \<leftarrow> rbtree_black h w;
          h \<leftarrow> rbtree_red h p;
          (h, root) \<leftarrow> rot d sentinel p h root;
          p \<leftarrow> peek rb_parent h temp;
          w \<leftarrow> peek (child (opposite d)) h p;
          Some (w, h, root)
        } else Some (w, h, root));
     delete_tail d sentinel temp w h root
   }"
  unfolding rbtree_delete_step_def
  by (intro Option.bind_cong refl) (simp add: child_fun cong: if_cong)

text \<open>Only the parent pointer tells where \<open>temp\<close> is when it is the sentinel.\<close>

definition sent_par :: "rbheap \<Rightarrow> addr \<Rightarrow> ptree \<Rightarrow> addr \<Rightarrow> bool" where
  "sent_par h s t p \<longleftrightarrow> (t = Lf \<longrightarrow> peek rb_parent h s = Some p)"

lemma sent_par_frame: "sent_par h s t p \<Longrightarrow> unchanged_outside X h h' \<Longrightarrow> s \<notin> X \<Longrightarrow> sent_par h' s t p"
  by (auto simp: sent_par_def unchanged_outside_def peek_def deref_def)

lemma temp_parent:
  "focused h s pp rt (Fr d p c k sib # fs) t \<Longrightarrow> sent_par h s t p \<Longrightarrow> peek rb_parent h (ptr s t) = Some p"
  by (cases t) (auto simp: focused_def peek_def sent_par_def)

lemma sentinel_not_node: "focused h s pp rt fs t \<Longrightarrow> s \<notin> nodes fs t"
  by (simp add: focused_def apart_def nodes_def)

lemma is_black_iff: "rbtree_is_red h p = Some b \<Longrightarrow> rbtree_is_black h p = Some (\<not> b)"
  by (simp add: rbtree_is_black_def)

lemma peek_focus:
  assumes "focused h s pp rt fs (nd d a c k x y)"
  shows "peek (child d) h a = Some (ptr s x)" "peek (child (opposite d)) h a = Some (ptr s y)"
    "peek rb_color h a = Some c" "peek rb_parent h a = Some (par pp fs)"
  using assms by (simp_all add: focused_def peek_def)

lemma focused_children:
  assumes "focused h s pp rt (Fr d p cp kp (nd d w c kw near far) # fs) t"
  shows "focused h s pp rt (Fr (opposite d) p cp kp t # fs) (nd d w c kw near far)"
    "focused h s pp rt (Fr d w c kw far # Fr (opposite d) p cp kp t # fs) near"
    "focused h s pp rt (Fr (opposite d) w c kw near # Fr (opposite d) p cp kp t # fs) far"
  using assms by (simp_all add: focused_up)

text \<open>Both children of the sibling are black: recolour and go up.\<close>

lemma delete_tail_recolor:
  assumes foc: "focused h s pp rt (Fr d p cp kp (nd d w False kw near far) # fs) t"
    and par: "sent_par h s t p" and black: "\<not> red near" "\<not> red far"
  shows "ensures (delete_tail d s (ptr s t) w h rt) (\<lambda>(n', h', rt'). n' = p \<and> rt' = rt \<and>
    focused h' s pp rt fs (nd d p cp kp t (nd d w True kw near far)) \<and>
    unchanged_outside (nodes (Fr d p cp kp (nd d w False kw near far) # fs) t) h h')"
proof -
  note sub = focused_children [OF foc]
  note reads = peek_focus [OF sub(1)] is_red_focus [OF sub(2), THEN is_black_iff]
    is_red_focus [OF sub(3), THEN is_black_iff]
  obtain h1 where h1: "rbtree_red h w = Some h1" and u1: "unchanged_outside {w} h h1"
    and f1: "focused h1 s pp rt (Fr d p cp kp (nd d w True kw near far) # fs) t"
    using color_focused [OF sub(1), of True] by (auto simp: rbtree_red_def focused_up elim!: ensuresE)
  have "s \<noteq> w" using sentinel_not_node [OF foc] by (auto simp: nodes_def)
  with sent_par_frame [OF par u1] have "peek rb_parent h1 (ptr s t) = Some p"
    using temp_parent [OF f1] by simp
  moreover have "unchanged_outside (nodes (Fr d p cp kp (nd d w False kw near far) # fs) t) h h1"
    by (rule unchanged_outside_mono [OF u1]) (simp add: nodes_def)
  ultimately show ?thesis
    using f1 black h1 reads by (cases d) (simp_all add: child_fun focused_up)
qed


text \<open>The last rotation: the far child of the sibling is red.\<close>

definition delete_finish :: "side \<Rightarrow> addr \<Rightarrow> addr \<Rightarrow> addr \<Rightarrow> rbheap \<Rightarrow> addr \<Rightarrow> (rbheap \<times> addr) option" where
  "delete_finish d sentinel temp w h root = do {
     p \<leftarrow> peek rb_parent h temp;
     h \<leftarrow> rbtree_copy_color h w p;
     h \<leftarrow> rbtree_black h p;
     x \<leftarrow> peek (child (opposite d)) h w;
     h \<leftarrow> rbtree_black h x;
     rot d sentinel p h root
   }"

lemma delete_finish_focused:
  assumes foc: "focused h s pp rt (Fr d p cp kp (nd d w c kw near (nd e f True kf f1 f2)) # fs) t"
    and par: "sent_par h s t p"
  shows "ensures (delete_finish d s (ptr s t) w h rt) (\<lambda>(h', rt').
    focused h' s pp rt' fs (nd d w cp kw (nd d p False kp t near) (nd e f False kf f1 f2)) \<and>
    unchanged_outside (nodes (Fr d p cp kp (nd d w c kw near (nd e f True kf f1 f2)) # fs) t) h h')"
    (is "ensures _ (\<lambda>(h', rt'). _ \<and> unchanged_outside ?U h h')")
proof -
  let ?far = "nd e f True kf f1 f2" and ?far' = "nd e f False kf f1 f2"
  note sub = focused_children [OF foc]
  have up: "focused h s pp rt fs (nd d p cp kp t (nd d w c kw near ?far))"
    using foc by (simp add: focused_up)
  obtain h1 where h1: "poke h w (\<lambda>n. n\<lparr>rb_color := cp\<rparr>) = Some h1" and u1: "unchanged_outside {w} h h1"
    and f1: "focused h1 s pp rt fs (nd d p cp kp t (nd d w cp kw near ?far))"
    using color_focused [OF sub(1), of cp] by (auto simp: focused_up elim!: ensuresE)
  obtain h2 where h2: "poke h1 p (\<lambda>n. n\<lparr>rb_color := False\<rparr>) = Some h2" and u2: "unchanged_outside {p} h1 h2"
    and f2: "focused h2 s pp rt fs (nd d p False kp t (nd d w cp kw near ?far))"
    using color_focused [OF f1, of False] by (auto elim!: ensuresE)
  have f2': "focused h2 s pp rt (Fr (opposite d) w cp kw near # Fr (opposite d) p False kp t # fs) (nd e f True kf f1 f2)"
    using f2 by (simp add: focused_up)
  have x: "peek (child (opposite d)) h2 w = Some f"
    using peek_focus(2) [of h2 s pp rt "Fr (opposite d) p False kp t # fs" d w cp kw near ?far] f2
    by (simp add: focused_up)
  obtain h3 where h3: "poke h2 f (\<lambda>n. n\<lparr>rb_color := False\<rparr>) = Some h3" and u3: "unchanged_outside {f} h2 h3"
    and f3: "focused h3 s pp rt fs (nd (opposite d) p False kp (nd (opposite d) w cp kw ?far' near) t)"
    using color_focused [OF f2', of False] by (auto simp: focused_up elim!: ensuresE)
  obtain h4 rt4 where h4: "rot d s p h3 rt = Some (h4, rt4)"
    and u4: "unchanged_outside (set (paddrs fs) \<union> {p, w} \<union> set (addrs near)) h3 h4"
    and f4: "focused h4 s pp rt4 fs (nd d w cp kw (nd d p False kp t near) ?far')"
    using rotate_focused [OF f3] by (auto elim!: ensuresE)
  have "unchanged_outside ?U h h4"
    using u1 u2 u3 u4 by (simp add: unchanged_outside_def nodes_def)
  then show ?thesis
    using temp_parent [OF foc par] peek_focus(3) [OF up] x f4
    by (simp add: delete_finish_def rbtree_copy_color_def rbtree_black_def h1 h2 h3 h4)
qed

lemma delete_tail_far:
  assumes foc: "focused h s pp rt (Fr d p cp kp (nd d w c kw near far) # fs) t" and far: "red far"
  shows "delete_tail d s (ptr s t) w h rt = Option.bind (delete_finish d s (ptr s t) w h rt) (\<lambda>(h, rt). Some (rt, h, rt))"
proof -
  note sub = focused_children [OF foc]
  note reads = peek_focus [OF sub(1)] is_red_focus [OF sub(2), THEN is_black_iff]
    is_red_focus [OF sub(3), THEN is_black_iff]
  from reads far show ?thesis
    by (cases d) (simp_all add: child_fun delete_finish_def Option.bind_assoc)
qed

text \<open>The near child of the sibling is red: rotate it up first.\<close>

lemma delete_tail_near:
  assumes foc: "focused h s pp rt (Fr d p cp kp (nd d w c kw (nd d m True km x y) far) # fs) t"
    and par: "sent_par h s t p" and far: "\<not> red far"
  shows "ensures (delete_tail d s (ptr s t) w h rt) (\<lambda>(n', h', rt'). n' = rt' \<and>
    focused h' s pp rt' fs (nd d m cp km (nd d p False kp t x) (nd d w False kw y far)) \<and>
    unchanged_outside (nodes (Fr d p cp kp (nd d w c kw (nd d m True km x y) far) # fs) t) h h')"
    (is "ensures _ (\<lambda>(n', h', rt'). _ \<and> _ \<and> unchanged_outside ?U h h')")
proof -
  note sub = focused_children [OF foc]
  note reads = peek_focus [OF sub(1)] is_red_focus [OF sub(2), THEN is_black_iff]
    is_red_focus [OF sub(3), THEN is_black_iff]
  obtain h1 where h1: "poke h m (\<lambda>n. n\<lparr>rb_color := False\<rparr>) = Some h1" and u1: "unchanged_outside {m} h h1"
    and f1: "focused h1 s pp rt (Fr (opposite d) p cp kp t # fs) (nd d w c kw (nd d m False km x y) far)"
    using color_focused [OF sub(2), of False] by (auto simp: focused_up elim!: ensuresE)
  obtain h2 where h2: "poke h1 w (\<lambda>n. n\<lparr>rb_color := True\<rparr>) = Some h2" and u2: "unchanged_outside {w} h1 h2"
    and f2: "focused h2 s pp rt (Fr (opposite d) p cp kp t # fs)
      (nd (opposite (opposite d)) w True kw (nd (opposite (opposite d)) m False km x y) far)"
    using color_focused [OF f1, of True] by (auto elim!: ensuresE)
  obtain h3 rt3 where h3: "rot (opposite d) s w h2 rt = Some (h3, rt3)"
    and u3: "unchanged_outside (set (paddrs (Fr (opposite d) p cp kp t # fs)) \<union> {w, m} \<union> set (addrs y)) h2 h3"
    and "focused h3 s pp rt3 (Fr (opposite d) p cp kp t # fs) (nd (opposite d) m False km (nd (opposite d) w True kw far y) x)"
    using rotate_focused [OF f2] by (auto elim!: ensuresE)
  then have f3: "focused h3 s pp rt3 (Fr d p cp kp (nd d m False km x (nd d w True kw y far)) # fs) t"
    by (simp add: focused_up)
  have u: "unchanged_outside ?U h h3"
    using u1 u2 u3 by (simp add: unchanged_outside_def nodes_def)
  have par3: "sent_par h3 s t p"
    by (rule sent_par_frame [OF par u sentinel_not_node [OF foc]])
  have p3: "peek rb_parent h3 (ptr s t) = Some p" "peek (child (opposite d)) h3 p = Some m"
    using temp_parent [OF f3 par3] f3 by (simp_all add: focused_def peek_def)
  have run: "delete_tail d s (ptr s t) w h rt =
      Option.bind (delete_finish d s (ptr s t) m h3 rt3) (\<lambda>(h, rt). Some (rt, h, rt))"
    using reads far h1 h2 h3 p3
    by (cases d) (simp_all add: child_fun delete_finish_def rbtree_black_def rbtree_red_def Option.bind_assoc)
  have "nodes (Fr d p cp kp (nd d m False km x (nd d w True kw y far)) # fs) t = ?U"
    by (auto simp: nodes_def)
  with delete_finish_focused [OF f3 par3] u show ?thesis
    by (auto simp: run ensures_bind elim!: ensures_mono intro: unchanged_outside_trans)
qed

section \<open>The deletion loop\<close>

definition delete_fixed :: "addr \<Rightarrow> addr \<Rightarrow> rbheap \<Rightarrow> ptree \<Rightarrow> addr \<times> rbheap \<times> addr \<Rightarrow> bool" where
  "delete_fixed s pp h T r \<longleftrightarrow> (case r of (n', h', rt') \<Rightarrow>
     (\<exists>fs' t'. focused h' s pp rt' fs' t' \<and> n' = ptr s t' \<and> entries (plug fs' t') = entries T \<and>
       rbt (plug fs' (blacken t')) \<and> unchanged_outside (set (addrs T)) h h'))"

lemma delete_fixedI:
  assumes "focused h' s pp rt' fs' t'" "n' = ptr s t'" "entries (plug fs' t') = entries T"
    "rbt (plug fs' (blacken t'))" "unchanged_outside (set (addrs T)) h h'"
  shows "delete_fixed s pp h T (n', h', rt')"
  using assms unfolding delete_fixed_def by blast

lemma delete_fixed_trans:
  assumes "delete_fixed s pp h1 T1 r" "entries T1 = entries T" "unchanged_outside (set (addrs T)) h h1"
  shows "delete_fixed s pp h T r"
proof -
  have "set (addrs T1) = set (addrs T)" using assms(2) by (simp add: addrs_entries)
  with assms show ?thesis
    unfolding delete_fixed_def by (auto intro: unchanged_outside_trans)
qed

lemma focus_is_root:
  assumes "focused h s pp rt fs t"
  shows "ptr s t = rt \<longleftrightarrow> fs = []"
  using assms root_of_in [of fs "ptr s t"] ptr_in [of s t]
  by (cases fs) (auto simp: focused_def apart_def)

lemma delete_fixup_exit:
  assumes "focused h s pp rt fs t" "fs = [] \<or> red t"
  shows "rbtree_delete_fixup s (ptr s t) h rt = Some (ptr s t, h, rt)"
  using assms focus_is_root [OF assms(1)] is_red_focus [OF assms(1), THEN is_black_iff]
  by (subst rbtree_delete_fixup.simps) auto

lemma delete_fixup_step:
  assumes "focused h s pp rt (f # fs) t" "\<not> red t"
  shows "rbtree_delete_fixup s (ptr s t) h rt =
    Option.bind (rbtree_delete_step s (ptr s t) h rt) (\<lambda>(n, h, rt). rbtree_delete_fixup s n h rt)"
  using assms focus_is_root [OF assms(1)] is_red_focus [OF assms(1), THEN is_black_iff]
  by (subst rbtree_delete_fixup.simps) auto


text \<open>What a path asks of a focus that lacks one black node.\<close>

definition short :: "frame list \<Rightarrow> ptree \<Rightarrow> bool" where
  "short fs t \<longleftrightarrow> invc (blacken t) \<and> invh t \<and> pinvc fs False \<and> pinvh fs (Suc (bheight t)) \<and> top_black fs"

lemma top_black_tl: "top_black (f # fs) \<Longrightarrow> top_black fs"
  by (cases fs rule: top_black.cases) auto

lemma top_black_Cons: "top_black (Fr d a c k sib # fs) \<longleftrightarrow> (if fs = [] then \<not> c else top_black fs)"
  by (cases fs) simp_all

lemma black_sibling:
  assumes "short (Fr d p cp kp sib # fs) t" "\<not> red sib"
  obtains w kw near far where "sib = nd d w False kw near far"
  using assms by (cases sib; cases d) (auto simp: short_def)

lemma rbt_plug: "rbt (plug fs t) \<longleftrightarrow> invc t \<and> invh t \<and> pinvc fs (red t) \<and> pinvh fs (bheight t) \<and>
    (if fs = [] then \<not> red t else top_black fs)"
  by (auto simp: rbt_def invc_plug invh_plug red_plug)

lemma entries_cong_plug:
  "entries (plug fs x) = entries (plug fs y) \<longleftrightarrow> entries x = entries y"
  by (auto simp: entries_plug)

lemma delete_tail_correct:
  assumes foc: "focused h s pp rt (Fr d p cp kp sib # fs) t" and par: "sent_par h s t p"
    and black: "\<not> red sib" "\<not> red t" and bal: "short (Fr d p cp kp sib # fs) t"
  shows "ensures (delete_tail d s (ptr s t) (ptr s sib) h rt) (\<lambda>(n', h', rt').
    unchanged_outside (nodes (Fr d p cp kp sib # fs) t) h h' \<and>
    ((\<exists>t2. n' = ptr s t2 \<and> t2 \<noteq> Lf \<and> focused h' s pp rt' fs t2 \<and> red t2 = cp \<and> short fs t2 \<and>
        entries t2 = entries (nd d p cp kp t sib)) \<or>
     (\<exists>t2. n' = rt' \<and> focused h' s pp rt' fs t2 \<and> rbt (plug fs t2) \<and>
        entries t2 = entries (nd d p cp kp t sib))))"
proof -
  obtain w kw near far where sib: "sib = nd d w False kw near far"
    using black_sibling [OF bal black(1)] .
  have bal': "invc t" "invc near" "invc far" "invh t" "invh near" "invh far"
    "bheight near = bheight t" "bheight far = bheight t"
    "pinvc fs cp" "pinvh fs (if cp then Suc (bheight t) else Suc (Suc (bheight t)))" "top_black fs" "fs = [] \<longrightarrow> \<not> cp"
    using bal black(2) top_black_tl unfolding sib
    by (auto simp: short_def bheight_nd split: if_splits elim!: invc_blacken) (cases t; auto)+
  consider (recolor) "\<not> red near" "\<not> red far" | (far) "red far" | (near) "red near" "\<not> red far" by blast
  then show ?thesis
  proof cases
    case recolor
    let ?t2 = "nd d p cp kp t (nd d w True kw near far)"
    have "short fs ?t2" "entries ?t2 = entries (nd d p cp kp t sib)"
      using bal' recolor black by (auto simp: sib short_def bheight_nd entries_nd intro: pinvc_black)
    moreover have "?t2 \<noteq> Lf" by (cases d) simp_all
    ultimately show ?thesis
      using delete_tail_recolor [OF foc [unfolded sib] par recolor]
      unfolding sib ptr_nd by (elim ensures_mono) (auto intro!: exI [of _ ?t2])
  next
    case far
    then obtain f kf f1 f2 where f: "far = nd SLeft f True kf f1 f2" by (cases far) auto
    let ?t2 = "nd d w cp kw (nd d p False kp t near) (nd SLeft f False kf f1 f2)"
    have "rbt (plug fs ?t2)" "entries ?t2 = entries (nd d p cp kp t sib)"
      using bal' by (auto simp: sib f rbt_plug bheight_nd entries_nd joined_assoc)
    then show ?thesis
      using delete_finish_focused [OF foc [unfolded sib f] par]
      unfolding sib ptr_nd delete_tail_far [OF foc [unfolded sib] far] f
      by (auto simp: ensures_bind elim!: ensures_mono)
  next
    case near
    then obtain m km x y where m: "near = nd d m True km x y" by (cases near; cases d) auto
    let ?t2 = "nd d m cp km (nd d p False kp t x) (nd d w False kw y far)"
    have "rbt (plug fs ?t2)" "entries ?t2 = entries (nd d p cp kp t sib)"
      using bal' near by (auto simp: sib m rbt_plug bheight_nd entries_nd joined_assoc)
    then show ?thesis
      using delete_tail_near [OF foc [unfolded sib m] par near(2)]
      unfolding sib ptr_nd m by (elim ensures_mono) auto
  qed
qed


lemma rbt_Lf [simp]: "rbt Lf"
  by (simp add: rbt_def)

lemma red_sideE:
  assumes "red t"
  obtains a k x y where "t = nd d a True k x y"
proof (cases t)
  case (Nd a c k l r)
  with assms have "t = nd d a True k (if d = SLeft then l else r) (if d = SLeft then r else l)"
    by (cases d) simp_all
  then show thesis by (rule that)
qed (use assms in simp)

lemma rbt_blacken_id: "rbt t \<Longrightarrow> blacken t = t"
  by (cases t) (auto simp: rbt_def)

lemma short_exit:
  assumes foc: "focused h' s pp rt' fs t" and "short fs t" "fs = [] \<or> red t"
    and "entries (plug fs t) = entries T" "unchanged_outside (set (addrs T)) h h'"
  shows "ensures (rbtree_delete_fixup s (ptr s t) h' rt') (delete_fixed s pp h T)"
proof -
  have "rbt (plug fs (blacken t))"
    using assms(2,3) by (cases t) (auto simp: rbt_plug short_def intro: pinvc_black)
  with assms show ?thesis
    by (simp add: delete_fixup_exit [OF foc assms(3)] delete_fixedI [OF foc])
qed

lemma root_exit:
  assumes foc: "focused h' s pp rt' fs t" and "rbt (plug fs t)"
    and "entries (plug fs t) = entries T" "unchanged_outside (set (addrs T)) h h'"
  shows "ensures (rbtree_delete_fixup s rt' h' rt') (delete_fixed s pp h T)"
proof -
  have whole: "focused h' s pp rt' [] (plug fs t)" using foc by (simp add: focused_whole [of _ _ _ _ fs])
  then have "rbtree_delete_fixup s rt' h' rt' = Some (rt', h', rt')"
    by (subst rbtree_delete_fixup.simps) simp
  moreover have "rt' = ptr s (plug fs t)" using whole by (simp add: focused_def)
  then have "delete_fixed s pp h T (rt', h', rt')"
    using assms by (intro delete_fixedI [OF whole]) (simp_all add: rbt_blacken_id)
  ultimately show ?thesis by simp
qed

lemma delete_step_black:
  assumes foc: "focused h s pp rt (Fr d p cp kp sib # fs) t" and par: "sent_par h s t p" and "\<not> red sib"
    and "sib \<noteq> Lf"
  shows "rbtree_delete_step s (ptr s t) h rt = delete_tail d s (ptr s t) (ptr s sib) h rt"
proof -
  have up: "focused h s pp rt fs (nd d p cp kp t sib)" using foc by (simp add: focused_up)
  have "ptr s t \<noteq> ptr s sib"
    using foc assms(4) ptr_in [of s t] ptr_in [of s sib] by (cases sib) (auto simp: focused_def apart_def)
  then show ?thesis
    using temp_parent [OF foc par] peek_focus [OF up] is_red_sib [OF foc] assms(3)
    by (cases d) (simp_all add: rbtree_delete_step_eq child_fun Let_def)
qed

lemma delete_step_red:
  assumes foc: "focused h s pp rt (Fr d p cp kp (nd d w True kw near far) # fs) t" and par: "sent_par h s t p"
    and near: "near \<noteq> Lf"
  shows "ensures (do { h \<leftarrow> rbtree_black h w; h \<leftarrow> rbtree_red h p; rot d s p h rt }) (\<lambda>(h', rt').
    rbtree_delete_step s (ptr s t) h rt = delete_tail d s (ptr s t) (ptr s near) h' rt' \<and>
    focused h' s pp rt' (Fr d p True kp near # Fr d w False kw far # fs) t \<and>
    unchanged_outside (nodes (Fr d p cp kp (nd d w True kw near far) # fs) t) h h')"
    (is "ensures _ (\<lambda>(h', rt'). _ \<and> _ \<and> unchanged_outside ?U h h')")
proof -
  let ?sib = "nd d w True kw near far"
  note sub = focused_children [OF foc]
  have up: "focused h s pp rt fs (nd d p cp kp t ?sib)" using foc by (simp add: focused_up)
  obtain h1 where h1: "poke h w (\<lambda>n. n\<lparr>rb_color := False\<rparr>) = Some h1" and u1: "unchanged_outside {w} h h1"
    and f1: "focused h1 s pp rt fs (nd d p cp kp t (nd d w False kw near far))"
    using color_focused [OF sub(1), of False] by (auto simp: focused_up elim!: ensuresE)
  obtain h2 where h2: "poke h1 p (\<lambda>n. n\<lparr>rb_color := True\<rparr>) = Some h2" and u2: "unchanged_outside {p} h1 h2"
    and "focused h2 s pp rt fs (nd d p True kp t (nd d w False kw near far))"
    using color_focused [OF f1, of True] by (auto elim!: ensuresE)
  then have f2: "focused h2 s pp rt fs (nd (opposite d) p True kp (nd (opposite d) w False kw far near) t)"
    by simp
  obtain h3 rt3 where h3: "rot d s p h2 rt = Some (h3, rt3)"
    and u3: "unchanged_outside (set (paddrs fs) \<union> {p, w} \<union> set (addrs near)) h2 h3"
    and "focused h3 s pp rt3 fs (nd d w False kw (nd d p True kp t near) far)"
    using rotate_focused [OF f2] by (auto elim!: ensuresE)
  then have f3: "focused h3 s pp rt3 (Fr d p True kp near # Fr d w False kw far # fs) t"
    by (simp add: focused_up)
  have u: "unchanged_outside ?U h h3"
    using u1 u2 u3 by (simp add: unchanged_outside_def nodes_def)
  have "sent_par h3 s t p" by (rule sent_par_frame [OF par u sentinel_not_node [OF foc]])
  with temp_parent [OF f3] f3 have p3: "peek rb_parent h3 (ptr s t) = Some p"
    "peek (child (opposite d)) h3 p = Some (ptr s near)"
    by (simp_all add: focused_def peek_def)
  have "ptr s t \<noteq> w" using foc ptr_in [of s t] by (auto simp: focused_def apart_def)
  then have "rbtree_delete_step s (ptr s t) h rt = delete_tail d s (ptr s t) (ptr s near) h3 rt3"
    using temp_parent [OF foc par] peek_focus [OF up] is_red_sib [OF foc] p3 h1 h2 h3
    by (cases d) (simp_all add: rbtree_delete_step_eq child_fun Let_def rbtree_black_def rbtree_red_def)
  with h1 h2 h3 f3 u show ?thesis by (simp add: rbtree_black_def rbtree_red_def)
qed

lemma delete_fixup_correct:
  assumes "focused h s pp rt fs t" "fs \<noteq> [] \<Longrightarrow> sent_par h s t (par pp fs)" "short fs t"
  shows "ensures (rbtree_delete_fixup s (ptr s t) h rt) (delete_fixed s pp h (plug fs t))"
  using assms
proof (induction "length fs" arbitrary: h rt fs t rule: less_induct)
  case (less fs)
  note foc = less.prems(1) and bal = less.prems(3)
  show ?case
  proof (cases "fs = [] \<or> red t")
    case True
    then show ?thesis by (rule short_exit [OF foc bal]) simp_all
  next
    case False
    then obtain d p cp kp sib fs' where fs: "fs = Fr d p cp kp sib # fs'" and black: "\<not> red t"
      by (metis frame.exhaust neq_Nil_conv)
    have par: "sent_par h s t p" using less.prems(2) fs by simp
    note step = delete_fixup_step [OF foc [unfolded fs] black]
    have whole: "unchanged_outside (nodes fs t) h h' = unchanged_outside (set (addrs (plug fs t))) h h'" for h'
      by (simp only: nodes_whole)
    show ?thesis
    proof (cases "red sib")
      case sib: False
      have "sib \<noteq> Lf" using bal by (auto simp: fs short_def)
      note run = delete_step_black [OF foc [unfolded fs] par sib this]
      have E: "entries (plug fs' t2) = entries (plug fs t)" if "entries t2 = entries (nd d p cp kp t sib)" for t2
        using that by (simp add: fs entries_cong_plug)
      have IH: "ensures (rbtree_delete_fixup s (ptr s t2) h1 rt1) (delete_fixed s pp h (plug fs t))"
        if "t2 \<noteq> Lf" "focused h1 s pp rt1 fs' t2" "short fs' t2" "entries t2 = entries (nd d p cp kp t sib)"
          "unchanged_outside (set (addrs (plug fs t))) h h1" for t2 h1 rt1
        using less.hyps [of fs' h1 rt1 t2] that E [OF that(4)]
        by (auto simp: fs sent_par_def elim!: ensures_mono delete_fixed_trans)
      show ?thesis
        unfolding step run ensures_bind
        by (rule ensures_mono [OF delete_tail_correct [OF foc [unfolded fs] par sib black bal [unfolded fs],
              folded fs, unfolded whole]])
          (auto intro!: IH root_exit E)
    next
      case True
      then obtain w kw near far where sib: "sib = nd d w True kw near far" by (rule red_sideE)
      have cp: "\<not> cp" and near: "\<not> red near" "near \<noteq> Lf" using bal black by (auto simp: fs sib short_def bheight_nd)
      let ?fs1 = "Fr d w False kw far # fs'"
      obtain h1 rt1 where
        r1: "rbtree_delete_step s (ptr s t) h rt = delete_tail d s (ptr s t) (ptr s near) h1 rt1"
        and f1: "focused h1 s pp rt1 (Fr d p True kp near # ?fs1) t"
        and u1: "unchanged_outside (nodes fs t) h h1"
        using delete_step_red [OF foc [unfolded fs sib] par near(2)]
        unfolding fs sib by (auto simp: ensures_bind elim!: ensuresE)
      have par1: "sent_par h1 s t p" by (rule sent_par_frame [OF par u1 sentinel_not_node [OF foc]])
      have bal1: "short (Fr d p True kp near # ?fs1) t"
        using bal cp near by (auto simp: fs sib short_def bheight_nd top_black_Cons)
      have E: "entries (plug fs' (nd d w False kw t2 far)) = entries (plug fs t)"
        if "entries t2 = entries (nd d p True kp t near)" for t2
        using that by (simp add: fs sib entries_cong_plug entries_nd joined_assoc)
      have W: "unchanged_outside (set (addrs (plug fs t))) h h2" if "unchanged_outside (nodes fs t) h1 h2" for h2
        using unchanged_outside_trans [OF u1 that] by (simp only: whole)
      have "nodes (Fr d p True kp near # ?fs1) t = nodes fs t" by (auto simp: fs sib nodes_def)
      note tail = delete_tail_correct [OF f1 par1 near(1) black bal1, unfolded this]
      show ?thesis
        unfolding step r1 ensures_bind
        by (rule ensures_mono [OF tail])
          (auto intro!: short_exit root_exit E W)
    qed
  qed
qed

end
