(* ===== verification/Rbtree_Delete.thy ===== *)
theory Rbtree_Delete
  imports Rbtree_Delete_Fixup
begin

text \<open>
  \<open>rbtree_delete\<close> is correct: from a heap that holds a balanced search tree with the node \<open>n\<close> in it,
  it returns, and the heap then holds a balanced search tree with exactly the other entries in the
  same order (\<open>delete_rbtree_holds\<close>). The proof follows the code: \<open>node_min_path\<close> finds the
  successor, \<open>unlink_child\<close> and \<open>reparent\<close> take a node out of its place,
  \<open>delete_replace_focused\<close> puts the successor in the place of the deleted node, and
  \<open>delete_settle_correct\<close> ends with the repair of \<open>Rbtree_Delete_Fixup\<close>.
\<close>

section \<open>Minimum and maximum\<close>

lemma node_min_path:
  assumes "focused h s pp rt fs t" "t \<noteq> Lf"
  shows "\<exists>ls m c k y. t = plug ls (Nd m c k Lf y) \<and> before ls = [] \<and> rbtree_node_min h (ptr s t) s = Some m"
  using assms
proof (induction t arbitrary: fs)
  case (Nd a c k l r)
  have l: "peek rb_left h a = Some (ptr s l)" using Nd.prems by (simp add: focused_def peek_def)
  show ?case
  proof (cases "l = Lf")
    case True
    with l have "rbtree_node_min h a s = Some a" by (subst rbtree_node_min.simps) simp
    with True show ?thesis by (intro exI [of _ "[]"]) simp
  next
    case False
    have "focused h s pp rt (Fr SLeft a c k r # fs) l" using Nd.prems by (simp add: focused_up)
    from Nd.IH(1) [OF this False] obtain ls m c' k' y where
      IH: "l = plug ls (Nd m c' k' Lf y)" "before ls = []" "rbtree_node_min h (ptr s l) s = Some m" by blast
    have "ptr s l \<noteq> s" using Nd.prems False by (cases l) (auto simp: focused_def apart_def)
    with l IH(3) have "rbtree_node_min h a s = Some m" by (subst rbtree_node_min.simps) simp
    moreover have "before (ls @ [Fr SLeft a c k r]) = []" using IH(2) by (induction ls rule: before.induct) auto
    ultimately show ?thesis using IH(1) by (intro exI [of _ "ls @ [Fr SLeft a c k r]"]) (auto simp: plug_append)
  qed
qed simp

lemma node_max_path:
  assumes "focused h s pp rt fs t" "t \<noteq> Lf"
  shows "\<exists>ls m c k y. t = plug ls (Nd m c k y Lf) \<and> after ls = [] \<and> rbtree_node_max h (ptr s t) s = Some m"
  using assms
proof (induction t arbitrary: fs)
  case (Nd a c k l r)
  have r: "peek rb_right h a = Some (ptr s r)" using Nd.prems by (simp add: focused_def peek_def)
  show ?case
  proof (cases "r = Lf")
    case True
    with r have "rbtree_node_max h a s = Some a" by (subst rbtree_node_max.simps) simp
    with True show ?thesis by (intro exI [of _ "[]"]) simp
  next
    case False
    have "focused h s pp rt (Fr SRight a c k l # fs) r" using Nd.prems by (simp add: focused_up)
    from Nd.IH(2) [OF this False] obtain ls m c' k' y where
      IH: "r = plug ls (Nd m c' k' y Lf)" "after ls = []" "rbtree_node_max h (ptr s r) s = Some m" by blast
    have "ptr s r \<noteq> s" using Nd.prems False by (cases r) (auto simp: focused_def apart_def)
    with r IH(3) have "rbtree_node_max h a s = Some m" by (subst rbtree_node_max.simps) simp
    moreover have "after (ls @ [Fr SRight a c k l]) = []" using IH(2) by (induction ls rule: after.induct) auto
    ultimately show ?thesis using IH(1) by (intro exI [of _ "ls @ [Fr SRight a c k l]"]) (auto simp: plug_append)
  qed
qed simp

section \<open>Taking a node out of its place\<close>

lemma unlink_child:
  assumes foc: "focused h s pp rt fs (nd d n c k x Lf)" and fs: "fs \<noteq> []"
  shows "ensures (do {
      npl \<leftarrow> peek rb_left h (par pp fs);
      if n = npl then poke h (par pp fs) (\<lambda>m. m\<lparr>rb_left := ptr s x\<rparr>)
      else poke h (par pp fs) (\<lambda>m. m\<lparr>rb_right := ptr s x\<rparr>) }) (\<lambda>h'.
    prep h' s pp fs (ptr s x) \<and> rep h' s n x \<and> sentinel_ok h' s \<and> unchanged_outside {par pp fs} h h')"
proof -
  let ?p = "par pp fs"
  have p: "?p \<in> set (paddrs fs)" using fs by (rule par_in)
  have "apart s fs (nd d n c k x Lf)" using foc by (simp add: focused_def)
  with p have ap: "?p \<notin> set (addrs x)" "?p \<noteq> n" "?p \<noteq> s" "n \<notin> set (paddrs fs)" "n \<noteq> s" "distinct (paddrs fs)"
    by (auto simp: apart_def)
  obtain np where np: "deref h ?p = Some np" using foc fs prep_par [of h s pp fs n] by (auto simp: focused_def)
  have "set_child SRight (ptr s x) = (\<lambda>m. m\<lparr>rb_right := ptr s x\<rparr>)"
    "set_child SLeft (ptr s x) = (\<lambda>m. m\<lparr>rb_left := ptr s x\<rparr>)" by (rule ext; simp)+
  moreover have "prep h s pp fs n" using foc by (simp add: focused_def)
  note prep_child [OF this fs ap(4,5) np ap(6), of SLeft "ptr s x"]
  then have "prep (h(?p \<mapsto> set_child (if rb_left np = n then SLeft else SRight) (ptr s x) np)) s pp fs (ptr s x)"
    by (cases "rb_left np = n") simp_all
  ultimately show ?thesis
    using foc np ap by (auto simp: focused_def peek_def poke_def)
qed

lemma reparent:
  assumes "rep h s p x" "sentinel_ok h s" "s \<notin> set (addrs x)" "distinct (addrs x)"
  shows "ensures (poke h (ptr s x) (\<lambda>m. m\<lparr>rb_parent := q\<rparr>)) (\<lambda>h'. rep h' s q x \<and> sentinel_ok h' s \<and>
    sent_par h' s x q \<and> unchanged_outside {ptr s x} h h')"
proof (cases x)
  case Lf
  with assms show ?thesis
    by (auto simp: sentinel_ok_def poke_def sent_par_def peek_def deref_upd dest: deref_not_NULL)
next
  case (Nd a c k l r)
  then have "ptr s x \<noteq> s" using assms by auto
  moreover obtain n where "deref h (ptr s x) = Some n" using assms Nd by auto
  ultimately show ?thesis
    using rep_reparent [OF assms(1,3,4), of n q] assms Nd
    by (auto simp: poke_def sent_par_def)
qed

lemma rep_reparent_cond:
  assumes "rep h s p t" "s \<notin> set (addrs t)" "distinct (addrs t)"
    and "ptr s t \<noteq> s \<Longrightarrow> deref h (ptr s t) = Some n"
  shows "rep (if ptr s t = s then h else h(ptr s t \<mapsto> n\<lparr>rb_parent := p'\<rparr>)) s p' t"
proof (cases t)
  case (Nd a c k l r)
  with assms(2) have "ptr s t \<noteq> s" by auto
  with assms show ?thesis by (intro rep_reparent) simp_all
qed simp

definition replace_tail :: "addr \<Rightarrow> addr \<Rightarrow> addr \<Rightarrow> rbheap \<Rightarrow> addr \<Rightarrow> (rbheap \<times> addr) option" where
  "replace_tail sentinel node subst h root = do {
     l \<leftarrow> peek rb_left h node;
     h \<leftarrow> poke h subst (\<lambda>n. n\<lparr>rb_left := l\<rparr>);
     r \<leftarrow> peek rb_right h node;
     h \<leftarrow> poke h subst (\<lambda>n. n\<lparr>rb_right := r\<rparr>);
     np \<leftarrow> peek rb_parent h node;
     h \<leftarrow> poke h subst (\<lambda>n. n\<lparr>rb_parent := np\<rparr>);
     h \<leftarrow> rbtree_copy_color h subst node;
     (h, root) \<leftarrow>
       (if node = root then Some (h, subst)
        else do {
          npl \<leftarrow> peek rb_left h np;
          h \<leftarrow> (if node = npl then poke h np (\<lambda>n. n\<lparr>rb_left := subst\<rparr>)
                else poke h np (\<lambda>n. n\<lparr>rb_right := subst\<rparr>));
          Some (h, root)
        });
     sl \<leftarrow> peek rb_left h subst;
     h \<leftarrow> (if sl \<noteq> sentinel then poke h sl (\<lambda>n. n\<lparr>rb_parent := subst\<rparr>) else Some h);
     sr \<leftarrow> peek rb_right h subst;
     h \<leftarrow> (if sr \<noteq> sentinel then poke h sr (\<lambda>n. n\<lparr>rb_parent := subst\<rparr>) else Some h);
     Some (h, root)
   }"

lemma rbtree_delete_replace_eq:
  "rbtree_delete_replace sentinel node subst temp h root = do {
     sp \<leftarrow> peek rb_parent h subst;
     h \<leftarrow> poke h temp (\<lambda>n. n\<lparr>rb_parent := if sp = node then subst else sp\<rparr>);
     replace_tail sentinel node subst h root
   }"
  unfolding rbtree_delete_replace_def replace_tail_def
  by (intro Option.bind_cong refl) simp


lemma replace_tail_focused:
  assumes node: "deref h n = Some (cell SLeft (ptr s l) (ptr s r) (par pp fs) k c)"
    and prep: "prep h s pp fs n" and sub: "rep h s ql l" "rep h s qr r"
    and ap: "apart s fs (Nd n c k l r)" and sent: "sentinel_ok h s" and rt: "rt = root_of fs n"
    and m: "deref h m = Some mn" "m \<notin> nodes fs (Nd n c k l r)" "m \<noteq> s"
  shows "ensures (replace_tail s n m h rt) (\<lambda>(h', rt').
    focused h' s pp rt' fs (Nd m c (rb_key mn) l r) \<and>
    unchanged_outside (insert m (nodes fs (Nd n c k l r)) - {n}) h h')"
proof -
  let ?p = "par pp fs"
  let ?m = "cell SLeft (ptr s l) (ptr s r) ?p (rb_key mn) c"
  have nn: "m \<noteq> NULL" "n \<noteq> NULL" using m node by (auto dest: deref_not_NULL)
  have neq: "m \<noteq> n" "n \<noteq> s" "n \<notin> set (paddrs fs)" "distinct (paddrs fs)" "m \<notin> set (paddrs fs)"
    "m \<notin> set (addrs l)" "m \<notin> set (addrs r)" "n \<notin> set (addrs l)" "n \<notin> set (addrs r)"
    "s \<notin> set (addrs l)" "s \<notin> set (addrs r)" "distinct (addrs l)" "distinct (addrs r)"
    "set (addrs l) \<inter> set (addrs r) = {}" "set (addrs l) \<inter> set (paddrs fs) = {}"
    "set (addrs r) \<inter> set (paddrs fs) = {}" "s \<notin> set (paddrs fs)"
    using ap m by (auto simp: apart_def nodes_def)
  have inl: "x \<in> set (addrs l) \<Longrightarrow> x \<notin> set (addrs r) \<and> x \<notin> set (paddrs fs) \<and> x \<noteq> m \<and> x \<noteq> n \<and> x \<noteq> s"
    and inr: "x \<in> set (addrs r) \<Longrightarrow> x \<notin> set (addrs l) \<and> x \<notin> set (paddrs fs) \<and> x \<noteq> m \<and> x \<noteq> n \<and> x \<noteq> s" for x
    using neq by auto
  have root: "n = rt \<longleftrightarrow> fs = []" using root_of_in [of fs n] neq by (auto simp: rt)
  have pin: "fs \<noteq> [] \<Longrightarrow> ?p \<in> set (paddrs fs)" by (rule par_in)
  obtain np where np: "fs \<noteq> [] \<Longrightarrow> deref h ?p = Some np" using prep_par [OF prep] by blast
  define h1 where "h1 = h(m \<mapsto> ?m)"
  define h2 where "h2 = (if fs = [] then h1
    else h1(?p \<mapsto> set_child (if rb_left np = n then SLeft else SRight) m np))"
  have pn: "?p \<noteq> m" "?p \<noteq> n" "?p \<noteq> s" "?p \<notin> set (addrs l)" "?p \<notin> set (addrs r)" if "fs \<noteq> []"
    using pin [OF that] neq by auto
  have p1: "fs \<noteq> [] \<Longrightarrow> deref h1 ?p = Some np" "prep h1 s pp fs n"
    using np pn neq prep by (auto simp: h1_def)
  have prep2: "prep h2 s pp fs m"
    using prep_child [OF p1(2) _ neq(3,2) p1(1) neq(4), of SLeft m] by (cases "fs = []") (auto simp: h2_def)
  have m2: "deref h2 m = Some ?m" using pn neq nn by (auto simp: h2_def h1_def deref_upd)
  have sub2: "rep h2 s ql l" "rep h2 s qr r" "sentinel_ok h2 s"
    using pn neq sub sent m by (auto simp: h2_def h1_def)
  obtain nl nr where nl: "ptr s l \<noteq> s \<Longrightarrow> deref h2 (ptr s l) = Some nl"
    and nr: "ptr s r \<noteq> s \<Longrightarrow> deref h2 (ptr s r) = Some nr"
    using ptr_cell [OF sub2(1)] ptr_cell [OF sub2(2)] by blast
  define h3 where "h3 = (if ptr s l = s then h2 else h2(ptr s l \<mapsto> nl\<lparr>rb_parent := m\<rparr>))"
  define h4 where "h4 = (if ptr s r = s then h3 else h3(ptr s r \<mapsto> nr\<lparr>rb_parent := m\<rparr>))"
  have pl: "ptr s l = s \<or> ptr s l \<in> set (addrs l)" and pr: "ptr s r = s \<or> ptr s r \<in> set (addrs r)"
    by (rule ptr_in)+
  have ql: "ptr s l \<notin> set (addrs r)" "ptr s l \<notin> set (paddrs fs)" "ptr s l \<noteq> m" "ptr s l \<noteq> n" "ptr s l \<noteq> ptr s r"
    if "ptr s l \<noteq> s" using inl [of "ptr s l"] inr [of "ptr s r"] that pl pr by auto
  have qr: "ptr s r \<notin> set (addrs l)" "ptr s r \<notin> set (paddrs fs)" "ptr s r \<noteq> m" "ptr s r \<noteq> n"
    if "ptr s r \<noteq> s" using inr [of "ptr s r"] that pr by auto
  have r3: "rep h3 s m l"
    unfolding h3_def using rep_reparent_cond [OF sub2(1) neq(10,12) nl] .
  have h3r: "rep h3 s qr r" "ptr s r \<noteq> s \<Longrightarrow> deref h3 (ptr s r) = Some nr"
    using sub2 ql qr nr by (auto simp: h3_def)
  have r4: "rep h4 s m r"
    unfolding h4_def using rep_reparent_cond [OF h3r(1) neq(11,13) h3r(2)] .
  have l4: "rep h4 s m l" "prep h4 s pp fs m" "deref h4 m = Some ?m" "sentinel_ok h4 s"
    using r3 prep2 m2 sub2 ql qr by (auto simp: h3_def h4_def)
  have "apart s fs (Nd m c (rb_key mn) l r)" using ap m by (auto simp: apart_def nodes_def)
  then have foc: "focused h4 s pp (if n = rt then m else rt) fs (Nd m c (rb_key mn) l r)"
    using l4 r4 root by (cases fs) (auto simp: focused_def rt)
  let ?X = "insert m (nodes fs (Nd n c k l r)) - {n}"
  have "m \<in> ?X" using neq(1) by simp
  moreover have "?p \<in> ?X" if "fs \<noteq> []" using pin [OF that] pn [OF that] by (simp add: nodes_def)
  moreover have "ptr s l \<in> ?X" if "ptr s l \<noteq> s" using ql [OF that] that pl by (simp add: nodes_def)
  moreover have "ptr s r \<in> ?X" if "ptr s r \<noteq> s" using qr [OF that] that pr by (simp add: nodes_def)
  ultimately have "unchanged_outside ?X h h4"
    unfolding h4_def h3_def h2_def h1_def by simp
  moreover have "replace_tail s n m h rt = Some (h4, if n = rt then m else rt)"
  proof -
    define ha where "ha = h(m \<mapsto> mn\<lparr>rb_left := ptr s l\<rparr>)"
    define hb where "hb = ha(m \<mapsto> mn\<lparr>rb_left := ptr s l, rb_right := ptr s r\<rparr>)"
    define hc where "hc = hb(m \<mapsto> mn\<lparr>rb_left := ptr s l, rb_right := ptr s r, rb_parent := ?p\<rparr>)"
    have e1: "peek rb_left h n = Some (ptr s l)" using node by (simp add: peek_def)
    have e2: "poke h m (\<lambda>n. n\<lparr>rb_left := ptr s l\<rparr>) = Some ha" using m by (simp add: poke_def ha_def)
    have e3: "peek rb_right ha n = Some (ptr s r)" using node neq by (simp add: peek_def ha_def)
    have e4: "poke ha m (\<lambda>n. n\<lparr>rb_right := ptr s r\<rparr>) = Some hb"
      using nn by (simp add: poke_def ha_def hb_def deref_upd)
    have e5: "peek rb_parent hb n = Some ?p" using node neq by (simp add: peek_def ha_def hb_def)
    have e6: "poke hb m (\<lambda>n. n\<lparr>rb_parent := ?p\<rparr>) = Some hc"
      using nn by (simp add: poke_def hb_def hc_def deref_upd)
    have "rbtree_copy_color hc m n =
        Some (h(m \<mapsto> mn\<lparr>rb_left := ptr s l, rb_right := ptr s r, rb_parent := ?p, rb_color := c\<rparr>))"
      using node neq nn by (simp add: rbtree_copy_color_def peek_def poke_def ha_def hb_def hc_def deref_upd)
    moreover have "mn\<lparr>rb_left := ptr s l, rb_right := ptr s r, rb_parent := ?p, rb_color := c\<rparr> = ?m"
      by (cases mn) simp
    ultimately have e7: "rbtree_copy_color hc m n = Some h1"
      unfolding h1_def by (simp only:)
    have "set_child SRight m = (\<lambda>n. n\<lparr>rb_right := m\<rparr>)" "set_child SLeft m = (\<lambda>n. n\<lparr>rb_left := m\<rparr>)"
      by (rule ext; simp)+
    then have e8: "(if n = rt then Some (h1, m)
        else do {
          npl \<leftarrow> peek rb_left h1 ?p;
          h \<leftarrow> (if n = npl then poke h1 ?p (\<lambda>n. n\<lparr>rb_left := m\<rparr>)
                else poke h1 ?p (\<lambda>n. n\<lparr>rb_right := m\<rparr>));
          Some (h, rt)
        }) = Some (h2, if n = rt then m else rt)"
      using p1 root by (auto simp: h2_def peek_def poke_def)
    have e9: "peek rb_left h2 m = Some (ptr s l)" using m2 by (simp add: peek_def)
    have e10: "(if ptr s l \<noteq> s then poke h2 (ptr s l) (\<lambda>n. n\<lparr>rb_parent := m\<rparr>) else Some h2) = Some h3"
      using nl by (auto simp: h3_def poke_def)
    have e11: "peek rb_right h3 m = Some (ptr s r)" using m2 ql by (auto simp: h3_def peek_def)
    have e12: "(if ptr s r \<noteq> s then poke h3 (ptr s r) (\<lambda>n. n\<lparr>rb_parent := m\<rparr>) else Some h3) = Some h4"
      using h3r(2) by (auto simp: h4_def poke_def)
    show ?thesis
      by (simp only: replace_tail_def e1 e2 e3 e4 e5 e6 e7 e8 e9 e10 e11 e12 Option.bind.simps prod.case)
  qed
  ultimately show ?thesis using foc by simp
qed

section \<open>Closing the gap\<close>

lemma black_temp:
  assumes "focused h s pp rt fs t"
  shows "ensures (rbtree_black h (ptr s t)) (\<lambda>h'. focused h' s pp rt fs (blacken t) \<and>
    unchanged_outside (insert s (nodes fs t)) h h')"
proof (cases t)
  case Lf
  with assms show ?thesis
    by (auto simp: rbtree_black_def poke_def focused_def sentinel_ok_def apart_def deref_upd dest: deref_not_NULL)
next
  case (Nd a c k l r)
  with color_focused [of h s pp rt fs SLeft a c k l r False] assms show ?thesis
    by (auto simp: rbtree_black_def nodes_def elim!: ensures_mono intro: unchanged_outside_mono)
qed

lemma focused_outside:
  "focused h s pp rt fs t \<Longrightarrow> n \<notin> nodes fs t \<Longrightarrow> n \<noteq> s \<Longrightarrow> focused (h(n := v)) s pp rt fs t"
  by (simp add: focused_def nodes_def)

lemma node_init_outside:
  assumes "focused h s pp rt fs t" "n \<notin> nodes fs t" "n \<noteq> s" "deref h n = Some nn" "sent_par h s t q"
  shows "ensures (rbtree_node_init h n) (\<lambda>h'. focused h' s pp rt fs t \<and> sent_par h' s t q \<and> unchanged_outside {n} h h')"
  using assms by (simp add: rbtree_node_init_def poke_def focused_outside sent_par_def peek_def)

definition delete_settle :: "rbtree \<Rightarrow> bool \<Rightarrow> addr \<Rightarrow> rbheap \<Rightarrow> addr \<Rightarrow> (rbheap \<times> rbtree) option" where
  "delete_settle tree isred temp h root =
     (if isred then Some (h, tree\<lparr>rbt_root := root\<rparr>)
      else do {
        (temp, h, root) \<leftarrow> rbtree_delete_fixup (rbt_sentinel tree) temp h root;
        h \<leftarrow> rbtree_black h temp;
        Some (h, tree\<lparr>rbt_root := root\<rparr>)
      })"

definition deleted :: "rbtree \<Rightarrow> (addr \<times> 64 word) list \<Rightarrow> addr set \<Rightarrow> rbheap \<Rightarrow> rbheap \<times> rbtree \<Rightarrow> bool" where
  "deleted tree es X h r \<longleftrightarrow> (case r of (h', tree') \<Rightarrow>
     (\<exists>T'. rbtree_holds h' tree' T' \<and> rbt_sentinel tree' = rbt_sentinel tree \<and> entries T' = es) \<and>
     unchanged_outside (insert (rbt_sentinel tree) X) h h')"

lemma deleted_trans:
  "deleted tree es Y h1 r \<Longrightarrow> unchanged_outside (insert (rbt_sentinel tree) X) h h1 \<Longrightarrow> Y \<subseteq> X \<Longrightarrow> deleted tree es X h r"
  unfolding deleted_def unchanged_outside_def by auto

lemma delete_settle_correct:
  assumes foc: "focused h (rbt_sentinel tree) pp rt fs t" and par: "sent_par h (rbt_sentinel tree) t (par pp fs)"
    and bal: "if isred then rbt (plug fs t) else short fs t" and sorted: "sorted (keys (plug fs t))"
  shows "ensures (delete_settle tree isred (ptr (rbt_sentinel tree) t) h rt) (deleted tree (entries (plug fs t)) (nodes fs t) h)"
proof (cases isred)
  case True
  moreover have "focused h (rbt_sentinel tree) pp rt [] (plug fs t)" using foc by (simp add: focused_whole [of _ _ _ _ fs])
  ultimately show ?thesis
    using bal sorted by (auto simp: delete_settle_def deleted_def rbtree_holds_def)
next
  case False
  let ?s = "rbt_sentinel tree"
  obtain n1 h1 rt1 fs1 t1 where r1: "rbtree_delete_fixup ?s (ptr ?s t) h rt = Some (n1, h1, rt1)"
    and f1: "focused h1 ?s pp rt1 fs1 t1" "n1 = ptr ?s t1" "entries (plug fs1 t1) = entries (plug fs t)"
      "rbt (plug fs1 (blacken t1))" "unchanged_outside (nodes fs t) h h1"
    using delete_fixup_correct [OF foc par] False bal by (auto simp: delete_fixed_def nodes_whole elim!: ensuresE)
  obtain h2 where r2: "rbtree_black h1 n1 = Some h2" and f2: "focused h2 ?s pp rt1 fs1 (blacken t1)"
    and u2: "unchanged_outside (insert ?s (nodes fs1 t1)) h1 h2"
    using black_temp [OF f1(1)] f1(2) by (auto elim!: ensuresE)
  have "focused h2 ?s pp rt1 [] (plug fs1 (blacken t1))" using f2 by (simp add: focused_whole [of _ _ _ _ fs1])
  moreover have e: "entries (plug fs1 (blacken t1)) = entries (plug fs t)" using f1(3) by (simp add: entries_plug)
  ultimately have "rbtree_holds h2 (tree\<lparr>rbt_root := rt1\<rparr>) (plug fs1 (blacken t1))"
    using f1(4) sorted by (auto simp: rbtree_holds_def)
  moreover have "nodes fs1 t1 = nodes fs t" by (simp add: nodes_whole addrs_entries f1(3))
  then have "unchanged_outside (insert ?s (nodes fs t)) h h2"
    using u2 f1(5) by (auto simp: unchanged_outside_def)
  ultimately show ?thesis
    using False e by (auto simp: delete_settle_def r1 r2 deleted_def)
qed

section \<open>Balance after a node is taken out\<close>

lemma unlinked_balance:
  assumes "rbt (plug fs (nd d a c k x Lf))" "fs \<noteq> []"
  shows "if c then rbt (plug fs x) else short fs x"
proof -
  have x: "invc x" "invh x" "bheight x = 0" "c \<Longrightarrow> \<not> red x" using assms by (auto simp: rbt_plug)
  show ?thesis
  proof (cases c)
    case True
    then have "x = Lf" using x by (cases x) auto
    with True assms show ?thesis by (auto simp: rbt_plug bheight_nd intro: pinvc_black)
  next
    case False
    with assms x show ?thesis by (auto simp: rbt_plug bheight_nd short_def invc_blacken)
  qed
qed

lemma pinvc_rename: "pinvc (ls @ Fr d a c k y # fs) r = pinvc (ls @ Fr d a' c k' y # fs) r"
  by (induction ls r rule: pinvc.induct) auto

lemma pinvh_rename: "pinvh (ls @ Fr d a c k y # fs) j = pinvh (ls @ Fr d a' c k' y # fs) j"
  by (induction ls j rule: pinvh.induct) auto

lemma top_black_rename: "top_black (ls @ Fr d a c k y # fs) = top_black (ls @ Fr d a' c k' y # fs)"
proof (induction ls)
  case (Cons f ls)
  then show ?case by (cases f) (simp add: top_black_Cons)
qed (simp add: top_black_Cons)

lemma balance_rename:
  "(if b then rbt (plug (ls @ Fr d a c k y # fs) x) else short (ls @ Fr d a c k y # fs) x) =
   (if b then rbt (plug (ls @ Fr d a' c k' y # fs) x) else short (ls @ Fr d a' c k' y # fs) x)"
  unfolding rbt_plug short_def pinvc_rename [of ls d a c k y fs _ a' k']
    pinvh_rename [of ls d a c k y fs _ a' k'] top_black_rename [of ls d a c k y fs a' k'] by simp

lemma node_path:
  "n \<in> set (addrs T) \<Longrightarrow> \<exists>fs c k l r. T = plug fs (Nd n c k l r)"
proof (induction T)
  case (Nd a c k l r)
  then consider "n = a" | "n \<in> set (addrs l)" | "n \<in> set (addrs r)" by auto
  then show ?case
  proof cases
    case 1
    then show ?thesis by (intro exI [of _ "[]"]) auto
  next
    case 2
    with Nd.IH obtain fs c' k' l' r' where "l = plug fs (Nd n c' k' l' r')" by blast
    then have "Nd a c k l r = plug (fs @ [Fr SLeft a c k r]) (Nd n c' k' l' r')" by (simp add: plug_append)
    then show ?thesis by blast
  next
    case 3
    with Nd.IH obtain fs c' k' l' r' where "r = plug fs (Nd n c' k' l' r')" by blast
    then have "Nd a c k l r = plug (fs @ [Fr SRight a c k l]) (Nd n c' k' l' r')" by (simp add: plug_append)
    then show ?thesis by blast
  qed
qed simp

lemma entries_without:
  assumes "distinct (addrs (plug fs (Nd n c k l r)))"
  shows "filter (\<lambda>e. fst e \<noteq> n) (entries (plug fs (Nd n c k l r))) = before fs @ entries l @ entries r @ after fs"
proof -
  have "n \<notin> fst ` set (before fs @ entries l @ entries r @ after fs)"
    using assms by (auto simp: addrs_entries entries_plug)
  then have "e \<in> set (before fs @ entries l @ entries r @ after fs) \<Longrightarrow> fst e \<noteq> n" for e by force
  then show ?thesis by (simp add: entries_plug filter_id_conv)
qed

section \<open>Deletion\<close>

lemma rbtree_delete_eq:
  "rbtree_delete h tree node =
     (let root = rbt_root tree; sentinel = rbt_sentinel tree in do {
        (subst, temp) \<leftarrow> rbtree_delete_target h sentinel node;
        if subst = root then do {
          h \<leftarrow> rbtree_black h temp;
          h \<leftarrow> rbtree_node_init h node;
          Some (h, tree\<lparr>rbt_root := temp\<rparr>)
        } else do {
          isred \<leftarrow> rbtree_is_red h subst;
          sp \<leftarrow> peek rb_parent h subst;
          h \<leftarrow> (do {
            spl \<leftarrow> peek rb_left h sp;
            if subst = spl then poke h sp (\<lambda>n. n\<lparr>rb_left := temp\<rparr>)
            else poke h sp (\<lambda>n. n\<lparr>rb_right := temp\<rparr>) });
          (h, root) \<leftarrow>
            (if subst = node then do {
               sp \<leftarrow> peek rb_parent h subst;
               h \<leftarrow> poke h temp (\<lambda>n. n\<lparr>rb_parent := sp\<rparr>);
               Some (h, root)
             } else rbtree_delete_replace sentinel node subst temp h root);
          h \<leftarrow> rbtree_node_init h node;
          delete_settle tree isred temp h root
        }
      })"
  unfolding rbtree_delete_def delete_settle_def Let_def Option.bind_assoc by (rule refl)

lemma delete_single_child:
  fixes tree :: rbtree
  defines "s \<equiv> rbt_sentinel tree"
  assumes foc: "focused h s pp (rbt_root tree) fs (nd d n c k x Lf)"
    and target: "rbtree_delete_target h s n = Some (n, ptr s x)"
    and bal: "rbt (plug fs (nd d n c k x Lf))" and sorted: "sorted (keys (plug fs x))"
  shows "ensures (rbtree_delete h tree n)
    (deleted tree (entries (plug fs x)) (nodes fs (nd d n c k x Lf)) h)"
proof -
  let ?X = "nodes fs (nd d n c k x Lf)" and ?rt = "rbt_root tree"
  have ap: "apart s fs (nd d n c k x Lf)" using foc by (simp add: focused_def)
  then have out: "n \<notin> nodes fs x" "n \<noteq> s" "s \<notin> set (addrs x)" "distinct (addrs x)" "apart s fs x" "s \<notin> set (paddrs fs)"
    "n \<notin> set (paddrs fs)"
    by (auto simp: apart_def nodes_def)
  have X: "?X = insert n (nodes fs x)" by (auto simp: nodes_def)
  have cell: "deref h n = Some (cell d (ptr s x) s (par pp fs) k c)" using foc by (simp add: focused_def)
  show ?thesis
  proof (cases "fs = []")
    case True
    then have rt: "?rt = n" using foc by (simp add: focused_def)
    have xr: "rep h s n x" using foc by (simp add: focused_def)
    then have "focused h s n (ptr s x) [] x" using foc out True by (auto simp: focused_def)
    then obtain h1 where r1: "rbtree_black h (ptr s x) = Some h1"
      and f1: "focused h1 s n (ptr s x) [] (blacken x)" and u1: "unchanged_outside (insert s (nodes [] x)) h h1"
      using black_temp [of h s n "ptr s x" "[]" x] by (auto elim!: ensuresE)
    have bx: "rbt (blacken x)" using bal True by (intro rbt_blacken) (auto simp: rbt_def invc_blacken)
    have "h1 n = h n" using u1 out True by (auto simp: unchanged_outside_def)
    then have d1: "deref h1 n = Some (cell d (ptr s x) s (par pp fs) k c)" using cell by (simp add: deref_def split: if_splits)
    have nb: "n \<notin> nodes [] (blacken x)" using out True by (simp add: nodes_def addrs_entries)
    define h2 where "h2 = h1(n \<mapsto> (cell d (ptr s x) s (par pp fs) k c)\<lparr>rb_left := NULL, rb_right := NULL, rb_parent := NULL, rb_key := 0\<rparr>)"
    have r2: "rbtree_node_init h1 n = Some h2" using d1 by (simp add: rbtree_node_init_def poke_def h2_def)
    have f2: "focused h2 s n (ptr s x) [] (blacken x)"
      unfolding h2_def by (rule focused_outside [OF f1 nb out(2)])
    have u2: "unchanged_outside (insert s ?X) h h2"
      using u1 True unfolding h2_def X by (auto simp: unchanged_outside_def)
    have "rbtree_holds h2 (tree\<lparr>rbt_root := ptr s x\<rparr>) (blacken x)"
      using f2 bx sorted True by (auto simp: rbtree_holds_def s_def)
    then show ?thesis
      using u2 True target rt
      by (auto simp: rbtree_delete_def Let_def s_def [symmetric] r1 r2 deleted_def)
  next
    case False
    have nrt: "n \<noteq> ?rt" using focus_is_root [OF foc] False by simp
    let ?p = "par pp fs"
    have p: "?p \<in> set (paddrs fs)" using False by (rule par_in)
    obtain h1 where r1: "Option.bind (peek rb_left h ?p) (\<lambda>npl.
        if n = npl then poke h ?p (\<lambda>m. m\<lparr>rb_left := ptr s x\<rparr>)
        else poke h ?p (\<lambda>m. m\<lparr>rb_right := ptr s x\<rparr>)) = Some h1"
      and p1: "prep h1 s pp fs (ptr s x)" "rep h1 s n x" "sentinel_ok h1 s" and u1: "unchanged_outside {?p} h h1"
      using unlink_child [OF foc False] by (auto elim!: ensuresE)
    have "n \<noteq> ?p" using p out(7) by metis
    then have "h1 n = h n" using u1 by (simp add: unchanged_outside_def)
    then have d1: "deref h1 n = Some (cell d (ptr s x) s ?p k c)" using cell by (simp add: deref_def split: if_splits)
    obtain h2 where r2: "poke h1 (ptr s x) (\<lambda>m. m\<lparr>rb_parent := ?p\<rparr>) = Some h2"
      and p2: "rep h2 s ?p x" "sentinel_ok h2 s" "sent_par h2 s x ?p" and u2: "unchanged_outside {ptr s x} h1 h2"
      using reparent [OF p1(2,3) out(3,4), of ?p] by (auto elim!: ensuresE)
    have xp: "ptr s x \<notin> set (paddrs fs)" "ptr s x \<noteq> n"
      using ptr_in [of s x] out ap by (auto simp: apart_def)
    obtain vx where "h2 = h1(ptr s x \<mapsto> vx)" using r2 by (auto simp: poke_def split: option.splits)
    then have p3: "prep h2 s pp fs (ptr s x)" using p1(1) xp by simp
    have rt: "?rt = root_of fs (ptr s x)" using foc False by (cases fs) (auto simp: focused_def)
    have f2: "focused h2 s pp ?rt fs x" using p2 p3 rt out(5) by (simp add: focused_def)
    have "h2 n = h1 n" using u2 not_sym [OF xp(2)] by (simp add: unchanged_outside_def)
    then have d2: "deref h2 n = Some (cell d (ptr s x) s ?p k c)" using d1 by (simp add: deref_def split: if_splits)
    obtain h3 where r3: "rbtree_node_init h2 n = Some h3" and f3: "focused h3 s pp ?rt fs x" "sent_par h3 s x ?p"
      and u3: "unchanged_outside {n} h2 h3"
      using node_init_outside [OF f2 out(1,2) d2 p2(3)] by (auto elim!: ensuresE)
    have settle: "ensures (delete_settle tree c (ptr s x) h3 ?rt) (deleted tree (entries (plug fs x)) (nodes fs x) h3)"
      using delete_settle_correct [OF f3 [unfolded s_def] unlinked_balance [OF bal False] sorted] by (simp add: s_def)
    have "?p \<in> insert s ?X" "ptr s x \<in> insert s ?X" "n \<in> insert s ?X"
      using p ptr_in [of s x] by (auto simp: nodes_def)
    then have u: "unchanged_outside (insert s ?X) h h3"
      using u1 u2 u3 unfolding unchanged_outside_def by (metis singletonD)
    have e1: "rbtree_is_red h n = Some c" "peek rb_parent h n = Some ?p" "peek rb_parent h1 n = Some ?p"
      using cell d1 by (simp_all add: rbtree_is_red_def peek_def)
    have "rbtree_delete h tree n = delete_settle tree c (ptr s x) h3 ?rt"
      using nrt unfolding rbtree_delete_eq Let_def s_def [symmetric] target
      by (simp only: e1 r1 r2 r3 Option.bind.simps prod.case if_False if_True simp_thms)
    with settle show ?thesis
      using u X by (auto elim!: ensures_mono intro: deleted_trans [where Y = "nodes fs x"] simp: s_def)
  qed
qed

lemma prep_append: "prep h s pp (ls @ gs) x \<longleftrightarrow> prep h s (par pp gs) ls x \<and> prep h s pp gs (root_of ls x)"
proof (induction ls arbitrary: x)
  case (Cons f ls)
  then show ?case by (cases f; cases ls) auto
qed simp

lemma paddrs_append: "paddrs (ls @ gs) = paddrs ls @ paddrs gs"
  by (induction ls rule: paddrs.induct) simp_all

lemma par_append: "par pp (ls @ gs) = (if ls = [] then par pp gs else par pp ls)"
  by (cases ls) simp_all

lemma par_indep: "ls \<noteq> [] \<Longrightarrow> par pp ls = par qq ls"
  by (cases ls) simp_all

lemma prep_indep: "prep h s pp ls x \<Longrightarrow> ls = [] \<Longrightarrow> prep h s qq ls x"
  by simp

text \<open>The successor \<open>m\<close>, at the end of the left spine \<open>ls\<close>, takes the place of \<open>n\<close>.\<close>

lemma delete_replace_focused:
  fixes ls fs n c k l m km y
  defines "path a ka \<equiv> ls @ Fr SRight a c ka l # fs"
  assumes prep: "prep h s pp (path n k) (ptr s y)" and y: "rep h s m y" and sent: "sentinel_ok h s"
    and ap: "apart s (path n k) (nd SRight m cm km y Lf)"
    and m: "deref h m = Some mn" "rb_key mn = km" "rb_parent mn = par pp (path n k)"
    and rt: "rt = root_of fs n"
  shows "ensures (rbtree_delete_replace s n m (ptr s y) h rt) (\<lambda>(h', rt').
    focused h' s pp rt' (path m km) y \<and> sent_par h' s y (par pp (path m km)) \<and> h' n = h n \<and>
    unchanged_outside (insert s (nodes (path n k) (nd SRight m cm km y Lf))) h h')"
proof -
  let ?sp = "par pp (path n k)"
  let ?q = "par pp (path m km)"
  let ?X = "nodes (path n k) (nd SRight m cm km y Lf)"
  have d: "distinct (paddrs ls)" "distinct (addrs y)" "s \<notin> set (addrs y)" "m \<noteq> n" "m \<noteq> s" "n \<noteq> s"
    "n \<notin> set (paddrs ls)" "n \<notin> set (addrs y)" "m \<notin> set (addrs y)" "n \<notin> set (addrs l)" "n \<notin> set (paddrs fs)"
    using ap by (auto simp: path_def apart_def paddrs_append)
  have disj: "z \<in> set (addrs y) \<Longrightarrow> z \<notin> set (paddrs ls) \<and> z \<notin> set (addrs l) \<and> z \<notin> set (paddrs fs)" for z
    using ap by (auto simp: path_def apart_def paddrs_append)
  have sp: "?sp = (if ls = [] then n else par n ls)" and q: "?q = (if ls = [] then m else par n ls)"
    using par_indep [of ls pp n] by (simp_all add: path_def par_append)
  have "?sp = n \<longleftrightarrow> ls = []" using sp par_in [of ls n] d(7) by auto
  then have qq: "(if ?sp = n then m else ?sp) = ?q" using sp q by simp
  obtain h1 where r1: "poke h (ptr s y) (\<lambda>z. z\<lparr>rb_parent := ?q\<rparr>) = Some h1"
    and p1: "rep h1 s ?q y" "sentinel_ok h1 s" "sent_par h1 s y ?q" and u1: "unchanged_outside {ptr s y} h h1"
    using reparent [OF y sent d(3,2), of ?q] by (auto elim!: ensuresE)
  obtain vy where h1: "h1 = h(ptr s y \<mapsto> vy)" using r1 by (auto simp: poke_def split: option.splits)
  have "s \<notin> set (paddrs ls)" "s \<notin> set (addrs l)" "s \<notin> set (paddrs fs)"
    using ap by (auto simp: path_def apart_def paddrs_append)
  then have yp: "ptr s y \<notin> set (paddrs ls)" "ptr s y \<notin> set (addrs l)" "ptr s y \<notin> set (paddrs fs)"
    "n \<noteq> ptr s y" "m \<noteq> ptr s y"
    using ptr_in [of s y] disj [of "ptr s y"] d by auto
  have P: "prep h s n ls (ptr s y)" "deref h n = Some (cell SRight (root_of ls (ptr s y)) (ptr s l) (par pp fs) k c)"
    "rep h s n l" "prep h s pp fs n"
    using prep by (simp_all add: path_def prep_append)
  have P1: "prep h1 s n ls (ptr s y)" "deref h1 n = Some (cell SRight (root_of ls (ptr s y)) (ptr s l) (par pp fs) k c)"
    "rep h1 s n l" "prep h1 s pp fs n" "deref h1 m = Some mn"
    using P yp m(1) by (simp_all add: h1)
  let ?r = "plug ls y"
  have rr: "rep h1 s (if ls = [] then m else n) ?r"
    using P1(1) p1(1) q by (cases "ls = []") (simp_all add: rep_plug)
  have sr: "set (addrs ?r) = set (addrs y @ paddrs ls)" by (rule set_addrs_plug)
  have "apart s (path n k) y" using ap by (auto simp: apart_def)
  moreover have "mset (addrs (Nd n c k l ?r) @ paddrs fs) = mset (addrs y @ paddrs (path n k))"
    by (simp add: mset_addrs_plug path_def paddrs_append)
  ultimately have ap2: "apart s fs (Nd n c k l ?r)" by (rule apart_perm)
  have N: "insert m (nodes fs (Nd n c k l ?r)) = ?X"
    by (auto simp: nodes_def sr path_def paddrs_append)
  have mo: "m \<notin> nodes fs (Nd n c k l ?r)"
    using ap d(4) by (auto simp: nodes_def sr path_def paddrs_append apart_def)
  have "ptr s ?r = root_of ls (ptr s y)" by (rule ptr_plug)
  then have dn: "deref h1 n = Some (cell SLeft (ptr s l) (ptr s ?r) (par pp fs) k c)" using P1(2) by simp
  obtain h2 rt2 where r2: "replace_tail s n m h1 rt = Some (h2, rt2)"
    and f2: "focused h2 s pp rt2 fs (Nd m c km l ?r)"
    and u2: "unchanged_outside (insert m (nodes fs (Nd n c k l ?r)) - {n}) h1 h2"
    using replace_tail_focused [OF dn P1(4,3) rr ap2 p1(2) rt P1(5) mo d(5)] m(2) by (auto elim!: ensuresE)
  have "focused h2 s pp rt2 (path m km) y"
    using f2 by (simp add: path_def focused_plug focused_up)
  moreover have "s \<notin> insert m (nodes fs (Nd n c k l ?r)) - {n}" using ap2 d(5) by (auto simp: apart_def nodes_def)
  then have "sent_par h2 s y ?q" by (rule sent_par_frame [OF p1(3) u2])
  moreover have "h2 n = h n" using u1 u2 yp(4) by (simp add: unchanged_outside_def)
  moreover have "ptr s y \<in> insert s ?X" using ptr_in [of s y] by (auto simp: nodes_def)
  then have "unchanged_outside (insert s ?X) h h2"
    using u1 u2 unfolding N unchanged_outside_def by (metis DiffD1 insertI2 singletonD)
  moreover have "rbtree_delete_replace s n m (ptr s y) h rt = Some (h2, rt2)"
  proof -
    have "peek rb_parent h m = Some ?sp" using m by (simp add: peek_def)
    then show ?thesis
      by (simp only: rbtree_delete_replace_eq qq r1 r2 Option.bind.simps)
  qed
  ultimately show ?thesis by simp
qed

lemma delete_two_children:
  fixes tree :: rbtree
  defines "s \<equiv> rbt_sentinel tree"
  assumes foc: "focused h s pp (rbt_root tree) fs (Nd n c k l (plug ls (Nd m cm km Lf y)))"
    and target: "rbtree_delete_target h s n = Some (m, ptr s y)" and ls: "before ls = []"
    and bal: "rbt (plug fs (Nd n c k l (plug ls (Nd m cm km Lf y))))"
    and sorted: "sorted (keys (plug fs (Nd m c km l (plug ls y))))"
  shows "ensures (rbtree_delete h tree n)
    (deleted tree (entries (plug fs (Nd m c km l (plug ls y)))) (nodes fs (Nd n c k l (plug ls (Nd m cm km Lf y)))) h)"
proof -
  let ?T = "Nd n c k l (plug ls (Nd m cm km Lf y))" and ?rt = "rbt_root tree"
  let ?X = "nodes fs ?T"
  define path where "path a ka = ls @ Fr SRight a c ka l # fs" for a ka
  have foc': "focused h s pp ?rt (path n k) (nd SRight m cm km y Lf)"
    using foc by (simp add: path_def focused_plug focused_up)
  have X: "?X = nodes (path n k) (nd SRight m cm km y Lf)"
    by (simp add: nodes_whole path_def plug_append)
  have X2: "nodes (path m km) y \<subseteq> ?X" and nX: "n \<in> ?X" unfolding X by (auto simp: nodes_def path_def paddrs_append)
  have ap: "apart s (path n k) (nd SRight m cm km y Lf)" using foc' by (simp add: focused_def)
  have ne: "path a ka \<noteq> []" for a ka by (simp add: path_def)
  have d: "m \<noteq> n" "n \<noteq> s" "m \<noteq> s" "m \<notin> set (paddrs (path n k))" "s \<notin> set (addrs y)" "distinct (addrs y)"
    using ap by (auto simp: apart_def path_def paddrs_append)
  have no: "n \<notin> nodes (path m km) y" using ap by (auto simp: apart_def path_def paddrs_append nodes_def)
  have rt: "?rt = root_of fs n" using foc by (simp add: focused_def)
  have mrt: "m \<noteq> ?rt" using focus_is_root [OF foc'] ne by simp
  let ?p = "par pp (path n k)"
  have p: "?p \<in> set (paddrs (path n k))" using ne by (rule par_in)
  have cell: "deref h m = Some (cell SRight (ptr s y) s ?p km cm)" using foc' by (simp add: focused_def)
  obtain h1 where r1: "Option.bind (peek rb_left h ?p) (\<lambda>npl.
      if m = npl then poke h ?p (\<lambda>z. z\<lparr>rb_left := ptr s y\<rparr>)
      else poke h ?p (\<lambda>z. z\<lparr>rb_right := ptr s y\<rparr>)) = Some h1"
    and p1: "prep h1 s pp (path n k) (ptr s y)" "rep h1 s m y" "sentinel_ok h1 s" and u1: "unchanged_outside {?p} h h1"
    using unlink_child [OF foc' ne] by (auto elim!: ensuresE)
  have "m \<noteq> ?p" using p d(4) by metis
  then have "h1 m = h m" using u1 by (simp add: unchanged_outside_def)
  then have m1: "deref h1 m = Some (cell SRight (ptr s y) s ?p km cm)" using cell by (simp add: deref_def split: if_splits)
  have dn1: "\<exists>vn. deref h1 n = Some vn"
    using p1(1) by (simp add: path_def prep_append)
  obtain h2 rt2 where r2: "rbtree_delete_replace s n m (ptr s y) h1 ?rt = Some (h2, rt2)"
    and f2: "focused h2 s pp rt2 (path m km) y" "sent_par h2 s y (par pp (path m km))" "h2 n = h1 n"
    and u2: "unchanged_outside (insert s ?X) h1 h2"
    using delete_replace_focused [OF p1(1) [unfolded path_def] p1(2,3) ap [unfolded path_def] m1, of ?rt] rt
    unfolding path_def [symmetric] X by (auto elim!: ensuresE)
  have dn2: "\<exists>vn. deref h2 n = Some vn" using dn1 f2(3) by (auto simp: deref_def split: if_splits)
  then obtain vn where vn: "deref h2 n = Some vn" by blast
  obtain h3 where r3: "rbtree_node_init h2 n = Some h3" and f3: "focused h3 s pp rt2 (path m km) y"
    "sent_par h3 s y (par pp (path m km))" and u3: "unchanged_outside {n} h2 h3"
    using node_init_outside [OF f2(1) no d(2) vn f2(2)] by (auto elim!: ensuresE)
  have "rbt (plug (path n k) (nd SRight m cm km y Lf))" using bal by (simp add: path_def plug_append)
  from unlinked_balance [OF this ne]
  have b3: "if cm then rbt (plug (path m km) y) else short (path m km) y"
    unfolding path_def by (subst balance_rename [where a' = n and k' = k])
  have e: "plug (path m km) y = plug fs (Nd m c km l (plug ls y))" by (simp add: path_def plug_append)
  have settle: "ensures (delete_settle tree cm (ptr s y) h3 rt2)
      (deleted tree (entries (plug fs (Nd m c km l (plug ls y)))) (nodes (path m km) y) h3)"
    using delete_settle_correct [OF f3 [unfolded s_def] b3] sorted unfolding e s_def [symmetric] by blast
  have pX: "?p \<in> ?X" using p unfolding X by (simp add: nodes_def)
  then have u: "unchanged_outside (insert s ?X) h h3"
    using u1 u2 u3 nX unfolding unchanged_outside_def by (metis insertI2 singletonD)
  have e1: "rbtree_is_red h m = Some cm" "peek rb_parent h m = Some ?p"
    using cell by (simp_all add: rbtree_is_red_def peek_def)
  have "rbtree_delete h tree n = delete_settle tree cm (ptr s y) h3 rt2"
    unfolding rbtree_delete_eq Let_def s_def [symmetric] target
    by (simp only: e1 r1 r2 r3 mrt d(1) Option.bind.simps prod.case if_False if_True simp_thms)
  with settle show ?thesis
    using u X2 by (auto elim!: ensures_mono intro: deleted_trans [where Y = "nodes (path m km) y"] simp: s_def)
qed

lemma before_nil_append: "before (ls @ gs) = before gs @ before ls"
  by (induction ls rule: before.induct) simp_all

lemma delete_rbtree_holds:
  assumes holds: "rbtree_holds h tree T" and n: "n \<in> set (addrs T)"
  shows "ensures (rbtree_delete h tree n)
    (deleted tree (filter (\<lambda>e. fst e \<noteq> n) (entries T)) (set (addrs T)) h)"
proof -
  let ?s = "rbt_sentinel tree"
  obtain pp where whole: "focused h ?s pp (rbt_root tree) [] T" and bal: "rbt T" and sorted: "sorted (keys T)"
    using holds by (auto simp: rbtree_holds_def)
  obtain fs c k l r where T: "T = plug fs (Nd n c k l r)" using node_path [OF n] by blast
  have foc: "focused h ?s pp (rbt_root tree) fs (Nd n c k l r)"
    using whole by (simp add: T focused_whole [of _ _ _ _ fs])
  have "distinct (addrs T)" using whole by (simp add: focused_def apart_def)
  then have E: "filter (\<lambda>e. fst e \<noteq> n) (entries T) = before fs @ entries l @ entries r @ after fs"
    unfolding T by (rule entries_without)
  have "sorted (map snd (filter (\<lambda>e. fst e \<noteq> n) (entries T)))"
    using sorted by (simp add: sorted_map sorted_wrt_filter)
  then have S: "sorted (map snd (before fs @ entries l @ entries r @ after fs))" unfolding E .
  have X: "nodes fs (Nd n c k l r) = set (addrs T)" by (simp add: T nodes_whole)
  have lp: "peek rb_left h n = Some (ptr ?s l)" "peek rb_right h n = Some (ptr ?s r)"
    using foc by (simp_all add: focused_def peek_def)
  show ?thesis
  proof (cases "l = Lf \<or> r = Lf")
    case True
    then obtain d x where t: "Nd n c k l r = nd d n c k x Lf" and x: "entries x = entries l @ entries r"
      and ptr: "ptr ?s l = ?s \<and> ptr ?s x = ptr ?s r \<or> ptr ?s l \<noteq> ?s \<and> ptr ?s r = ?s \<and> ptr ?s x = ptr ?s l"
    proof (cases "l = Lf")
      case True
      then show thesis by (intro that [of SRight r]) simp_all
    next
      case False
      moreover have "ptr ?s l \<noteq> ?s" using False foc by (cases l) (auto simp: focused_def apart_def)
      ultimately show thesis using True by (intro that [of SLeft l]) simp_all
    qed
    have "rbtree_delete_target h ?s n = Some (n, ptr ?s x)"
      using lp ptr by (auto simp: rbtree_delete_target_def)
    from delete_single_child [OF foc [unfolded t] this bal [unfolded T t]] S x E X
    show ?thesis by (simp add: t entries_plug)
  next
    case False
    then obtain ls m cm km y where r: "r = plug ls (Nd m cm km Lf y)" and ls: "before ls = []"
      and min: "rbtree_node_min h (ptr ?s r) ?s = Some m"
      using node_min_path [of h ?s pp "rbt_root tree" "Fr SRight n c k l # fs" r] foc by (auto simp: focused_up)
    have ptrs: "ptr ?s l \<noteq> ?s" "ptr ?s r \<noteq> ?s"
      using False foc by (cases l; cases r; auto simp: focused_def apart_def)+
    have "focused h ?s pp (rbt_root tree) (ls @ Fr SRight n c k l # fs) (Nd m cm km Lf y)"
      using foc r by (simp add: focused_plug focused_up)
    then have "peek rb_right h m = Some (ptr ?s y)" by (simp add: focused_def peek_def)
    then have target: "rbtree_delete_target h ?s n = Some (m, ptr ?s y)"
      using lp ptrs min by (simp add: rbtree_delete_target_def)
    have e: "entries (plug fs (Nd m c km l (plug ls y))) = before fs @ entries l @ entries r @ after fs"
      using ls by (simp add: r entries_plug)
    show ?thesis
      using delete_two_children [OF foc [unfolded r] target ls bal [unfolded T r]] S X
      unfolding e r E by simp
  qed
qed

end
