(* ===== verification/Rbtree_Index.thy ===== *)
theory Rbtree_Index
  imports Rbtree_Delete
begin

text \<open>
  The tree as its client sees it: a finite map from nodes to keys. \<open>node_index\<close> is the interface
  of \<open>rbtree.h\<close> that \<open>context.c\<close> relies on, with the lookup loop of \<open>context_find_task\<close>; the client
  lemmas are proved inside it, and the interpretation \<open>rb\<close> discharges its laws for the code's tree.
\<close>

section \<open>The lookup loop of context.c\<close>

partial_function (option) context_find_loop :: "rbheap \<Rightarrow> addr \<Rightarrow> 64 word \<Rightarrow> addr \<Rightarrow> addr option" where
  "context_find_loop h sentinel key node =
     (if node \<noteq> sentinel then do {
        k \<leftarrow> peek rb_key h node;
        if key < k then do {
          node \<leftarrow> peek rb_left h node;
          context_find_loop h sentinel key node
        } else do {
          k \<leftarrow> peek rb_key h node;
          if k < key then do {
            node \<leftarrow> peek rb_right h node;
            context_find_loop h sentinel key node
          } else Some node
        }
      } else Some NULL)"

definition rbtree_find :: "rbheap \<Rightarrow> rbtree \<Rightarrow> 64 word \<Rightarrow> addr option" where
  "rbtree_find h tree key = context_find_loop h (rbt_sentinel tree) key (rbt_root tree)"

lemma find_loop_correct:
  assumes "focused h s pp rt fs t" "sorted (keys t)"
  shows "ensures (context_find_loop h s key (ptr s t))
    (\<lambda>n. if key \<in> set (keys t) then (n, key) \<in> set (entries t) else n = NULL)"
  using assms
proof (induction t arbitrary: fs)
  case Lf
  then show ?case by (subst context_find_loop.simps) simp
next
  case (Nd a c k l r)
  have sorted: "sorted (keys l)" "sorted (keys r)" and "\<forall>x \<in> set (keys l). x \<le> k" "\<forall>x \<in> set (keys r). k \<le> x"
    using Nd.prems(2) by (auto simp: sorted_append)
  then have kl: "x \<in> set (keys l) \<Longrightarrow> x \<le> k" and kr: "x \<in> set (keys r) \<Longrightarrow> k \<le> x" for x by auto
  have foc: "focused h s pp rt (Fr SLeft a c k r # fs) l" "focused h s pp rt (Fr SRight a c k l # fs) r"
    using Nd.prems(1) by (simp_all add: focused_up)
  have cell: "peek rb_key h a = Some k" "peek rb_left h a = Some (ptr s l)" "peek rb_right h a = Some (ptr s r)" "a \<noteq> s"
    using Nd.prems(1) by (auto simp: focused_def peek_def apart_def)
  note run = context_find_loop.simps [of h s key a]
  consider "key < k" | "k < key" | "key = k" by (rule linorder_less_linear [THEN disjE]) auto
  then show ?case
  proof cases
    case 1
    then have "key \<notin> set (keys r)" using kr by (meson leD)
    then have nr: "(n, key) \<notin> set (entries r)" "key \<notin> snd ` set (entries r)" for n by (force+)
    have "ensures (context_find_loop h s key a)
      (\<lambda>n. if key \<in> set (keys l) then (n, key) \<in> set (entries l) else n = NULL)"
      using Nd.IH(1) [OF foc(1) sorted(1)] cell 1 by (simp add: run)
    then show ?thesis using 1 nr by (auto elim!: ensures_mono split: if_splits)
  next
    case 2
    then have "key \<notin> set (keys l)" using kl by (meson leD)
    then have nl: "(n, key) \<notin> set (entries l)" "key \<notin> snd ` set (entries l)" for n by (force+)
    have "ensures (context_find_loop h s key a)
      (\<lambda>n. if key \<in> set (keys r) then (n, key) \<in> set (entries r) else n = NULL)"
      using Nd.IH(2) [OF foc(2) sorted(2)] cell 2 less_not_sym [OF 2] by (simp add: run)
    then show ?thesis using 2 nl by (auto elim!: ensures_mono split: if_splits)
  next
    case 3
    then show ?thesis using cell by (simp add: context_find_loop.simps [of h s k a])
  qed
qed

section \<open>The tree is a finite map\<close>

definition index_holds :: "rbheap \<Rightarrow> rbtree \<Rightarrow> (addr \<rightharpoonup> 64 word) \<Rightarrow> bool" where
  "index_holds h tree M \<longleftrightarrow> (\<exists>T. rbtree_holds h tree T \<and> M = map_of (entries T))"

lemma holds_distinct: "rbtree_holds h tree T \<Longrightarrow> distinct (map fst (entries T))"
  by (auto simp: rbtree_holds_def focused_def apart_def addrs_entries)

lemma dom_entries: "dom (map_of (entries T)) = set (addrs T)"
  by (simp add: dom_map_of_conv_image_fst addrs_entries)

lemma map_of_delete_key: "map_of (filter (\<lambda>e. fst e \<noteq> n) xs) = (map_of xs)(n := None)"
  by (induction xs) auto

lemma rep_cell: "rep h s p t \<Longrightarrow> (a, k) \<in> set (entries t) \<Longrightarrow> peek rb_key h a = Some k"
  by (induction t arbitrary: p) (auto simp: peek_def)

lemma index_init:
  assumes "deref h s = Some v"
  shows "ensures (rbtree_init h s) (\<lambda>(h', tree). index_holds h' tree Map.empty \<and> rbt_sentinel tree = s \<and>
    unchanged_outside {s} h h')"
proof -
  have nn: "s \<noteq> NULL" using assms by (auto dest: deref_not_NULL)
  define v' where "v' = v\<lparr>rb_left := NULL, rb_right := NULL, rb_parent := NULL, rb_key := 0, rb_color := False\<rparr>"
  define t where "t = \<lparr>rbt_root = s, rbt_sentinel = s\<rparr>"
  have "rbtree_init h s = Some (h(s \<mapsto> v'), t)"
    using assms nn by (simp add: rbtree_init_def rbtree_node_init_def rbtree_black_def poke_def deref_upd v'_def t_def)
  moreover have "sentinel_ok (h(s \<mapsto> v')) s" using nn by (simp add: sentinel_ok_def deref_upd v'_def)
  then have "rbtree_holds (h(s \<mapsto> v')) t Lf"
    by (auto simp: rbtree_holds_def focused_def apart_def t_def)
  then have "index_holds (h(s \<mapsto> v')) t Map.empty" unfolding index_holds_def by force
  ultimately show ?thesis by (simp add: t_def)
qed

lemma index_insert:
  assumes holds: "index_holds h tree M" and n: "deref h n = Some nn" "n \<notin> dom M" "n \<noteq> rbt_sentinel tree"
  shows "ensures (rbtree_insert h tree n) (\<lambda>(h', tree'). index_holds h' tree' (M(n \<mapsto> rb_key nn)) \<and>
    rbt_sentinel tree' = rbt_sentinel tree \<and> unchanged_outside (insert n (dom M)) h h')"
proof -
  obtain T where T: "rbtree_holds h tree T" "M = map_of (entries T)" using holds by (auto simp: index_holds_def)
  have nT: "n \<notin> set (addrs T)" using n(2) unfolding T(2) dom_entries .
  show ?thesis
  proof (rule ensures_mono [OF insert_rbtree_holds [OF T(1) n(1) nT n(3)]], clarify)
    fix h' tree' T'
    let ?k = "rb_key nn"
    assume h': "rbtree_holds h' tree' T'" and e: "entries T' = filter (\<lambda>e. snd e \<le> ?k) (entries T) @ (n, ?k) #
        filter (\<lambda>e. ?k < snd e) (entries T)"
      and s: "rbt_sentinel tree' = rbt_sentinel tree" and u: "unchanged_outside (insert n (set (addrs T))) h h'"
    have d: "distinct (map fst (entries T'))" "distinct (map fst ((n, ?k) # entries T))"
      using holds_distinct [OF h'] holds_distinct [OF T(1)] nT by (simp_all add: addrs_entries)
    have "set (filter (\<lambda>e. snd e \<le> ?k) xs) \<union> set (filter (\<lambda>e. ?k < snd e) xs) = set xs" for xs :: "(addr \<times> 64 word) list"
      by (auto simp: not_le)
    then have "set (entries T') = set ((n, ?k) # entries T)" unfolding e by (simp add: Un_insert_right)
    then have "map_of (entries T') = map_of ((n, ?k) # entries T)" using d by (simp only: map_of_inject_set)
    then have "index_holds h' tree' (M(n \<mapsto> ?k))"
      using h' unfolding index_holds_def T(2) by (intro exI [of _ T']) simp
    then show "index_holds h' tree' (M(n \<mapsto> ?k)) \<and> rbt_sentinel tree' = rbt_sentinel tree \<and>
        unchanged_outside (insert n (dom M)) h h'"
      using s u by (simp add: T(2) dom_entries)
  qed
qed

lemma index_delete:
  assumes holds: "index_holds h tree M" and n: "n \<in> dom M"
  shows "ensures (rbtree_delete h tree n) (\<lambda>(h', tree'). index_holds h' tree' (M(n := None)) \<and>
    rbt_sentinel tree' = rbt_sentinel tree \<and> unchanged_outside (insert (rbt_sentinel tree) (dom M)) h h')"
proof -
  obtain T where T: "rbtree_holds h tree T" "M = map_of (entries T)" using holds by (auto simp: index_holds_def)
  have "n \<in> set (addrs T)" using n unfolding T(2) dom_entries .
  from delete_rbtree_holds [OF T(1) this] show ?thesis
    by (rule ensures_mono) (auto simp: deleted_def index_holds_def T(2) dom_entries map_of_delete_key)
qed

lemma index_find:
  assumes "index_holds h tree M"
  shows "ensures (rbtree_find h tree k) (\<lambda>n. if k \<in> ran M then M n = Some k else n = NULL)"
proof -
  obtain T where T: "rbtree_holds h tree T" "M = map_of (entries T)" using assms by (auto simp: index_holds_def)
  have d: "distinct (map fst (entries T))" by (rule holds_distinct [OF T(1)])
  then have r: "k \<in> ran M \<longleftrightarrow> k \<in> set (keys T)" by (simp add: T(2) ran_distinct)
  obtain pp where "focused h (rbt_sentinel tree) pp (rbt_root tree) [] T" "sorted (keys T)"
    using T(1) by (auto simp: rbtree_holds_def)
  then have "ensures (rbtree_find h tree k) (\<lambda>n. if k \<in> set (keys T) then (n, k) \<in> set (entries T) else n = NULL)"
    using find_loop_correct [of h "rbt_sentinel tree" pp "rbt_root tree" "[]" T k]
    by (simp add: rbtree_find_def focused_def)
  then show ?thesis
    by (rule ensures_mono) (use d r T(2) in auto)
qed

lemma index_entry:
  assumes "index_holds h tree M" "M n = Some k"
  shows "peek rb_key h n = Some k" "n \<noteq> rbt_sentinel tree"
proof -
  obtain T where T: "rbtree_holds h tree T" "M = map_of (entries T)" using assms by (auto simp: index_holds_def)
  then have e: "(n, k) \<in> set (entries T)" using assms(2) by (auto dest: map_of_SomeD)
  then show "peek rb_key h n = Some k" using T(1) by (auto simp: rbtree_holds_def focused_def intro: rep_cell)
  have "n \<in> set (addrs T)" using e by (force simp: addrs_entries)
  then show "n \<noteq> rbt_sentinel tree" using T(1) by (auto simp: rbtree_holds_def focused_def apart_def)
qed

lemma index_frame:
  assumes "index_holds h tree M" and "\<And>a. a \<in> insert (rbt_sentinel tree) (dom M) \<Longrightarrow> h' a = h a"
  shows "index_holds h' tree M"
proof -
  obtain T where T: "rbtree_holds h tree T" "M = map_of (entries T)" using assms(1) by (auto simp: index_holds_def)
  have same: "h' a = h a" if "a \<in> insert (rbt_sentinel tree) (set (addrs T))" for a
    using that assms(2) by (simp add: T(2) dom_entries)
  have r: "rep h' s p T = rep h s p T" for s p by (rule rep_cong) (simp add: same)
  have "sentinel_ok h' (rbt_sentinel tree) = sentinel_ok h (rbt_sentinel tree)"
    using same [of "rbt_sentinel tree"] by (simp add: sentinel_ok_def deref_def)
  with r have "rbtree_holds h' tree T" using T(1) by (simp add: rbtree_holds_def focused_def)
  then show ?thesis using T(2) by (auto simp: index_holds_def)
qed

section \<open>The interface of the tree\<close>

locale node_index =
  fixes holds :: "'h \<Rightarrow> 't \<Rightarrow> (addr \<rightharpoonup> 'k) \<Rightarrow> bool"
    and scratch :: "'t \<Rightarrow> addr"
    and key :: "'h \<Rightarrow> addr \<Rightarrow> 'k option"
    and same :: "addr set \<Rightarrow> 'h \<Rightarrow> 'h \<Rightarrow> bool"
    and ins :: "'h \<Rightarrow> 't \<Rightarrow> addr \<Rightarrow> ('h \<times> 't) option"
    and del :: "'h \<Rightarrow> 't \<Rightarrow> addr \<Rightarrow> ('h \<times> 't) option"
    and look :: "'h \<Rightarrow> 't \<Rightarrow> 'k \<Rightarrow> addr option"
  assumes ins_ok: "holds h t M \<Longrightarrow> key h n = Some k \<Longrightarrow> n \<notin> dom M \<Longrightarrow> n \<noteq> scratch t \<Longrightarrow>
      ensures (ins h t n) (\<lambda>(h', t'). holds h' t' (M(n \<mapsto> k)) \<and> scratch t' = scratch t \<and> same (insert n (dom M)) h h')"
    and del_ok: "holds h t M \<Longrightarrow> n \<in> dom M \<Longrightarrow>
      ensures (del h t n) (\<lambda>(h', t'). holds h' t' (M(n := None)) \<and> scratch t' = scratch t \<and>
        same (insert (scratch t) (dom M)) h h')"
    and look_ok: "holds h t M \<Longrightarrow> ensures (look h t k) (\<lambda>n. if k \<in> ran M then M n = Some k else n = NULL)"
    and entry_ok: "holds h t M \<Longrightarrow> M n = Some k \<Longrightarrow> key h n = Some k \<and> n \<noteq> scratch t \<and> n \<noteq> NULL"
    and frame_ok: "holds h t M \<Longrightarrow> same X h h' \<Longrightarrow> scratch t \<notin> X \<Longrightarrow> X \<inter> dom M = {} \<Longrightarrow> holds h' t M"
begin

text \<open>With distinct keys a lookup is exact: it returns the one node that has the key.\<close>

lemma look_exact:
  assumes "holds h t M" "inj_on M (dom M)" "M n = Some k"
  shows "look h t k = Some n"
proof -
  have "k \<in> ran M" using assms(3) by (auto simp: ran_def)
  with look_ok [OF assms(1), of k] obtain n' where n': "look h t k = Some n'" "M n' = Some k"
    by (auto elim!: ensuresE)
  with assms(2,3) have "n' = n" by (metis domI inj_onD)
  with n' show ?thesis by simp
qed

lemma look_none:
  assumes "holds h t M" "k \<notin> ran M"
  shows "look h t k = Some NULL"
  using look_ok [OF assms(1), of k] assms(2) by (auto elim!: ensuresE)

lemma look_found:
  assumes "holds h t M" "look h t k = Some n" "n \<noteq> NULL"
  shows "M n = Some k"
  using look_ok [OF assms(1), of k] assms(2,3) by (auto split: if_splits)

text \<open>Taking a node out and putting it back under another key, as a restart does.\<close>

lemma move_ok:
  assumes "holds h t M" "n \<in> dom M" and other: "\<And>h1. same (insert (scratch t) (dom M)) h h1 \<Longrightarrow>
      key (upd h1) n = Some k \<and> same {n} h1 (upd h1)"
  shows "ensures (Option.bind (del h t n) (\<lambda>(h', t'). ins (upd h') t' n))
    (\<lambda>(h', t'). holds h' t' (M(n \<mapsto> k)) \<and> scratch t' = scratch t)"
proof -
  obtain h1 t1 where d: "del h t n = Some (h1, t1)" "holds h1 t1 (M(n := None))" "scratch t1 = scratch t"
    "same (insert (scratch t) (dom M)) h h1"
    using del_ok [OF assms(1,2)] by (auto elim!: ensuresE)
  have ns: "n \<noteq> scratch t" using entry_ok [OF assms(1)] assms(2) by blast
  have u: "key (upd h1) n = Some k" "same {n} h1 (upd h1)" using other [OF d(4)] by auto
  have "holds (upd h1) t1 (M(n := None))"
    by (rule frame_ok [OF d(2) u(2)]) (use ns d(3) in auto)
  from ins_ok [OF this u(1)] ns d(3) show ?thesis
    by (auto simp: d(1) elim!: ensures_mono)
qed

end

interpretation rb: node_index index_holds rbt_sentinel "peek rb_key" unchanged_outside
  rbtree_insert rbtree_delete rbtree_find
proof
  fix h t M n k
  assume "index_holds h t M" "peek rb_key h n = Some k" "n \<notin> dom M" "n \<noteq> rbt_sentinel t"
  then show "ensures (rbtree_insert h t n) (\<lambda>(h', t'). index_holds h' t' (M(n \<mapsto> k)) \<and>
      rbt_sentinel t' = rbt_sentinel t \<and> unchanged_outside (insert n (dom M)) h h')"
    by (elim peek_SomeE) (simp only:, rule index_insert)
next
  fix h t M n k
  assume h: "index_holds h t M" and "M n = Some k"
  with index_entry [OF this] show "peek rb_key h n = Some k \<and> n \<noteq> rbt_sentinel t \<and> n \<noteq> NULL"
    by (auto simp: peek_def dest: deref_not_NULL)
next
  fix h t M X h'
  assume h: "index_holds h t M" "unchanged_outside X h h'" and X: "rbt_sentinel t \<notin> X" "X \<inter> dom M = {}"
  show "index_holds h' t M"
  proof (rule index_frame [OF h(1)])
    fix a
    assume "a \<in> insert (rbt_sentinel t) (dom M)"
    then have "a \<notin> X" using X by blast
    then show "h' a = h a" using h(2) by (simp add: unchanged_outside_def)
  qed
qed (rule index_delete index_find; assumption)+

section \<open>Minimum and maximum\<close>

lemma rbtree_holds_whole:
  assumes "rbtree_holds h tree T"
  obtains pp where "focused h (rbt_sentinel tree) pp (rbt_root tree) [] T" "sorted (keys T)"
    "rbt_root tree = ptr (rbt_sentinel tree) T" "rbt_root tree = rbt_sentinel tree \<longleftrightarrow> T = Lf"
proof -
  obtain pp where p: "focused h (rbt_sentinel tree) pp (rbt_root tree) [] T" "sorted (keys T)"
    using assms by (auto simp: rbtree_holds_def)
  then have "rbt_root tree = ptr (rbt_sentinel tree) T" "rbt_root tree = rbt_sentinel tree \<longleftrightarrow> T = Lf"
    by (cases T; auto simp: focused_def apart_def)+
  with p show thesis by (rule that)
qed

lemma min_first:
  assumes "rbtree_holds h tree T"
  shows "rbtree_min h tree = Some (case entries T of [] \<Rightarrow> NULL | e # es \<Rightarrow> fst e)"
  using assms
proof (rule rbtree_holds_whole)
  fix pp
  assume f: "focused h (rbt_sentinel tree) pp (rbt_root tree) [] T" and rt: "rbt_root tree = ptr (rbt_sentinel tree) T"
    "rbt_root tree = rbt_sentinel tree \<longleftrightarrow> T = Lf"
  show ?thesis
  proof (cases "T = Lf")
    case False
    then obtain ls m c k y where "T = plug ls (Nd m c k Lf y)" "before ls = []"
      "rbtree_node_min h (rbt_root tree) (rbt_sentinel tree) = Some m"
      using node_min_path [OF f] rt(1) by auto
    with False rt(2) show ?thesis by (simp add: rbtree_min_def Let_def entries_plug)
  qed (use rt in \<open>simp add: rbtree_min_def Let_def\<close>)
qed

lemma max_last:
  assumes "rbtree_holds h tree T"
  shows "rbtree_max h tree = Some (if entries T = [] then NULL else fst (last (entries T)))"
  using assms
proof (rule rbtree_holds_whole)
  fix pp
  assume f: "focused h (rbt_sentinel tree) pp (rbt_root tree) [] T" and rt: "rbt_root tree = ptr (rbt_sentinel tree) T"
    "rbt_root tree = rbt_sentinel tree \<longleftrightarrow> T = Lf"
  show ?thesis
  proof (cases "T = Lf")
    case False
    then obtain ls m c k y where "T = plug ls (Nd m c k y Lf)" "after ls = []"
      "rbtree_node_max h (rbt_root tree) (rbt_sentinel tree) = Some m"
      using node_max_path [OF f] rt(1) by auto
    with False rt(2) show ?thesis by (simp add: rbtree_max_def Let_def entries_plug)
  qed (use rt in \<open>simp add: rbtree_max_def Let_def\<close>)
qed

section \<open>Height\<close>

fun tree_height :: "ptree \<Rightarrow> nat" where
  "tree_height Lf = 0"
| "tree_height (Nd a c k l r) = Suc (max (tree_height l) (tree_height r))"

lemma bheight_size: "invh t \<Longrightarrow> 2 ^ bheight t \<le> Suc (length (entries t))"
  by (induction t) auto

lemma height_bheight: "invc t \<Longrightarrow> invh t \<Longrightarrow> tree_height t \<le> 2 * bheight t + (if red t then 1 else 0)"
  by (induction t) (auto split: if_splits)

lemma height_bound: "rbt t \<Longrightarrow> 2 ^ ((tree_height t + 1) div 2) \<le> Suc (length (entries t))"
proof -
  assume t: "rbt t"
  then have "(tree_height t + 1) div 2 \<le> bheight t" using height_bheight [of t] by (auto simp: rbt_def)
  then have "(2::nat) ^ ((tree_height t + 1) div 2) \<le> 2 ^ bheight t" by (rule power_increasing) simp
  also have "\<dots> \<le> Suc (length (entries t))" using t by (intro bheight_size) (simp add: rbt_def)
  finally show ?thesis .
qed

text \<open>The lookup loop with a bound on its iterations, to state how long it runs.\<close>

fun find_bounded :: "nat \<Rightarrow> rbheap \<Rightarrow> addr \<Rightarrow> 64 word \<Rightarrow> addr \<Rightarrow> addr option" where
  "find_bounded 0 h s key node = (if node \<noteq> s then None else Some NULL)"
| "find_bounded (Suc i) h s key node =
     (if node \<noteq> s then do {
        k \<leftarrow> peek rb_key h node;
        if key < k then do { node \<leftarrow> peek rb_left h node; find_bounded i h s key node }
        else if k < key then do { node \<leftarrow> peek rb_right h node; find_bounded i h s key node }
        else Some node
      } else Some NULL)"

lemma find_bounded_loop: "find_bounded i h s key node = Some n \<Longrightarrow> context_find_loop h s key node = Some n"
proof (induction i arbitrary: node)
  case 0
  then show ?case by (subst context_find_loop.simps) (simp split: if_splits)
next
  case (Suc i)
  then show ?case
    by (subst context_find_loop.simps) (auto simp: bind_eq_Some_conv split: if_splits)
qed

lemma find_bounded_sentinel [simp]: "find_bounded i h s key s = Some NULL"
  by (cases i) simp_all

lemma find_bounded_height:
  assumes "focused h s pp rt fs t" "tree_height t \<le> i"
  shows "find_bounded i h s key (ptr s t) \<noteq> None"
  using assms
proof (induction t arbitrary: fs i)
  case (Nd a c k l r)
  then obtain j where i: "i = Suc j" "tree_height l \<le> j" "tree_height r \<le> j" by (cases i) auto
  have foc: "focused h s pp rt (Fr SLeft a c k r # fs) l" "focused h s pp rt (Fr SRight a c k l # fs) r"
    using Nd.prems(1) by (simp_all add: focused_up)
  have cell: "peek rb_key h a = Some k" "peek rb_left h a = Some (ptr s l)" "peek rb_right h a = Some (ptr s r)"
    using Nd.prems(1) by (auto simp: focused_def peek_def)
  show ?case using Nd.IH(1) [OF foc(1) i(2)] Nd.IH(2) [OF foc(2) i(3)] cell by (auto simp: i(1))
qed simp

lemma find_correct:
  assumes "rbtree_holds h tree T"
  shows "ensures (rbtree_find h tree key)
    (\<lambda>n. if key \<in> set (keys T) then (n, key) \<in> set (entries T) else n = NULL)"
  using assms
proof (rule rbtree_holds_whole)
  fix pp
  assume "focused h (rbt_sentinel tree) pp (rbt_root tree) [] T" "sorted (keys T)"
    and rt: "rbt_root tree = ptr (rbt_sentinel tree) T"
  from find_loop_correct [OF this(1,2), of key] rt show ?thesis by (simp add: rbtree_find_def)
qed

lemma find_within:
  assumes "rbtree_holds h tree T" and k: "length (entries T) + 1 < 2 ^ (k + 1)"
  shows "find_bounded (2 * k) h (rbt_sentinel tree) key (rbt_root tree) = rbtree_find h tree key"
  using assms(1)
proof (rule rbtree_holds_whole)
  fix pp
  assume f: "focused h (rbt_sentinel tree) pp (rbt_root tree) [] T" and rt: "rbt_root tree = ptr (rbt_sentinel tree) T"
  have T: "rbt T" using assms(1) by (simp add: rbtree_holds_def)
  then have "(2::nat) ^ bheight T < 2 ^ (k + 1)" using bheight_size [of T] k by (simp add: rbt_def)
  then have "bheight T < k + 1" by (rule power_less_imp_less_exp [rotated]) simp
  moreover have "tree_height T \<le> 2 * bheight T" using T height_bheight [of T] by (simp add: rbt_def)
  ultimately have "tree_height T \<le> 2 * k" by simp
  then obtain n where n: "find_bounded (2 * k) h (rbt_sentinel tree) key (rbt_root tree) = Some n"
    using find_bounded_height [OF f] rt by auto
  with find_bounded_loop [OF n] show ?thesis by (simp add: rbtree_find_def)
qed

lemma sorted_extreme:
  assumes "sorted (map snd es)" "es \<noteq> []" "e \<in> set es"
  shows "snd (hd es) \<le> snd e" "snd e \<le> snd (last es)"
proof -
  obtain i where i: "i < length es" "e = es ! i" using assms(3) by (auto simp: in_set_conv_nth)
  then show "snd (hd es) \<le> snd e" using sorted_nth_mono [OF assms(1), of 0 i] assms(2) by (simp add: hd_conv_nth)
  show "snd e \<le> snd (last es)"
    using i sorted_nth_mono [OF assms(1), of i "length es - 1"] assms(2) by (simp add: last_conv_nth)
qed

lemma min_max_extreme:
  assumes "rbtree_holds h tree T"
  shows "\<exists>lo hi. rbtree_min h tree = Some lo \<and> rbtree_max h tree = Some hi \<and>
    (if rbtree_empty tree then lo = NULL \<and> hi = NULL
     else \<exists>kl kh. (lo, kl) \<in> set (entries T) \<and> (hi, kh) \<in> set (entries T) \<and>
       list_all (\<lambda>k. kl \<le> k \<and> k \<le> kh) (keys T))"
  using assms
proof (rule rbtree_holds_whole)
  fix pp
  assume sorted: "sorted (keys T)" and rt: "rbt_root tree = rbt_sentinel tree \<longleftrightarrow> T = Lf"
  have empty: "rbtree_empty tree \<longleftrightarrow> entries T = []" unfolding rbtree_empty_def rt by (cases T) simp_all
  show ?thesis
  proof (cases "entries T = []")
    case True
    then show ?thesis using min_first [OF assms] max_last [OF assms] by (simp add: empty)
  next
    case False
    let ?lo = "hd (entries T)" and ?hi = "last (entries T)"
    have "rbtree_min h tree = Some (fst ?lo)" "rbtree_max h tree = Some (fst ?hi)"
      using min_first [OF assms] max_last [OF assms] False by (auto split: list.split)
    moreover have "(fst ?lo, snd ?lo) \<in> set (entries T)" "(fst ?hi, snd ?hi) \<in> set (entries T)" using False by simp_all
    moreover have "list_all (\<lambda>k. snd ?lo \<le> k \<and> k \<le> snd ?hi) (keys T)"
      using sorted_extreme [OF sorted False] by (simp add: list_all_iff)
    ultimately have "\<exists>kl kh. (fst ?lo, kl) \<in> set (entries T) \<and> (fst ?hi, kh) \<in> set (entries T) \<and>
        list_all (\<lambda>k. kl \<le> k \<and> k \<le> kh) (keys T)" by blast
    then show ?thesis using False \<open>rbtree_min h tree = _\<close> \<open>rbtree_max h tree = _\<close> by (simp add: empty)
  qed
qed

section \<open>An example tree\<close>

definition ex_heap :: rbheap where
  "ex_heap = [1 \<mapsto> \<lparr>rb_left = 0, rb_right = 0, rb_parent = 0, rb_key = 0, rb_color = False\<rparr>,
     10 \<mapsto> \<lparr>rb_left = 20, rb_right = 30, rb_parent = 0, rb_key = 5, rb_color = False\<rparr>,
     20 \<mapsto> \<lparr>rb_left = 1, rb_right = 1, rb_parent = 10, rb_key = 3, rb_color = True\<rparr>,
     30 \<mapsto> \<lparr>rb_left = 1, rb_right = 1, rb_parent = 10, rb_key = 8, rb_color = True\<rparr>,
     40 \<mapsto> \<lparr>rb_left = 0, rb_right = 0, rb_parent = 0, rb_key = 7, rb_color = False\<rparr>]"

definition ex_tree :: rbtree where
  "ex_tree = \<lparr>rbt_root = 10, rbt_sentinel = 1\<rparr>"

definition ex_shape :: ptree where
  "ex_shape = Nd 10 False 5 (Nd 20 True 3 Lf Lf) (Nd 30 True 8 Lf Lf)"

lemma ex_holds: "rbtree_holds ex_heap ex_tree ex_shape"
proof -
  have "focused ex_heap 1 0 10 [] ex_shape"
    by (simp add: focused_def ex_heap_def ex_shape_def deref_def apart_def sentinel_ok_def)
  then show ?thesis by (auto simp: rbtree_holds_def ex_tree_def rbt_def ex_shape_def)
qed

section \<open>The properties of the tree\<close>

text \<open>C1: Inserting a node that is not in the tree returns; the heap then holds a balanced red-black search
  tree whose entries are the old ones with the new node after every entry with a key at most its own,
  and no object outside the tree and the new node has changed.\<close>

theorem rbtree_insert_correct:
  assumes "rbtree_holds h tree T" "deref h n = Some nn" "n \<notin> set (addrs T)" "n \<noteq> rbt_sentinel tree"
  shows "ensures (rbtree_insert h tree n) (\<lambda>(h', tree'). \<exists>T'. rbtree_holds h' tree' T' \<and>
    rbt_sentinel tree' = rbt_sentinel tree \<and>
    entries T' = filter (\<lambda>e. snd e \<le> rb_key nn) (entries T) @ (n, rb_key nn) #
                 filter (\<lambda>e. rb_key nn < snd e) (entries T) \<and>
    unchanged_outside (insert n (set (addrs T))) h h')"
  by (rule insert_rbtree_holds [OF assms])

theorem rbtree_insert_correct_witness:
  "ensures (rbtree_insert ex_heap ex_tree 40) (\<lambda>(h', tree'). \<exists>T'. rbtree_holds h' tree' T' \<and>
    entries T' = [(20, 3), (10, 5), (40, 7), (30, 8)])"
  by (rule ensures_mono [OF rbtree_insert_correct [OF ex_holds]])
    (auto simp: ex_heap_def ex_tree_def ex_shape_def deref_def)

text \<open>C2: Deleting a node of the tree returns; the heap then holds a balanced red-black search tree with
  exactly the other entries, in the same order, and no object outside the tree and its sentinel has
  changed.\<close>

theorem rbtree_delete_correct:
  assumes "rbtree_holds h tree T" "n \<in> set (addrs T)"
  shows "ensures (rbtree_delete h tree n) (\<lambda>(h', tree'). (\<exists>T'. rbtree_holds h' tree' T' \<and>
      rbt_sentinel tree' = rbt_sentinel tree \<and> entries T' = filter (\<lambda>e. fst e \<noteq> n) (entries T)) \<and>
    unchanged_outside (insert (rbt_sentinel tree) (set (addrs T))) h h')"
  by (rule ensures_mono [OF delete_rbtree_holds [OF assms]]) (auto simp: deleted_def)

theorem rbtree_delete_correct_witness:
  "ensures (rbtree_delete ex_heap ex_tree 10) (\<lambda>(h', tree'). \<exists>T'. rbtree_holds h' tree' T' \<and>
    entries T' = [(20, 3), (30, 8)])"
  by (rule ensures_mono [OF rbtree_delete_correct [OF ex_holds]])
    (auto simp: ex_heap_def ex_tree_def ex_shape_def deref_def)

text \<open>C3: A lookup returns: a node that has the key when the tree has one, \<open>NULL\<close> otherwise.\<close>

theorem rbtree_find_correct:
  assumes "rbtree_holds h tree T"
  shows "ensures (rbtree_find h tree key)
    (\<lambda>n. if key \<in> set (keys T) then (n, key) \<in> set (entries T) else n = NULL)"
  by (rule find_correct [OF assms])

theorem rbtree_find_correct_witness:
  "rbtree_find ex_heap ex_tree 8 = Some 30 \<and> rbtree_find ex_heap ex_tree 7 = Some NULL"
  using rbtree_find_correct [OF ex_holds, of 8] rbtree_find_correct [OF ex_holds, of 7]
  by (auto simp: ex_shape_def ensures_iff)

text \<open>C4: In a tree of fewer than \<open>2 ^ (k + 1) - 1\<close> nodes the lookup loop ends within \<open>2 * k\<close> iterations.\<close>

theorem rbtree_find_logarithmic:
  assumes "rbtree_holds h tree T" "length (entries T) + 1 < 2 ^ (k + 1)"
  shows "find_bounded (2 * k) h (rbt_sentinel tree) key (rbt_root tree) = rbtree_find h tree key"
  by (rule find_within [OF assms])

theorem rbtree_find_logarithmic_witness:
  "find_bounded 4 ex_heap 1 7 10 = rbtree_find ex_heap ex_tree 7"
  using rbtree_find_logarithmic [OF ex_holds, of 2 7] by (simp add: ex_shape_def ex_tree_def)

text \<open>C5: \<open>rbtree_min\<close> and \<open>rbtree_max\<close> return the first and the last entry, so a node with the least and
  one with the greatest key, and \<open>NULL\<close> for an empty tree.\<close>

theorem rbtree_min_max_correct:
  assumes "rbtree_holds h tree T"
  shows "\<exists>lo hi. rbtree_min h tree = Some lo \<and> rbtree_max h tree = Some hi \<and>
    (if rbtree_empty tree then lo = NULL \<and> hi = NULL
     else \<exists>kl kh. (lo, kl) \<in> set (entries T) \<and> (hi, kh) \<in> set (entries T) \<and>
       list_all (\<lambda>k. kl \<le> k \<and> k \<le> kh) (keys T))"
  by (rule min_max_extreme [OF assms])

theorem rbtree_min_max_correct_witness:
  "\<exists>lo hi. rbtree_min ex_heap ex_tree = Some lo \<and> rbtree_max ex_heap ex_tree = Some hi \<and> lo = 20 \<and> hi = 30"
  using rbtree_min_max_correct [OF ex_holds] by (auto simp: rbtree_empty_def ex_tree_def ex_shape_def)

end
