(* ===== verification/Cmonad.thy ===== *)
theory Cmonad
  imports Prelude
begin

text \<open>
  Statements of the program. A statement takes the state and either has undefined behaviour or does
  not end (\<open>None\<close>), or ends with a state and an outcome: it returns a value, it terminates the process
  with an exit status, or it replaces the process image (\<open>execv\<close>). \<open>bindr\<close> is sequencing: nothing
  runs after an exit. \<open>returns m P s\<close> says that \<open>m\<close> ends from \<open>s\<close> with a value and a state in \<open>P\<close>,
  \<open>ends m P s\<close> that it ends with an outcome and a state in \<open>P\<close>.
\<close>

datatype 'a outcome = Ret 'a | Exit int | Exec

type_synonym ('s, 'a) run = "'s \<Rightarrow> ('a outcome \<times> 's) option"

definition ret :: "'a \<Rightarrow> ('s, 'a) run" where
  "ret x s = Some (Ret x, s)"

definition bindr :: "('s, 'a) run \<Rightarrow> ('a \<Rightarrow> ('s, 'b) run) \<Rightarrow> ('s, 'b) run" where
  "bindr m f s = Option.bind (m s) (\<lambda>(r, s'). case r of Ret x \<Rightarrow> f x s' | Exit c \<Rightarrow> Some (Exit c, s') | Exec \<Rightarrow> Some (Exec, s'))"

definition exit_with :: "int \<Rightarrow> ('s, 'a) run" where
  "exit_with c s = Some (Exit c, s)"

definition stuck :: "('s, 'a) run" where
  "stuck s = None"

definition gets :: "('s \<Rightarrow> 'a) \<Rightarrow> ('s, 'a) run" where
  "gets f s = Some (Ret (f s), s)"

definition modify :: "('s \<Rightarrow> 's) \<Rightarrow> ('s, unit) run" where
  "modify f s = Some (Ret (), f s)"

text \<open>Reading through a pointer, and updating a heap by an operation that may fail.\<close>

definition getsome :: "('s \<Rightarrow> 'a option) \<Rightarrow> ('s, 'a) run" where
  "getsome f s = map_option (\<lambda>x. (Ret x, s)) (f s)"

definition modifysome :: "('s \<Rightarrow> 's option) \<Rightarrow> ('s, unit) run" where
  "modifysome f s = map_option (\<lambda>s'. (Ret (), s')) (f s)"

definition whenr :: "bool \<Rightarrow> ('s, unit) run \<Rightarrow> ('s, unit) run" where
  "whenr b m = (if b then m else ret ())"

lemma mono_bindr [partial_function_mono]:
  assumes "\<And>s. mono_option (\<lambda>f. B f s)" and "\<And>x s. mono_option (\<lambda>f. C f x s)"
  shows "mono_option (\<lambda>f. bindr (B f) (C f) s)"
  unfolding bindr_def
proof (rule bind_mono [OF assms(1)])
  fix p
  show "mono_option (\<lambda>f. case p of (r, s') \<Rightarrow> case r of Ret x \<Rightarrow> C f x s' | Exit c \<Rightarrow> Some (Exit c, s') | Exec \<Rightarrow> Some (Exec, s'))"
    using assms(2) by (cases p; cases "fst p") (simp_all add: option.const_mono)
qed

lemma mono_whenr [partial_function_mono]:
  "mono_option (\<lambda>f. M f s) \<Longrightarrow> mono_option (\<lambda>f. whenr b (M f) s)"
  unfolding whenr_def by (cases b) (simp_all add: option.const_mono)

section \<open>Equations\<close>

named_theorems run_simps \<open>running a statement\<close>

lemma bindr_ret [simp]: "bindr (ret x) f = f x"
  by (rule ext) (simp add: bindr_def ret_def)

lemma bindr_assoc: "bindr (bindr m f) g = bindr m (\<lambda>x. bindr (f x) g)"
  by (rule ext) (auto simp: bindr_def Option.bind_assoc intro!: Option.bind_cong split: outcome.splits)

lemma bindr_Ret [run_simps]: "m s = Some (Ret x, s') \<Longrightarrow> bindr m f s = f x s'"
  by (simp add: bindr_def)

lemma bindr_Exit [run_simps]: "m s = Some (Exit c, s') \<Longrightarrow> bindr m f s = Some (Exit c, s')"
  by (simp add: bindr_def)

lemma bindr_Exec [run_simps]: "m s = Some (Exec, s') \<Longrightarrow> bindr m f s = Some (Exec, s')"
  by (simp add: bindr_def)

lemma bindr_basic [run_simps]:
  "bindr (gets f) g s = g (f s) s"
  "bindr (modify u) k s = k () (u s)"
  "bindr (exit_with c) l s = Some (Exit c, s)"
  "bindr stuck l s = None"
  by (simp_all add: bindr_def gets_def modify_def exit_with_def stuck_def)

lemma bindr_getsome [run_simps]:
  "bindr (getsome f) g s = (case f s of None \<Rightarrow> None | Some x \<Rightarrow> g x s)"
  "bindr (modifysome u) k s = (case u s of None \<Rightarrow> None | Some s' \<Rightarrow> k () s')"
  by (simp_all add: bindr_def getsome_def modifysome_def split: option.split)

lemma whenr_simps [simp]: "whenr True m = m" "whenr False m = ret ()"
  by (simp_all add: whenr_def)

lemma run_ret [run_simps]: "ret x s = Some (Ret x, s)" "modify u s = Some (Ret (), u s)"
  by (simp_all add: ret_def modify_def)

section \<open>Total correctness\<close>

definition ends :: "('s, 'a) run \<Rightarrow> ('a outcome \<Rightarrow> 's \<Rightarrow> bool) \<Rightarrow> 's \<Rightarrow> bool" where
  "ends m P s \<longleftrightarrow> (\<exists>r s'. m s = Some (r, s') \<and> P r s')"

definition returns :: "('s, 'a) run \<Rightarrow> ('a \<Rightarrow> 's \<Rightarrow> bool) \<Rightarrow> 's \<Rightarrow> bool" where
  "returns m P s \<longleftrightarrow> (\<exists>x s'. m s = Some (Ret x, s') \<and> P x s')"

lemma ends_bindr:
  "ends (bindr m f) P s \<longleftrightarrow>
     ends m (\<lambda>r s'. case r of Ret x \<Rightarrow> ends (f x) P s' | Exit c \<Rightarrow> P (Exit c) s' | Exec \<Rightarrow> P Exec s') s"
proof (cases "m s")
  case (Some p)
  obtain r s' where "p = (r, s')" by (cases p)
  with Some show ?thesis by (cases r) (simp_all add: ends_def bindr_def)
qed (simp add: ends_def bindr_def)

lemma ends_mono: "ends m P s \<Longrightarrow> (\<And>r s'. m s = Some (r, s') \<Longrightarrow> P r s' \<Longrightarrow> Q r s') \<Longrightarrow> ends m Q s"
  by (auto simp: ends_def)

lemma returns_mono: "returns m P s \<Longrightarrow> (\<And>x s'. m s = Some (Ret x, s') \<Longrightarrow> P x s' \<Longrightarrow> Q x s') \<Longrightarrow> returns m Q s"
  by (auto simp: returns_def)

lemma returns_ends: "returns m P s \<longleftrightarrow> ends m (\<lambda>r s'. \<exists>x. r = Ret x \<and> P x s') s"
  by (auto simp: ends_def returns_def)

lemma returns_bindr: "returns m (\<lambda>x s'. returns (f x) P s') s \<Longrightarrow> returns (bindr m f) P s"
  by (auto simp: returns_def bindr_def)

lemma returns_ends_bindr: "returns m (\<lambda>x s'. ends (f x) P s') s \<Longrightarrow> ends (bindr m f) P s"
  by (auto simp: returns_def ends_def bindr_def)

lemma returnsE: "returns m P s \<Longrightarrow> (\<And>x s'. m s = Some (Ret x, s') \<Longrightarrow> P x s' \<Longrightarrow> thesis) \<Longrightarrow> thesis"
  by (auto simp: returns_def)

lemma returns_run: "m s = Some (Ret x, s') \<Longrightarrow> P x s' \<Longrightarrow> returns m P s"
  by (auto simp: returns_def)

lemma returns_basic [simp]:
  "returns (ret x) P s \<longleftrightarrow> P x s"
  "returns (gets f) Q s \<longleftrightarrow> Q (f s) s"
  "returns (modify g) R s \<longleftrightarrow> R () (g s)"
  "\<not> returns (exit_with c) P s" "\<not> returns stuck P s"
  by (auto simp: returns_def ret_def gets_def modify_def exit_with_def stuck_def)

lemma ends_basic [simp]:
  "ends (ret x) P s \<longleftrightarrow> P (Ret x) s"
  "ends (gets f) Q s \<longleftrightarrow> Q (Ret (f s)) s"
  "ends (modify g) R s \<longleftrightarrow> R (Ret ()) (g s)"
  "ends (exit_with c) P s \<longleftrightarrow> P (Exit c) s" "\<not> ends stuck P s"
  by (auto simp: ends_def ret_def gets_def modify_def exit_with_def stuck_def)

lemma returns_getsome [simp]: "returns (getsome f) P s \<longleftrightarrow> (\<exists>x. f s = Some x \<and> P x s)"
  by (auto simp: returns_def getsome_def)

lemma returns_modifysome [simp]: "returns (modifysome f) P s \<longleftrightarrow> ensures (f s) (P ())"
  by (auto simp: returns_def modifysome_def ensures_iff)

lemma ends_getsome [simp]: "ends (getsome f) P s \<longleftrightarrow> (\<exists>x. f s = Some x \<and> P (Ret x) s)"
  by (auto simp: ends_def getsome_def)

lemma ends_modifysome [simp]: "ends (modifysome f) P s \<longleftrightarrow> ensures (f s) (P (Ret ()))"
  by (auto simp: ends_def modifysome_def ensures_iff)

end
