(* ===== verification/List_Head.thy ===== *)
theory List_Head
  imports Cmonad
begin

text \<open>
  The circular doubly linked list of \<open>src/list.h\<close> on a heap of \<open>struct list_head\<close> objects, and what
  each operation does to the sequence of nodes behind a list head (\<open>list_holds\<close>). The interface
  \<open>linked_list\<close> is what \<open>conf_gram.y\<close> and \<open>context.c\<close> use of it.
\<close>

record list_head =
  lh_next :: addr
  lh_prev :: addr

type_synonym lheap = "addr \<rightharpoonup> list_head"

section \<open>Operations\<close>

definition INIT_LIST_HEAD :: "lheap \<Rightarrow> addr \<Rightarrow> lheap option" where
  "INIT_LIST_HEAD h p = do {
     h \<leftarrow> poke h p (\<lambda>n. n\<lparr>lh_next := p\<rparr>);
     poke h p (\<lambda>n. n\<lparr>lh_prev := p\<rparr>)
   }"

definition list_add_between :: "lheap \<Rightarrow> addr \<Rightarrow> addr \<Rightarrow> addr \<Rightarrow> lheap option" where
  "list_add_between h new prev next = do {
     h \<leftarrow> poke h next (\<lambda>n. n\<lparr>lh_prev := new\<rparr>);
     h \<leftarrow> poke h new (\<lambda>n. n\<lparr>lh_next := next\<rparr>);
     h \<leftarrow> poke h new (\<lambda>n. n\<lparr>lh_prev := prev\<rparr>);
     poke h prev (\<lambda>n. n\<lparr>lh_next := new\<rparr>)
   }"

definition list_add :: "lheap \<Rightarrow> addr \<Rightarrow> addr \<Rightarrow> lheap option" where
  "list_add h new head = do { next \<leftarrow> peek lh_next h head; list_add_between h new head next }"

definition list_add_tail :: "lheap \<Rightarrow> addr \<Rightarrow> addr \<Rightarrow> lheap option" where
  "list_add_tail h new head = do { prev \<leftarrow> peek lh_prev h head; list_add_between h new prev head }"

definition list_del_between :: "lheap \<Rightarrow> addr \<Rightarrow> addr \<Rightarrow> lheap option" where
  "list_del_between h prev next = do {
     h \<leftarrow> poke h next (\<lambda>n. n\<lparr>lh_prev := prev\<rparr>);
     poke h prev (\<lambda>n. n\<lparr>lh_next := next\<rparr>)
   }"

definition list_del :: "lheap \<Rightarrow> addr \<Rightarrow> lheap option" where
  "list_del h entry = do {
     prev \<leftarrow> peek lh_prev h entry;
     next \<leftarrow> peek lh_next h entry;
     list_del_between h prev next
   }"

definition list_del_init :: "lheap \<Rightarrow> addr \<Rightarrow> lheap option" where
  "list_del_init h entry = do {
     prev \<leftarrow> peek lh_prev h entry;
     next \<leftarrow> peek lh_next h entry;
     h \<leftarrow> list_del_between h prev next;
     INIT_LIST_HEAD h entry
   }"

definition list_empty :: "lheap \<Rightarrow> addr \<Rightarrow> bool option" where
  "list_empty h head = do { next \<leftarrow> peek lh_next h head; Some (next = head) }"

definition list_splice :: "lheap \<Rightarrow> addr \<Rightarrow> addr \<Rightarrow> lheap option" where
  "list_splice h list head = do {
     first \<leftarrow> peek lh_next h list;
     if first \<noteq> list then do {
       last \<leftarrow> peek lh_prev h list;
       at \<leftarrow> peek lh_next h head;
       h \<leftarrow> poke h first (\<lambda>n. n\<lparr>lh_prev := head\<rparr>);
       h \<leftarrow> poke h head (\<lambda>n. n\<lparr>lh_next := first\<rparr>);
       h \<leftarrow> poke h last (\<lambda>n. n\<lparr>lh_next := at\<rparr>);
       poke h at (\<lambda>n. n\<lparr>lh_prev := last\<rparr>)
     } else Some h
   }"

text \<open>The node pointers behind \<open>list_first_entry\<close>, \<open>list_last_entry\<close> and \<open>list_first_entry_or_null\<close>.\<close>

definition list_first_node :: "lheap \<Rightarrow> addr \<Rightarrow> addr option" where
  "list_first_node h head = peek lh_next h head"

definition list_last_node :: "lheap \<Rightarrow> addr \<Rightarrow> addr option" where
  "list_last_node h head = peek lh_prev h head"

definition list_first_node_or_null :: "lheap \<Rightarrow> addr \<Rightarrow> addr option" where
  "list_first_node_or_null h head = do {
     empty \<leftarrow> list_empty h head;
     if \<not> empty then list_first_node h head else Some NULL
   }"

section \<open>The sequence behind a head\<close>

fun links :: "lheap \<Rightarrow> addr \<Rightarrow> addr list \<Rightarrow> addr \<Rightarrow> bool" where
  "links h a [] b \<longleftrightarrow> peek lh_next h a = Some b \<and> peek lh_prev h b = Some a"
| "links h a (x # xs) b \<longleftrightarrow> links h a [] x \<and> links h x xs b"

definition list_holds :: "lheap \<Rightarrow> addr \<Rightarrow> addr list \<Rightarrow> bool" where
  "list_holds h head xs \<longleftrightarrow> distinct (head # xs) \<and> links h head xs head"

lemma links_append: "links h a (xs @ y # ys) b \<longleftrightarrow> links h a xs y \<and> links h y ys b"
  by (induction xs arbitrary: a) auto

lemma links_cong:
  assumes "\<And>x. x \<in> set (a # xs) \<Longrightarrow> peek lh_next h' x = peek lh_next h x"
    and "\<And>x. x \<in> set (xs @ [b]) \<Longrightarrow> peek lh_prev h' x = peek lh_prev h x"
  shows "links h' a xs b = links h a xs b"
  using assms by (induction xs arbitrary: a) auto

lemma links_ends:
  assumes "links h a xs b"
  shows "peek lh_next h a = Some (hd (xs @ [b]))" "peek lh_prev h b = Some (last (a # xs))"
  using assms by (induction xs arbitrary: a) auto

lemma links_alloc: "links h a xs b \<Longrightarrow> x \<in> set (a # xs @ [b]) \<Longrightarrow> \<exists>v. deref h x = Some v"
  by (induction xs arbitrary: a) (auto simp: peek_def)

text \<open>The next and prev pointers are two maps; an assignment changes one of them at one node.\<close>

lemma poke_next:
  assumes "deref h p = Some v"
  shows "poke h p (\<lambda>n. n\<lparr>lh_next := x\<rparr>) = Some (h(p \<mapsto> v\<lparr>lh_next := x\<rparr>))"
    "peek lh_next (h(p \<mapsto> v\<lparr>lh_next := x\<rparr>)) a = (if a = p then Some x else peek lh_next h a)"
    "peek lh_prev (h(p \<mapsto> v\<lparr>lh_next := x\<rparr>)) a = peek lh_prev h a"
  using assms by (auto simp: poke_def peek_def deref_upd dest: deref_not_NULL)

lemma poke_prev:
  assumes "deref h p = Some v"
  shows "poke h p (\<lambda>n. n\<lparr>lh_prev := x\<rparr>) = Some (h(p \<mapsto> v\<lparr>lh_prev := x\<rparr>))"
    "peek lh_prev (h(p \<mapsto> v\<lparr>lh_prev := x\<rparr>)) a = (if a = p then Some x else peek lh_prev h a)"
    "peek lh_next (h(p \<mapsto> v\<lparr>lh_prev := x\<rparr>)) a = peek lh_next h a"
  using assms by (auto simp: poke_def peek_def deref_upd dest: deref_not_NULL)

definition same_outside :: "addr set \<Rightarrow> lheap \<Rightarrow> lheap \<Rightarrow> bool" where
  "same_outside X h h' \<longleftrightarrow> (\<forall>a. a \<notin> X \<longrightarrow> h' a = h a)"

lemma same_outside_upd: "same_outside X h h' \<Longrightarrow> a \<in> X \<Longrightarrow> same_outside X h (h'(a := v))"
  by (simp add: same_outside_def)

lemma same_outside_refl [simp]: "same_outside X h h"
  by (simp add: same_outside_def)

lemma same_outside_mono: "same_outside X h h' \<Longrightarrow> X \<subseteq> Y \<Longrightarrow> same_outside Y h h'"
  unfolding same_outside_def by blast

lemma same_outside_step: "same_outside X h h1 \<Longrightarrow> same_outside {p} h1 h2 \<Longrightarrow> p \<in> X \<Longrightarrow> same_outside X h h2"
  unfolding same_outside_def by (metis singletonD)

abbreviation nx :: "lheap \<Rightarrow> addr \<rightharpoonup> addr" where
  "nx h \<equiv> peek lh_next h"

abbreviation pv :: "lheap \<Rightarrow> addr \<rightharpoonup> addr" where
  "pv h \<equiv> peek lh_prev h"

lemma nx_pv: "nx h p = None \<longleftrightarrow> pv h p = None"
  by (simp add: peek_def)

lemma step_next:
  assumes "nx h p \<noteq> None"
  obtains h' where "poke h p (\<lambda>n. n\<lparr>lh_next := x\<rparr>) = Some h'" "nx h' = (nx h)(p \<mapsto> x)"
    "pv h' = pv h" "same_outside {p} h h'"
proof -
  obtain v where v: "deref h p = Some v" using assms by (auto simp: peek_def)
  show thesis
    using poke_next [OF v, of x] by (intro that [of "h(p \<mapsto> v\<lparr>lh_next := x\<rparr>)"]) (auto simp: fun_eq_iff same_outside_def)
qed

lemma step_prev:
  assumes "nx h p \<noteq> None"
  obtains h' where "poke h p (\<lambda>n. n\<lparr>lh_prev := x\<rparr>) = Some h'" "pv h' = (pv h)(p \<mapsto> x)"
    "nx h' = nx h" "same_outside {p} h h'"
proof -
  obtain v where v: "deref h p = Some v" using assms by (auto simp: peek_def)
  show thesis
    using poke_prev [OF v, of x] by (intro that [of "h(p \<mapsto> v\<lparr>lh_prev := x\<rparr>)"]) (auto simp: fun_eq_iff same_outside_def)
qed

lemma links_maps: "nx h' = nx h \<Longrightarrow> pv h' = pv h \<Longrightarrow> links h' a xs b = links h a xs b"
  by (rule links_cong) simp_all

section \<open>Insertion between two nodes and removal\<close>

lemma list_add_between_maps:
  assumes "nx h new \<noteq> None" "nx h prev \<noteq> None" "nx h next \<noteq> None"
  shows "ensures (list_add_between h new prev next) (\<lambda>h'. nx h' = (nx h)(new \<mapsto> next, prev \<mapsto> new) \<and>
    pv h' = (pv h)(next \<mapsto> new, new \<mapsto> prev) \<and> same_outside {new, prev, next} h h')"
proof -
  obtain h1 where h1: "poke h next (\<lambda>n. n\<lparr>lh_prev := new\<rparr>) = Some h1" "pv h1 = (pv h)(next \<mapsto> new)"
    "nx h1 = nx h" "same_outside {next} h h1" using assms(3) by (rule step_prev)
  have "nx h1 new \<noteq> None" using assms(1) h1 by simp
  then obtain h2 where h2: "poke h1 new (\<lambda>n. n\<lparr>lh_next := next\<rparr>) = Some h2" "nx h2 = (nx h1)(new \<mapsto> next)"
    "pv h2 = pv h1" "same_outside {new} h1 h2" by (rule step_next)
  have "nx h2 new \<noteq> None" using h2 by simp
  then obtain h3 where h3: "poke h2 new (\<lambda>n. n\<lparr>lh_prev := prev\<rparr>) = Some h3" "pv h3 = (pv h2)(new \<mapsto> prev)"
    "nx h3 = nx h2" "same_outside {new} h2 h3" by (rule step_prev)
  have "nx h3 prev \<noteq> None" using assms(2) h1 h2 h3 by simp
  then obtain h4 where h4: "poke h3 prev (\<lambda>n. n\<lparr>lh_next := new\<rparr>) = Some h4" "nx h4 = (nx h3)(prev \<mapsto> new)"
    "pv h4 = pv h3" "same_outside {prev} h3 h4" by (rule step_next)
  have "same_outside {new, prev, next} h h4"
    using h1(4) h2(4) h3(4) h4(4) unfolding same_outside_def by (metis insertCI singletonD)
  then show ?thesis by (simp add: list_add_between_def h1 h2 h3 h4)
qed

lemma list_del_between_maps:
  assumes "nx h prev \<noteq> None" "nx h next \<noteq> None"
  shows "ensures (list_del_between h prev next) (\<lambda>h'. nx h' = (nx h)(prev \<mapsto> next) \<and>
    pv h' = (pv h)(next \<mapsto> prev) \<and> same_outside {prev, next} h h')"
proof -
  obtain h1 where h1: "poke h next (\<lambda>n. n\<lparr>lh_prev := prev\<rparr>) = Some h1" "pv h1 = (pv h)(next \<mapsto> prev)"
    "nx h1 = nx h" "same_outside {next} h h1" using assms(2) by (rule step_prev)
  have "nx h1 prev \<noteq> None" using assms(1) h1 by simp
  then obtain h2 where h2: "poke h1 prev (\<lambda>n. n\<lparr>lh_next := next\<rparr>) = Some h2" "nx h2 = (nx h1)(prev \<mapsto> next)"
    "pv h2 = pv h1" "same_outside {prev} h1 h2" by (rule step_next)
  have "same_outside {prev, next} h h2"
    using h1(4) h2(4) unfolding same_outside_def by (metis insertCI singletonD)
  then show ?thesis by (simp add: list_del_between_def h1 h2)
qed

text \<open>Cutting the ring of a head at a position: the nodes before it, and those after it.\<close>

lemma list_holds_split:
  "list_holds h head (xs @ ys) \<longleftrightarrow> distinct (head # xs @ ys) \<and>
     (case ys of [] \<Rightarrow> links h head xs head | y # zs \<Rightarrow> links h head xs y \<and> links h y zs head)"
  by (auto simp: list_holds_def links_append split: list.split)

lemma last_Cons_in: "last (a # xs) \<in> set (a # xs)"
  by simp

lemma hd_snoc_in: "hd (ys @ [b]) \<in> set (ys @ [b])"
  by (cases ys) simp_all

lemma links_nx_alloc: "links h a xs b \<Longrightarrow> x \<in> set (a # xs @ [b]) \<Longrightarrow> nx h x \<noteq> None"
  using links_alloc [of h a xs b x] by (auto simp: peek_def)

text \<open>Insertion of \<open>n\<close> at any position of a ring, given by the nodes before and after it.\<close>

lemma links_snoc: "links h a (xs @ [x]) b \<longleftrightarrow> links h a xs x \<and> links h x [] b"
  by (rule links_append)

lemma insert_at:
  assumes holds: "list_holds h head (xs @ ys)" and n: "nx h n \<noteq> None" "n \<notin> set (head # xs @ ys)"
  shows "ensures (list_add_between h n (last (head # xs)) (hd (ys @ [head])))
    (\<lambda>h'. list_holds h' head (xs @ n # ys) \<and> same_outside (set (head # n # xs @ ys)) h h')"
proof -
  let ?p = "last (head # xs)" and ?q = "hd (ys @ [head])"
  have ring: "links h head (xs @ ys) head" and d: "distinct (head # xs @ ys)"
    using holds by (auto simp: list_holds_def)
  have p: "?p \<in> set (head # xs)" and q: "?q \<in> set (ys @ [head])" by (rule last_Cons_in hd_snoc_in)+
  have "nx h ?p \<noteq> None" "nx h ?q \<noteq> None" using links_nx_alloc [OF ring] p q by auto
  from list_add_between_maps [OF n(1) this] show ?thesis
  proof (rule ensures_mono, elim conjE, intro conjI)
    fix h'
    assume nx: "nx h' = (nx h)(n \<mapsto> ?q, ?p \<mapsto> n)" and pv: "pv h' = (pv h)(?q \<mapsto> n, n \<mapsto> ?p)"
      and same: "same_outside {n, ?p, ?q} h h'"
    have np: "n \<noteq> ?p" "n \<noteq> ?q" using n(2) p q by auto
    have "links h' head xs n"
    proof (cases xs rule: rev_cases)
      case Nil
      then show ?thesis using np by (simp add: nx pv)
    next
      case (snoc us u)
      have "links h head us u" using ring unfolding snoc by (simp add: links_append)
      moreover have "links h' head us u = links h head us u"
        by (rule links_cong) (use d n(2) q in \<open>auto simp: nx pv snoc\<close>)
      ultimately show ?thesis using snoc np by (simp add: links_snoc nx pv)
    qed
    moreover have "links h' n ys head"
    proof (cases ys)
      case Nil
      then show ?thesis using np by (simp add: nx pv)
    next
      case (Cons v vs)
      have "links h v vs head" using ring unfolding Cons by (simp add: links_append)
      moreover have "links h' v vs head = links h v vs head"
        by (rule links_cong) (use d n(2) p in \<open>auto simp: nx pv Cons\<close>)
      ultimately show ?thesis using Cons np by (simp add: nx pv)
    qed
    ultimately show "list_holds h' head (xs @ n # ys)"
      using d n(2) by (auto simp: list_holds_def links_append)
    show "same_outside (set (head # n # xs @ ys)) h h'"
      using same p q unfolding same_outside_def by auto
  qed
qed

lemma links_last: "links h a (xs @ x # ys) b \<Longrightarrow> pv h x = Some (last (a # xs))"
  by (drule iffD1 [OF links_append]) (auto dest: links_ends(2))

lemma links_hd: "links h a (xs @ x # ys) b \<Longrightarrow> nx h x = Some (hd (ys @ [b]))"
  by (drule iffD1 [OF links_append]) (auto dest: links_ends(1))

lemma remove_at:
  assumes holds: "list_holds h head (xs @ n # ys)"
  shows "pv h n = Some (last (head # xs))" "nx h n = Some (hd (ys @ [head]))"
    and "ensures (list_del_between h (last (head # xs)) (hd (ys @ [head])))
    (\<lambda>h'. list_holds h' head (xs @ ys) \<and> same_outside (set (head # xs @ ys)) h h')"
proof -
  let ?p = "last (head # xs)" and ?q = "hd (ys @ [head])"
  have ring: "links h head (xs @ n # ys) head" and d: "distinct (head # xs @ n # ys)"
    using holds by (auto simp: list_holds_def)
  show "pv h n = Some ?p" "nx h n = Some ?q" by (rule links_last [OF ring] links_hd [OF ring])+
  have p: "?p \<in> set (head # xs)" and q: "?q \<in> set (ys @ [head])" by (rule last_Cons_in hd_snoc_in)+
  have "nx h ?p \<noteq> None" "nx h ?q \<noteq> None" using links_nx_alloc [OF ring] p q by auto
  from list_del_between_maps [OF this]
  show "ensures (list_del_between h ?p ?q) (\<lambda>h'. list_holds h' head (xs @ ys) \<and> same_outside (set (head # xs @ ys)) h h')"
  proof (rule ensures_mono, elim conjE, intro conjI)
    fix h'
    assume nx: "nx h' = (nx h)(?p \<mapsto> ?q)" and pv: "pv h' = (pv h)(?q \<mapsto> ?p)" and same: "same_outside {?p, ?q} h h'"
    have front: "links h' head us u" if "xs = us @ [u]" for us u
    proof -
      have "links h head us u" using ring unfolding that by (simp add: links_append)
      moreover have "links h' head us u = links h head us u"
        by (rule links_cong) (use d that q in \<open>auto simp: nx pv\<close>)
      ultimately show ?thesis by simp
    qed
    have rear: "links h' v vs head" if "ys = v # vs" for v vs
    proof -
      have "links h v vs head" using ring unfolding that by (simp add: links_append)
      moreover have "links h' v vs head = links h v vs head"
        by (rule links_cong) (use d that p in \<open>auto simp: nx pv\<close>)
      ultimately show ?thesis by simp
    qed
    have mid: "nx h' ?p = Some ?q" "pv h' ?q = Some ?p" by (simp_all add: nx pv)
    have "links h' head (xs @ ys) head"
    proof (cases xs rule: rev_cases)
      case Nil
      then show ?thesis using mid rear by (cases ys) auto
    next
      case (snoc us u)
      then show ?thesis using mid front rear by (cases ys) (auto simp: links_append)
    qed
    then show "list_holds h' head (xs @ ys)" using d by (auto simp: list_holds_def)
    show "same_outside (set (head # xs @ ys)) h h'"
      by (rule same_outside_mono [OF same]) (use p q in auto)
  qed
qed

section \<open>What the operations do to the sequence\<close>

lemma list_init_holds:
  assumes "nx h p \<noteq> None"
  shows "ensures (INIT_LIST_HEAD h p) (\<lambda>h'. list_holds h' p [] \<and> same_outside {p} h h')"
proof -
  obtain h1 where h1: "poke h p (\<lambda>n. n\<lparr>lh_next := p\<rparr>) = Some h1" "nx h1 = (nx h)(p \<mapsto> p)"
    "pv h1 = pv h" "same_outside {p} h h1" using assms by (rule step_next)
  have "nx h1 p \<noteq> None" using h1 by simp
  then obtain h2 where h2: "poke h1 p (\<lambda>n. n\<lparr>lh_prev := p\<rparr>) = Some h2" "pv h2 = (pv h1)(p \<mapsto> p)"
    "nx h2 = nx h1" "same_outside {p} h1 h2" by (rule step_prev)
  have "same_outside {p} h h2" using h1(4) h2(4) by (simp add: same_outside_def)
  then show ?thesis by (simp add: INIT_LIST_HEAD_def h1 h2 list_holds_def)
qed

lemma list_add_holds:
  assumes "list_holds h head xs" "nx h n \<noteq> None" "n \<notin> set (head # xs)"
  shows "ensures (list_add h n head) (\<lambda>h'. list_holds h' head (n # xs) \<and> same_outside (set (head # n # xs)) h h')"
  using insert_at [of h head "[]" xs n] assms links_ends(1) [of h head xs head]
  by (simp add: list_add_def list_holds_def)

lemma list_add_tail_holds:
  assumes "list_holds h head xs" "nx h n \<noteq> None" "n \<notin> set (head # xs)"
  shows "ensures (list_add_tail h n head) (\<lambda>h'. list_holds h' head (xs @ [n]) \<and> same_outside (set (head # n # xs)) h h')"
  using insert_at [of h head xs "[]" n] assms links_ends(2) [of h head xs head]
  by (simp add: list_add_tail_def list_holds_def)

lemma list_del_holds:
  assumes "list_holds h head (xs @ n # ys)"
  shows "ensures (list_del h n) (\<lambda>h'. list_holds h' head (xs @ ys) \<and> same_outside (set (head # xs @ ys)) h h')"
  using remove_at [OF assms] by (simp add: list_del_def)

lemma list_holds_frame: "list_holds h head xs \<Longrightarrow> same_outside X h h' \<Longrightarrow> X \<inter> set (head # xs) = {} \<Longrightarrow> list_holds h' head xs"
  unfolding list_holds_def
  by (subst links_cong [of head xs h' h head]) (auto simp: same_outside_def peek_def deref_def)

lemma list_del_init_holds:
  assumes "list_holds h head (xs @ n # ys)"
  shows "ensures (list_del_init h n) (\<lambda>h'. list_holds h' head (xs @ ys) \<and> list_holds h' n [] \<and>
    same_outside (set (head # xs @ n # ys)) h h')"
proof -
  have n: "n \<notin> set (head # xs @ ys)" using assms by (auto simp: list_holds_def)
  obtain h1 where h1: "list_del_between h (last (head # xs)) (hd (ys @ [head])) = Some h1"
    "list_holds h1 head (xs @ ys)" "same_outside (set (head # xs @ ys)) h h1"
    using remove_at(3) [OF assms] by (rule ensuresE) auto
  have "nx h1 n = nx h n" using h1(3) n by (auto simp: same_outside_def peek_def deref_def)
  then have "nx h1 n \<noteq> None" using remove_at(2) [OF assms] by simp
  from list_init_holds [OF this] obtain h2 where h2: "INIT_LIST_HEAD h1 n = Some h2" "list_holds h2 n []"
    "same_outside {n} h1 h2" by (rule ensuresE) auto
  have "list_holds h2 head (xs @ ys)" using h1(2) h2(3) by (rule list_holds_frame) (use n in auto)
  moreover have "same_outside (set (head # xs @ n # ys)) h h2"
    using h1(3) h2(3) unfolding same_outside_def by auto
  ultimately show ?thesis
    using h2(2) unfolding list_del_init_def remove_at(1,2) [OF assms] Option.bind.simps h1(1) h2(1) by simp
qed

lemma list_empty_holds: "list_holds h head xs \<Longrightarrow> list_empty h head = Some (xs = [])"
  by (cases xs) (auto simp: list_empty_def list_holds_def)

lemma list_first_last_holds:
  "list_holds h head xs \<Longrightarrow> list_first_node_or_null h head = Some (case xs of [] \<Rightarrow> NULL | x # _ \<Rightarrow> x)"
  "list_holds h head xs \<Longrightarrow> xs \<noteq> [] \<Longrightarrow> list_last_node h head = Some (last xs)"
  using links_ends(2) [of h head xs head]
  by (auto simp: list_first_node_or_null_def list_empty_holds list_first_node_def list_holds_def list_last_node_def
      split: list.split)

lemma list_splice_holds:
  assumes list: "list_holds h l xs" and head: "list_holds h head ys" and apart: "set (l # xs) \<inter> set (head # ys) = {}"
  shows "ensures (list_splice h l head) (\<lambda>h'. list_holds h' head (xs @ ys) \<and> same_outside (set (head # xs @ ys)) h h')"
proof (cases xs)
  case Nil
  then have "nx h l = Some l" using list by (simp add: list_holds_def)
  with Nil head show ?thesis by (simp add: list_splice_def same_outside_def)
next
  case (Cons f fs)
  let ?at = "hd (ys @ [head])" and ?last = "last (l # xs)"
  have lr: "links h l xs l" and hr: "links h head ys head" and d: "distinct (l # xs)" "distinct (head # ys)"
    using list head by (auto simp: list_holds_def)
  have f: "nx h l = Some f" "f \<noteq> l" and lst: "pv h l = Some ?last" and at: "nx h head = Some ?at"
    using links_ends [OF lr] links_ends [OF hr] Cons d by auto
  have lin: "?last \<in> set xs" "?last = last xs" using Cons by auto
  have ain: "?at \<in> set (head # ys)" using hd_snoc_in [of ys head] by auto
  have alloc: "nx h f \<noteq> None" "nx h head \<noteq> None" "nx h ?last \<noteq> None" "nx h ?at \<noteq> None"
    using links_nx_alloc [OF lr] links_nx_alloc [OF hr] lin ain Cons by auto
  obtain h1 where h1: "poke h f (\<lambda>n. n\<lparr>lh_prev := head\<rparr>) = Some h1" "pv h1 = (pv h)(f \<mapsto> head)"
    "nx h1 = nx h" "same_outside {f} h h1" using alloc(1) by (rule step_prev)
  have "nx h1 head \<noteq> None" using alloc h1 by simp
  then obtain h2 where h2: "poke h1 head (\<lambda>n. n\<lparr>lh_next := f\<rparr>) = Some h2" "nx h2 = (nx h1)(head \<mapsto> f)"
    "pv h2 = pv h1" "same_outside {head} h1 h2" by (rule step_next)
  have "nx h2 ?last \<noteq> None" using alloc h1 h2 by simp
  then obtain h3 where h3: "poke h2 ?last (\<lambda>n. n\<lparr>lh_next := ?at\<rparr>) = Some h3" "nx h3 = (nx h2)(?last \<mapsto> ?at)"
    "pv h3 = pv h2" "same_outside {?last} h2 h3" by (rule step_next)
  have "nx h3 ?at \<noteq> None" using alloc h1 h2 h3 by simp
  then obtain h4 where h4: "poke h3 ?at (\<lambda>n. n\<lparr>lh_prev := ?last\<rparr>) = Some h4" "pv h4 = (pv h3)(?at \<mapsto> ?last)"
    "nx h4 = nx h3" "same_outside {?at} h3 h4" by (rule step_prev)
  have nx: "nx h4 = (nx h)(head \<mapsto> f, ?last \<mapsto> ?at)" and pv: "pv h4 = (pv h)(f \<mapsto> head, ?at \<mapsto> ?last)"
    using h1 h2 h3 h4 by simp_all
  have neq: "f \<noteq> ?at" "?last \<noteq> head" using apart Cons lin(1) ain by auto
  have "links h f (butlast fs) ?last" if "fs \<noteq> []"
    using lr that links_snoc [of h f "butlast fs" "last fs" l] Cons by simp
  have disj: "z \<in> set xs \<Longrightarrow> z \<notin> set (head # ys)" for z using apart by auto
  have front: "links h4 head xs ?at"
  proof (cases fs rule: rev_cases)
    case Nil
    then show ?thesis using neq Cons by (simp add: nx pv)
  next
    case (snoc us u)
    have xs: "xs = f # us @ [u]" "?last = u" using Cons snoc by simp_all
    have "links h f us u" using lr unfolding xs by (simp add: links_append)
    moreover have "links h4 f us u = links h f us u"
      by (rule links_cong) (use d disj ain xs in \<open>auto simp: nx pv\<close>)
    ultimately show ?thesis using neq xs by (auto simp: links_append nx pv)
  qed
  have whole: "links h4 head (xs @ ys) head"
  proof (cases ys)
    case Nil
    then show ?thesis using front by simp
  next
    case (Cons v vs)
    have "links h v vs head" using hr unfolding Cons by simp
    moreover have "links h4 v vs head = links h v vs head"
    proof (rule links_cong)
      have "?last \<notin> set (v # vs)" "f \<notin> set vs" "v \<notin> set vs" "head \<notin> set (v # vs)" "head \<noteq> f"
        using disj [of ?last] disj [of f] lin d Cons \<open>xs = f # fs\<close> by auto
      then show "x \<in> set (v # vs) \<Longrightarrow> nx h4 x = nx h x" "x \<in> set (vs @ [head]) \<Longrightarrow> pv h4 x = pv h x" for x
        using Cons by (auto simp: nx pv)
    qed
    ultimately show ?thesis using front Cons by (simp add: links_append)
  qed
  moreover have "distinct (head # xs @ ys)" using d apart by auto
  moreover have "same_outside (set (head # xs @ ys)) h h4"
  proof -
    let ?X = "set (head # xs @ ys)"
    have X: "f \<in> ?X" "head \<in> ?X" "?last \<in> ?X" "?at \<in> ?X" using lin(1) ain Cons by auto
    have "same_outside ?X h h1" using same_outside_refl h1(4) X(1) by (rule same_outside_step)
    then have "same_outside ?X h h2" using h2(4) X(2) by (rule same_outside_step)
    then have "same_outside ?X h h3" using h3(4) X(3) by (rule same_outside_step)
    then show ?thesis using h4(4) X(4) by (rule same_outside_step)
  qed
  moreover have "list_splice h l head = Some h4"
    using f(2) by (simp only: list_splice_def f(1) lst at h1(1) h2(1) h3(1) h4(1) Option.bind.simps if_True simp_thms)
  ultimately show ?thesis by (simp add: list_holds_def)
qed

section \<open>Iteration\<close>

lemma hd_snoc2 [simp]: "hd (ys @ [b, a]) = hd (ys @ [b])"
  by (cases ys) simp_all

text \<open>\<open>list_for_each\<close> and \<open>list_for_each_safe\<close> with the body of the loop as a statement.\<close>

partial_function (option) list_for_each_from ::
  "('s \<Rightarrow> lheap) \<Rightarrow> (addr \<Rightarrow> ('s, unit) run) \<Rightarrow> addr \<Rightarrow> addr \<Rightarrow> ('s, unit) run" where
  "list_for_each_from heap body head pos s =
     (if pos \<noteq> head then
        bindr (body pos) (\<lambda>_.
        bindr (getsome (\<lambda>s. peek lh_next (heap s) pos)) (\<lambda>pos.
        list_for_each_from heap body head pos)) s
      else Some (Ret (), s))"

definition list_for_each :: "('s \<Rightarrow> lheap) \<Rightarrow> addr \<Rightarrow> (addr \<Rightarrow> ('s, unit) run) \<Rightarrow> ('s, unit) run" where
  "list_for_each heap head body =
     bindr (getsome (\<lambda>s. peek lh_next (heap s) head)) (\<lambda>pos. list_for_each_from heap body head pos)"

partial_function (option) list_for_each_safe_from ::
  "('s \<Rightarrow> lheap) \<Rightarrow> (addr \<Rightarrow> ('s, unit) run) \<Rightarrow> addr \<Rightarrow> addr \<Rightarrow> addr \<Rightarrow> ('s, unit) run" where
  "list_for_each_safe_from heap body head pos n s =
     (if pos \<noteq> head then
        bindr (body pos) (\<lambda>_.
        bindr (getsome (\<lambda>s. peek lh_next (heap s) n)) (\<lambda>n'.
        list_for_each_safe_from heap body head n n')) s
      else Some (Ret (), s))"

definition list_for_each_safe :: "('s \<Rightarrow> lheap) \<Rightarrow> addr \<Rightarrow> (addr \<Rightarrow> ('s, unit) run) \<Rightarrow> ('s, unit) run" where
  "list_for_each_safe heap head body =
     bindr (getsome (\<lambda>s. peek lh_next (heap s) head)) (\<lambda>pos.
     bindr (getsome (\<lambda>s. peek lh_next (heap s) pos)) (\<lambda>n.
     list_for_each_safe_from heap body head pos n))"

text \<open>The rule of the loop: the body sees every node once, in order, if it leaves the ring alone.\<close>

lemma for_each_from_ends:
  assumes "I done s" and "xs = done @ rest"
    and ring: "\<And>done s. I done s \<Longrightarrow> list_holds (heap s) head xs"
    and body: "\<And>done x rest s. xs = done @ x # rest \<Longrightarrow> I done s \<Longrightarrow>
      ends (body x) (\<lambda>r s'. case r of Ret _ \<Rightarrow> I (done @ [x]) s' | Exit c \<Rightarrow> Q (Exit c) s' | Exec \<Rightarrow> Q Exec s') s"
  shows "ends (list_for_each_from heap body head (hd (rest @ [head])))
    (\<lambda>r s'. case r of Ret _ \<Rightarrow> I xs s' | Exit c \<Rightarrow> Q (Exit c) s' | Exec \<Rightarrow> Q Exec s') s"
  using assms(1,2)
proof (induction rest arbitrary: "done" s)
  case Nil
  then show ?case by (simp add: ends_def list_for_each_from.simps [of heap body head head])
next
  case (Cons x rest)
  have d: "x \<noteq> head" using ring [OF Cons.prems(1)] Cons.prems(2) by (auto simp: list_holds_def)
  have step: "list_for_each_from heap body head x s =
      bindr (body x) (\<lambda>_. bindr (getsome (\<lambda>s. nx (heap s) x)) (list_for_each_from heap body head)) s"
    using d by (subst list_for_each_from.simps) simp
  have next_in: "nx (heap s') x = Some (hd (rest @ [head]))" if "I (done @ [x]) s'" for s'
    using ring [OF that] Cons.prems(2) links_hd [of "heap s'" head "done" x rest head] by (auto simp: list_holds_def)
  obtain r s' where b: "body x s = Some (r, s')"
    and r: "case r of Ret _ \<Rightarrow> I (done @ [x]) s' | Exit c \<Rightarrow> Q (Exit c) s' | Exec \<Rightarrow> Q Exec s'"
    using body [OF Cons.prems(2,1)] by (auto simp: ends_def)
  show ?case
  proof (cases r)
    case (Ret u)
    then show ?thesis
      using r b next_in [of s'] Cons.IH [of "done @ [x]" s'] Cons.prems(2)
      by (simp add: ends_def step bindr_def getsome_def)
  qed (use r b in \<open>simp_all add: ends_def step bindr_def\<close>)
qed

lemma list_for_each_ends:
  assumes "I [] s" and ring: "\<And>done s. I done s \<Longrightarrow> list_holds (heap s) head xs"
    and body: "\<And>done x rest s. xs = done @ x # rest \<Longrightarrow> I done s \<Longrightarrow>
      ends (body x) (\<lambda>r s'. case r of Ret _ \<Rightarrow> I (done @ [x]) s' | Exit c \<Rightarrow> Q (Exit c) s' | Exec \<Rightarrow> Q Exec s') s"
  shows "ends (list_for_each heap head body)
    (\<lambda>r s'. case r of Ret _ \<Rightarrow> I xs s' | Exit c \<Rightarrow> Q (Exit c) s' | Exec \<Rightarrow> Q Exec s') s"
proof -
  have "nx (heap s) head = Some (hd (xs @ [head]))"
    using ring [OF assms(1)] links_ends(1) by (auto simp: list_holds_def)
  then show ?thesis
    using for_each_from_ends [OF assms(1) _ ring body, of xs] by (simp add: list_for_each_def ends_bindr)
qed

lemma list_for_each_returns:
  assumes "I [] s" and ring: "\<And>done s. I done s \<Longrightarrow> list_holds (heap s) head xs"
    and body: "\<And>done x rest s. xs = done @ x # rest \<Longrightarrow> I done s \<Longrightarrow> returns (body x) (\<lambda>_. I (done @ [x])) s"
  shows "returns (list_for_each heap head body) (\<lambda>_. I xs) s"
proof -
  have "ends (list_for_each heap head body)
    (\<lambda>r s'. case r of Ret _ \<Rightarrow> I xs s' | Exit c \<Rightarrow> False | Exec \<Rightarrow> False) s"
  proof (rule list_for_each_ends [where I = I and Q = "\<lambda>_ _. False"])
    fix "done" x rest s
    assume "xs = done @ x # rest" "I done s"
    from body [OF this] show "ends (body x)
      (\<lambda>r s'. case r of Ret _ \<Rightarrow> I (done @ [x]) s' | Exit c \<Rightarrow> False | Exec \<Rightarrow> False) s"
      unfolding returns_ends by (rule ends_mono) auto
  qed (fact assms(1), fact ring)
  then show ?thesis unfolding returns_ends by (rule ends_mono) (auto split: outcome.splits)
qed

text \<open>The safe loop lets its body take the current node out of the ring.\<close>

lemma for_each_safe_from_returns:
  assumes "I done rest s"
    and ring: "\<And>done rest s. I done rest s \<Longrightarrow> list_holds (heap s) head rest"
    and body: "\<And>done x rest s. I done (x # rest) s \<Longrightarrow> returns (body x) (\<lambda>_. I (done @ [x]) rest) s"
  shows "returns (list_for_each_safe_from heap body head (hd (rest @ [head])) (hd (tl (rest @ [head, hd (rest @ [head])]))))
    (\<lambda>_. I (done @ rest) []) s"
  using assms(1)
proof (induction rest arbitrary: "done" s)
  case Nil
  then show ?case by (simp add: returns_def list_for_each_safe_from.simps [of heap body head head])
next
  case (Cons x rest)
  have d: "x \<noteq> head" using ring [OF Cons.prems(1)] by (auto simp: list_holds_def)
  let ?n = "hd (rest @ [head])"
  have step: "list_for_each_safe_from heap body head x ?n s = bindr (body x) (\<lambda>_.
      bindr (getsome (\<lambda>s. nx (heap s) ?n)) (list_for_each_safe_from heap body head ?n)) s"
    using d by (subst list_for_each_safe_from.simps) simp
  have next_in: "nx (heap s') ?n = Some (hd (tl (rest @ [head, hd (rest @ [head])])))" if "I (done @ [x]) rest s'" for s'
    using ring [OF that] links_ends(1) [of "heap s'" head rest head] by (cases rest) (auto simp: list_holds_def dest: links_ends(1))
  have "returns (bindr (body x) (\<lambda>_. bindr (getsome (\<lambda>s. nx (heap s) ?n)) (list_for_each_safe_from heap body head ?n)))
      (\<lambda>_. I (done @ x # rest) []) s"
    by (rule returns_bindr, rule returns_mono [OF body [OF Cons.prems]], rule returns_bindr)
      (use next_in Cons.IH [of "done @ [x]"] in auto)
  then show ?case by (simp add: returns_def step)
qed

lemma list_for_each_safe_returns:
  assumes "I [] xs s"
    and ring: "\<And>done rest s. I done rest s \<Longrightarrow> list_holds (heap s) head rest"
    and body: "\<And>done x rest s. I done (x # rest) s \<Longrightarrow> returns (body x) (\<lambda>_. I (done @ [x]) rest) s"
  shows "returns (list_for_each_safe heap head body) (\<lambda>_. I xs []) s"
proof -
  have h: "links (heap s) head xs head" using ring [OF assms(1)] by (simp add: list_holds_def)
  have "nx (heap s) head = Some (hd (xs @ [head]))" using links_ends(1) [OF h] by simp
  moreover have "nx (heap s) (hd (xs @ [head])) = Some (hd (tl (xs @ [head, hd (xs @ [head])])))"
    using h by (cases xs) (auto dest: links_ends(1))
  ultimately show ?thesis
    using for_each_safe_from_returns [of I "[]" xs s heap head body, OF assms(1) ring body]
    by (auto simp: list_for_each_safe_def intro!: returns_bindr)
qed

section \<open>The interface of the list\<close>

text \<open>
  What the configuration and the supervisor rely on: a head stands for a sequence of nodes, an empty
  one after its initialisation; \<open>push\<close> puts a node in front; \<open>drop\<close> takes one out.
\<close>

locale linked_list =
  fixes holds :: "'h \<Rightarrow> addr \<Rightarrow> addr list \<Rightarrow> bool"
    and is_node :: "'h \<Rightarrow> addr \<Rightarrow> bool"
    and same :: "addr set \<Rightarrow> 'h \<Rightarrow> 'h \<Rightarrow> bool"
    and init :: "'h \<Rightarrow> addr \<Rightarrow> 'h option"
    and push :: "'h \<Rightarrow> addr \<Rightarrow> addr \<Rightarrow> 'h option"
    and drop_node :: "'h \<Rightarrow> addr \<Rightarrow> 'h option"
  assumes init_ok: "is_node h p \<Longrightarrow> ensures (init h p) (\<lambda>h'. holds h' p [] \<and> same {p} h h')"
    and push_ok: "holds h p xs \<Longrightarrow> is_node h n \<Longrightarrow> n \<notin> set (p # xs) \<Longrightarrow>
      ensures (push h n p) (\<lambda>h'. holds h' p (n # xs) \<and> same (set (p # n # xs)) h h')"
    and drop_ok: "holds h p (xs @ n # ys) \<Longrightarrow>
      ensures (drop_node h n) (\<lambda>h'. holds h' p (xs @ ys) \<and> same (set (p # xs @ ys)) h h')"
    and node_same: "same X h h' \<Longrightarrow> a \<notin> X \<Longrightarrow> is_node h' a = is_node h a"
begin

primrec push_all :: "'h \<Rightarrow> addr \<Rightarrow> addr list \<Rightarrow> 'h option" where
  "push_all h p [] = Some h"
| "push_all h p (n # ns) = Option.bind (push h n p) (\<lambda>h. push_all h p ns)"

text \<open>Pushing one node after the other leaves them in reverse order.\<close>

lemma push_all_ok:
  assumes "holds h p xs" "list_all (is_node h) ns" "distinct ns" "set ns \<inter> set (p # xs) = {}"
  shows "ensures (push_all h p ns) (\<lambda>h'. holds h' p (rev ns @ xs))"
  using assms
proof (induction ns arbitrary: h xs)
  case (Cons n ns)
  have "n \<notin> set (p # xs)" "is_node h n" using Cons.prems by auto
  from push_ok [OF Cons.prems(1) this(2,1)]
  obtain h1 where h1: "push h n p = Some h1" "holds h1 p (n # xs)" "same (set (p # n # xs)) h h1"
    by (auto elim!: ensuresE)
  have "is_node h1 m" if "m \<in> set ns" for m
  proof -
    have "m \<notin> set (p # n # xs)" using that Cons.prems(3,4) by auto
    from node_same [OF h1(3) this] show ?thesis using that Cons.prems(2) by (simp add: list_all_iff)
  qed
  then have "list_all (is_node h1) ns" by (simp add: list_all_iff)
  moreover have "set ns \<inter> set (p # n # xs) = {}" using Cons.prems(3,4) by auto
  ultimately show ?case using Cons.IH [OF h1(2)] Cons.prems(3) h1(1) by simp
qed simp

text \<open>A node that was pushed and dropped again leaves the list as it was.\<close>

lemma push_drop:
  assumes "holds h p xs" "is_node h n" "n \<notin> set (p # xs)"
  shows "ensures (Option.bind (push h n p) (\<lambda>h. drop_node h n)) (\<lambda>h'. holds h' p xs)"
proof -
  obtain h1 where h1: "push h n p = Some h1" "holds h1 p ([] @ n # xs)"
    using push_ok [OF assms] by (auto elim!: ensuresE)
  from drop_ok [OF h1(2)] h1(1) show ?thesis by (auto elim!: ensures_mono)
qed

end

interpretation ll: linked_list list_holds "\<lambda>h a. deref h a \<noteq> None" same_outside INIT_LIST_HEAD list_add list_del
proof
  fix h p
  assume "deref h p \<noteq> (None :: list_head option)"
  then show "ensures (INIT_LIST_HEAD h p) (\<lambda>h'. list_holds h' p [] \<and> same_outside {p} h h')"
    by (intro list_init_holds) (simp add: peek_def)
next
  fix h p xs n
  assume "list_holds h p xs" "deref h n \<noteq> None" "n \<notin> set (p # xs)"
  then show "ensures (list_add h n p) (\<lambda>h'. list_holds h' p (n # xs) \<and> same_outside (set (p # n # xs)) h h')"
    by (intro list_add_holds) (simp_all add: peek_def)
next
  fix X h h' a
  assume "same_outside X h h'" "a \<notin> X"
  then show "(deref h' a \<noteq> None) = (deref h a \<noteq> None)" by (simp add: same_outside_def deref_def)
qed (rule list_del_holds)

section \<open>An example list\<close>

definition ex_lists :: lheap where
  "ex_lists = [8 \<mapsto> \<lparr>lh_next = 10, lh_prev = 20\<rparr>, 10 \<mapsto> \<lparr>lh_next = 20, lh_prev = 8\<rparr>,
     20 \<mapsto> \<lparr>lh_next = 8, lh_prev = 10\<rparr>, 30 \<mapsto> \<lparr>lh_next = 0, lh_prev = 0\<rparr>,
     40 \<mapsto> \<lparr>lh_next = 50, lh_prev = 50\<rparr>, 50 \<mapsto> \<lparr>lh_next = 40, lh_prev = 40\<rparr>]"

lemma ex_lists_hold: "list_holds ex_lists 8 ([10] @ 20 # [])" "list_holds ex_lists 40 [50]"
  by (simp_all add: list_holds_def ex_lists_def peek_def deref_def)

section \<open>The properties of the list\<close>

text \<open>C6: \<open>list_add\<close> puts a node at the front of the sequence of a head and \<open>list_add_tail\<close> at its end; no
  other object changes.\<close>

theorem list_insert_correct:
  assumes "list_holds h head xs" "deref h n \<noteq> None" "n \<notin> set (head # xs)"
  shows "ensures (list_add h n head) (\<lambda>h'. list_holds h' head (n # xs) \<and> same_outside (set (head # n # xs)) h h') \<and>
    ensures (list_add_tail h n head) (\<lambda>h'. list_holds h' head (xs @ [n]) \<and> same_outside (set (head # n # xs)) h h')"
  using list_add_holds [OF assms(1) _ assms(3)] list_add_tail_holds [OF assms(1) _ assms(3)] assms(2)
  by (simp add: peek_def)

theorem list_insert_correct_witness:
  "ensures (list_add ex_lists 30 8) (\<lambda>h'. list_holds h' 8 [30, 10, 20]) \<and>
   ensures (list_add_tail ex_lists 30 8) (\<lambda>h'. list_holds h' 8 [10, 20, 30])"
  using list_insert_correct [OF ex_lists_hold(1), of 30]
  by (auto simp: ex_lists_def deref_def elim!: ensures_mono)

text \<open>C7: \<open>list_del\<close> takes exactly the given node out of the sequence, wherever it stands; \<open>list_del_init\<close>
  also leaves that node as an empty list of its own.\<close>

theorem list_delete_correct:
  assumes "list_holds h head (xs @ n # ys)"
  shows "ensures (list_del h n) (\<lambda>h'. list_holds h' head (xs @ ys) \<and> h' n = h n) \<and>
    ensures (list_del_init h n) (\<lambda>h'. list_holds h' head (xs @ ys) \<and> list_holds h' n [])"
proof -
  have n: "n \<notin> set (head # xs @ ys)" using assms by (auto simp: list_holds_def)
  have "ensures (list_del h n) (\<lambda>h'. list_holds h' head (xs @ ys) \<and> h' n = h n)"
    by (rule ensures_mono [OF list_del_holds [OF assms]]) (use n in \<open>auto simp: same_outside_def\<close>)
  moreover have "ensures (list_del_init h n) (\<lambda>h'. list_holds h' head (xs @ ys) \<and> list_holds h' n [])"
    by (rule ensures_mono [OF list_del_init_holds [OF assms]]) auto
  ultimately show ?thesis by blast
qed

theorem list_delete_correct_witness:
  "ensures (list_del_init ex_lists 20) (\<lambda>h'. list_holds h' 8 [10] \<and> list_holds h' 20 [])"
  using list_delete_correct [OF ex_lists_hold(1)] by simp

text \<open>C8: \<open>list_splice\<close> puts the nodes of one list, in order, in front of those of another.\<close>

theorem list_splice_correct:
  assumes "list_holds h l xs" "list_holds h head ys" "set (l # xs) \<inter> set (head # ys) = {}"
  shows "ensures (list_splice h l head)
    (\<lambda>h'. list_holds h' head (xs @ ys) \<and> same_outside (set (head # xs @ ys)) h h')"
  by (rule list_splice_holds [OF assms])

theorem list_splice_correct_witness:
  "ensures (list_splice ex_lists 40 8) (\<lambda>h'. list_holds h' 8 [50, 10, 20])"
  using list_splice_correct [OF ex_lists_hold(2,1)] by (auto elim!: ensures_mono)

lemma delete_and_free:
  assumes "list_holds h head (x # rest)"
  shows "ensures (do { h \<leftarrow> list_del h x; Some (h(x := None)) })
    (\<lambda>h'. list_holds h' head rest \<and> h' x = None \<and> same_outside (set (head # x # rest)) h h')"
proof -
  have x: "x \<notin> set (head # rest)" using assms by (auto simp: list_holds_def)
  have "list_holds h head ([] @ x # rest)" using assms by simp
  from list_del_holds [OF this] obtain h1 where h1: "list_del h x = Some h1" "list_holds h1 head rest"
    "same_outside (set (head # rest)) h h1" by (auto elim!: ensuresE)
  have "list_holds (h1(x := None)) head rest"
    by (rule list_holds_frame [OF h1(2), of "{x}"]) (use x in \<open>auto simp: same_outside_def\<close>)
  with h1 show ?thesis by (simp add: same_outside_def)
qed

text \<open>C9: A \<open>list_for_each\<close> loop whose body leaves the links alone ends, and runs its body once per node, in
  order. So does a \<open>list_for_each_safe\<close> loop whose body takes the current node out of the list and frees it (a later
  access to the node is undefined): the list is empty in the end, every node freed, and nothing outside of the list changed.\<close>

theorem list_iteration_correct:
  assumes "list_holds h head xs"
  shows "returns (list_for_each fst head (\<lambda>pos. modify (\<lambda>(h, seen). (h, seen @ [pos])))) (\<lambda>_ s. s = (h, seen @ xs)) (h, seen) \<and>
    returns (list_for_each_safe fst head (\<lambda>pos. modifysome (\<lambda>(h, seen). do {
        h \<leftarrow> list_del h pos;
        Some (h(pos := None), seen @ [pos]) })))
      (\<lambda>_ (h', seen'). seen' = seen @ xs \<and> list_holds h' head [] \<and> (\<forall>x. x \<in> set xs \<longrightarrow> h' x = None) \<and>
        same_outside (set (head # xs)) h h') (h, seen)"
proof
  show "returns (list_for_each fst head (\<lambda>pos. modify (\<lambda>(h, seen). (h, seen @ [pos])))) (\<lambda>_ s. s = (h, seen @ xs)) (h, seen)"
    by (rule list_for_each_returns [where I = "\<lambda>ps s. s = (h, seen @ ps)"]) (use assms in auto)
  let ?I = "\<lambda>ps rest (h', seen'). ps @ rest = xs \<and> seen' = seen @ ps \<and> list_holds h' head rest \<and>
    (\<forall>x. x \<in> set ps \<longrightarrow> h' x = None) \<and> same_outside (set (head # xs)) h h'"
  have dist: "distinct xs" using assms by (simp add: list_holds_def)
  show "returns (list_for_each_safe fst head (\<lambda>pos. modifysome (\<lambda>(h, seen). do {
        h \<leftarrow> list_del h pos;
        Some (h(pos := None), seen @ [pos]) })))
      (\<lambda>_ (h', seen'). seen' = seen @ xs \<and> list_holds h' head [] \<and> (\<forall>x. x \<in> set xs \<longrightarrow> h' x = None) \<and>
        same_outside (set (head # xs)) h h') (h, seen)"
  proof (rule returns_mono [OF list_for_each_safe_returns [where I = ?I and xs = xs]])
    fix ps x rest s
    assume "?I ps (x # rest) s"
    then obtain h1 where s: "s = (h1, seen @ ps)" and xs: "ps @ x # rest = xs" and h1: "list_holds h1 head (x # rest)"
      "\<forall>x. x \<in> set ps \<longrightarrow> h1 x = None" "same_outside (set (head # xs)) h h1" by (cases s) auto
    from delete_and_free [OF h1(1)] obtain h2 where h2: "list_del h1 x = Some h2" "list_holds (h2(x := None)) head rest"
      "same_outside (set (head # x # rest)) h1 (h2(x := None))" by (auto elim!: ensuresE simp: bind_eq_Some_conv)
    have "set ps \<inter> set (x # rest) = {}" using dist unfolding xs [symmetric] by auto
    moreover have "head \<notin> set ps" using assms xs by (auto simp: list_holds_def)
    ultimately have "y \<in> set ps \<Longrightarrow> (h2(x := None)) y = None" for y
      using h1(2) h2(3) unfolding same_outside_def by (metis IntI empty_iff set_ConsD list.set_intros(2))
    moreover have "same_outside (set (head # xs)) h (h2(x := None))"
      using h1(3) h2(3) xs unfolding same_outside_def by (metis Un_iff list.set_intros(1,2) set_ConsD set_append)
    ultimately show "returns (modifysome (\<lambda>(h, seen). do { h \<leftarrow> list_del h x; Some (h(x := None), seen @ [x]) })) (\<lambda>_. ?I (ps @ [x]) rest) s"
      using h2(1,2) s xs by (simp add: same_outside_def)
  qed (use assms in auto)
qed

theorem list_iteration_correct_witness:
  "returns (list_for_each fst 8 (\<lambda>pos. modify (\<lambda>(h, seen). (h, seen @ [pos])))) (\<lambda>_ s. snd s = [10, 20]) (ex_lists, []) \<and>
   returns (list_for_each_safe fst 8 (\<lambda>pos. modifysome (\<lambda>(h, seen). do {
        h \<leftarrow> list_del h pos;
        Some (h(pos := None), seen @ [pos]) }))) (\<lambda>_ (h', seen'). seen' = [10, 20] \<and> list_holds h' 8 []) (ex_lists, [])"
  using list_iteration_correct [OF ex_lists_hold(1), of "[]"] by (auto elim!: returns_mono)

end
