(* ===== verification/Machine.thy ===== *)
theory Machine
  imports Rbtree_Index List_Head
begin

text \<open>
  The machine the program runs on. \<open>world\<close> is the memory (one heap per kind of object, the live blocks
  of \<open>malloc\<close>), the global variables, \<open>errno\<close> and the trace of system calls, newest first. An object
  embedded in another one lives in the heap of its own type at its offset: \<open>task->list\<close> and
  \<open>task->node\<close> at 120 and 136 bytes, \<open>conf->tasks_list\<close> at 8, \<open>ctx->sentinel\<close> at 184 (the layout
  of a 64-bit Linux).

  \<open>os\<close> is everything outside the program: the kernel and the C library answer each call as a function
  of the trace, so that every behaviour over time is covered. What the program relies on is stated
  where it is needed, as a hypothesis on \<open>os\<close>.
\<close>

section \<open>Objects\<close>

datatype task_status = TASK_INIT | TASK_RUNNING | TASK_FINISHED

record task =
  tk_pid :: int
  tk_start_sec :: int
  tk_start_usec :: int
  tk_start_count :: "64 word"
  tk_ctx :: addr
  tk_log_path :: addr
  tk_path :: addr
  tk_name :: addr
  tk_dir :: addr
  tk_args :: addr
  tk_args_len :: nat
  tk_args_total :: nat
  tk_envp :: addr
  tk_envp_len :: nat
  tk_envp_total :: nat
  tk_status :: task_status

record bz_log_s =
  lg_level :: int
  lg_file :: addr
  lg_fd :: int
  lg_nerr :: "64 word"

record conf =
  cf_ctx :: addr

text \<open>The only signal callback of the program is \<open>bz_signal_callback\<close>.\<close>

datatype callback = CB_NULL | CB_bz_signal

record ctx =
  cx_conf :: addr
  cx_instance :: addr
  cx_log :: addr
  cx_callback :: callback
  cx_arg :: addr
  cx_origmask :: "int list"
  cx_tree :: rbtree

record bitzer =
  bi_log_level :: int
  bi_prefix :: addr
  bi_log_file :: addr
  bi_conf_file :: addr
  bi_pid :: int
  bi_pid_file :: addr
  bi_log_file_alloc :: bool
  bi_conf_file_alloc :: bool
  bi_pid_file_alloc :: bool
  bi_hostname :: string
  bi_log :: addr

text \<open>Sizes and offsets.\<close>

definition sizeof_task :: nat where "sizeof_task = 184"
definition sizeof_log :: nat where "sizeof_log = 32"
definition sizeof_conf :: nat where "sizeof_conf = 24"
definition sizeof_ctx :: nat where "sizeof_ctx = 224"

definition task_list :: "addr \<Rightarrow> addr" where "task_list t = t + 120"
definition task_node :: "addr \<Rightarrow> addr" where "task_node t = t + 136"
definition conf_tasks_list :: "addr \<Rightarrow> addr" where "conf_tasks_list c = c + 8"
definition ctx_sentinel :: "addr \<Rightarrow> addr" where "ctx_sentinel c = c + 184"

text \<open>\<open>list_entry(ptr, task_t, list)\<close> and \<open>rbtree_entry(ptr, task_t, node)\<close>.\<close>

definition task_of_list :: "addr \<Rightarrow> addr" where "task_of_list p = p - 120"
definition task_of_node :: "addr \<Rightarrow> addr" where "task_of_node p = p - 136"

lemma task_offsets [simp]:
  "task_of_list (task_list t) = t" "task_of_node (task_node t) = t"
  "task_list t = task_list u \<longleftrightarrow> t = u" "task_node t = task_node u \<longleftrightarrow> t = u"
  by (simp_all add: task_of_list_def task_list_def task_of_node_def task_node_def)

section \<open>System calls\<close>

text \<open>The calls of the kernel, and with \<open>Flex_\<close> those of the scanner library that \<open>flex\<close> generates.\<close>

datatype open_flag = O_RDONLY | O_WRONLY | O_RDWR | O_APPEND | O_CREAT | O_TRUNC

datatype sigmask_how = SIG_BLOCK | SIG_SETMASK

datatype sighandler = SIG_IGN | Handler

datatype call =
    Open string "open_flag list" "int option"
  | Close int
  | Dup2 int int
  | Write int string
  | Unlink string
  | Access_X string
  | Chdir string
  | Setenv string string
  | Umask int
  | Sigprocmask sigmask_how "int list"
  | Sigaction int sighandler
  | Pselect "int list"
  | Waitpid
  | Fork
  | Execv string "string list"
  | Setsid
  | Getpid
  | Gethostname
  | Uname
  | Fstat int
  | Mmap nat int
  | Munmap nat
  | Flex_init
  | Flex_scan string
  | Flex_delete
  | Flex_destroy

type_synonym trace = "(call \<times> int) list"

record world =
  w_blocks :: "(addr \<times> nat) list"
  w_bytes :: "addr \<rightharpoonup> char option list"
  w_ptrs :: "addr \<rightharpoonup> addr option list"
  w_tasks :: "addr \<rightharpoonup> task"
  w_lists :: lheap
  w_nodes :: rbheap
  w_logs :: "addr \<rightharpoonup> bz_log_s"
  w_confs :: "addr \<rightharpoonup> conf"
  w_ctxs :: "addr \<rightharpoonup> ctx"
  w_insts :: "addr \<rightharpoonup> bitzer"
  w_errno :: int
  w_trace :: trace
  g_context :: addr
  bz_quit :: bool
  bz_terminate :: bool
  bz_reconfigure :: bool
  bz_reopen :: bool
  bz_child :: bool
  g_task :: addr
  show_help :: bool
  show_version :: bool
  test_conf :: bool
  daemonize :: bool

text \<open>Broken-down time, as \<open>localtime\<close> returns it.\<close>

record tm =
  tm_year :: int
  tm_mon :: int
  tm_mday :: int
  tm_hour :: int
  tm_min :: int
  tm_sec :: int

text \<open>
  \<open>os_call\<close> is the result of a call and the error number it sets when it fails (when the result is
  negative). The other fields are what some calls also deliver: the wait status of \<open>waitpid\<close>, the
  signals whose handlers run during \<open>pselect\<close>, the mask in force before \<open>sigprocmask\<close>, the clock, the
  contents of the configuration file, the name of the host, the three names that \<open>uname\<close> gives.
  \<open>os_time_errno\<close> is the \<open>errno\<close> that \<open>gettimeofday\<close> and \<open>localtime\<close> leave, from the one before: they may
  change it even when they succeed. \<open>os_localtime\<close> is total: \<open>localtime\<close> gives \<open>NULL\<close> only for a time whose
  year does not fit an \<open>int\<close>, and the clock is taken not to have reached it.
  \<open>os_malloc\<close> may look at the live blocks. The contents of fresh storage are indeterminate:
  the \<open>os_junk_\<close> fields give them.
\<close>

record os =
  os_call :: "trace \<Rightarrow> call \<Rightarrow> int \<times> int"
  os_status :: "trace \<Rightarrow> int"
  os_signals :: "trace \<Rightarrow> int list"
  os_oldmask :: "trace \<Rightarrow> int list"
  os_clock :: "trace \<Rightarrow> int \<times> int"
  os_localtime :: "int \<Rightarrow> tm"
  os_time_errno :: "trace \<Rightarrow> int \<Rightarrow> int"
  os_strerror :: "int \<Rightarrow> string"
  os_malloc :: "world \<Rightarrow> nat \<Rightarrow> addr"
  os_junk_task :: "trace \<Rightarrow> task"
  os_junk_list :: "trace \<Rightarrow> list_head"
  os_junk_node :: "trace \<Rightarrow> rbnode"
  os_junk_ctx :: "trace \<Rightarrow> ctx"
  os_junk_inst :: "trace \<Rightarrow> bitzer"
  os_file :: "trace \<Rightarrow> string"
  os_hostname :: "trace \<Rightarrow> string"
  os_uname :: "trace \<Rightarrow> string \<times> string \<times> string"

type_synonym 'a prog = "(world, 'a) run"

definition syscall :: "os \<Rightarrow> call \<Rightarrow> int prog" where
  "syscall os c s =
     (let (r, e) = os_call os (w_trace s) c in
      Some (Ret r, s\<lparr>w_trace := (c, r) # w_trace s, w_errno := (if r < 0 then e else w_errno s)\<rparr>))"

lemma bindr_syscall [run_simps]:
  "bindr (syscall os c) k s = (let (r, e) = os_call os (w_trace s) c in
     k r (s\<lparr>w_trace := (c, r) # w_trace s, w_errno := (if r < 0 then e else w_errno s)\<rparr>))"
  by (simp add: bindr_def syscall_def Let_def split: prod.split)

definition strerror :: "os \<Rightarrow> string prog" where
  "strerror os = gets (\<lambda>s. os_strerror os (w_errno s))"

section \<open>Memory\<close>

text \<open>\<open>malloc\<close> returns \<open>NULL\<close> or a block that overlaps no live one.\<close>

definition fresh_block :: "(addr \<times> nat) list \<Rightarrow> addr \<Rightarrow> nat \<Rightarrow> bool" where
  "fresh_block blocks a n \<longleftrightarrow> a \<noteq> NULL \<and> list_all (\<lambda>(b, m). a \<noteq> b \<and> (a + n \<le> b \<or> b + m \<le> a)) blocks"

definition malloc_fresh :: "os \<Rightarrow> bool" where
  "malloc_fresh os \<longleftrightarrow> (\<forall>s n. os_malloc os s n \<noteq> NULL \<longrightarrow> fresh_block (w_blocks s) (os_malloc os s n) n)"

definition malloc :: "os \<Rightarrow> nat \<Rightarrow> addr prog" where
  "malloc os n s =
     (let a = os_malloc os s n in
      Some (Ret a, if a = NULL then s else s\<lparr>w_blocks := (a, n) # w_blocks s\<rparr>))"

text \<open>\<open>free\<close> is undefined on anything but \<open>NULL\<close> and the start of a live block. It takes every object of the
  block away, so that a later access through a stale pointer is undefined.\<close>

definition without :: "addr \<Rightarrow> nat \<Rightarrow> (addr \<rightharpoonup> 'a) \<Rightarrow> (addr \<rightharpoonup> 'a)" where
  "without a n h = (\<lambda>p. if a \<le> p \<and> p < a + n then None else h p)"

definition free :: "addr \<Rightarrow> unit prog" where
  "free p s =
     (if p = NULL then Some (Ret (), s)
      else case map_of (w_blocks s) p of None \<Rightarrow> None
      | Some n \<Rightarrow> Some (Ret (), s\<lparr>w_blocks := filter (\<lambda>e. fst e \<noteq> p) (w_blocks s),
          w_bytes := without p n (w_bytes s), w_ptrs := without p n (w_ptrs s),
          w_tasks := without p n (w_tasks s), w_lists := without p n (w_lists s),
          w_nodes := without p n (w_nodes s), w_logs := without p n (w_logs s),
          w_confs := without p n (w_confs s), w_ctxs := without p n (w_ctxs s),
          w_insts := without p n (w_insts s)\<rparr>))"

text \<open>Every object lies in a live block, so that a new block holds none.\<close>

definition objects :: "world \<Rightarrow> addr set" where
  "objects s = dom (w_bytes s) \<union> dom (w_ptrs s) \<union> dom (w_tasks s) \<union> dom (w_lists s) \<union> dom (w_nodes s) \<union>
     dom (w_logs s) \<union> dom (w_confs s) \<union> dom (w_ctxs s) \<union> dom (w_insts s)"

definition in_blocks :: "world \<Rightarrow> bool" where
  "in_blocks s \<longleftrightarrow> (\<forall>p \<in> objects s. \<exists>b n. (b, n) \<in> set (w_blocks s) \<and> b \<le> p \<and> p < b + n)"

lemma in_blocksI: "(\<And>p. p \<in> objects s \<Longrightarrow> \<exists>n. (p, n) \<in> set (w_blocks s) \<and> 0 < n) \<Longrightarrow> in_blocks s"
  unfolding in_blocks_def by force

lemma fresh_no_object:
  assumes "in_blocks s" "fresh_block (w_blocks s) a n" "a \<le> p" "p < a + n"
  shows "p \<notin> objects s"
proof
  assume "p \<in> objects s"
  then obtain b m where "(b, m) \<in> set (w_blocks s)" "b \<le> p" "p < b + m" using assms(1) by (auto simp: in_blocks_def)
  moreover from this(1) assms(2) have "a + n \<le> b \<or> b + m \<le> a" by (auto simp: fresh_block_def list_all_iff)
  ultimately show False using assms(3,4) by linarith
qed

lemma without_fresh: "dom h \<subseteq> objects s \<Longrightarrow> in_blocks s \<Longrightarrow> fresh_block (w_blocks s) a n \<Longrightarrow> without a n h = h"
proof (rule ext)
  fix p
  assume d: "dom h \<subseteq> objects s" and f: "in_blocks s" "fresh_block (w_blocks s) a n"
  have "h p = None" if "a \<le> p" "p < a + n" using fresh_no_object [OF f that] d by (auto simp: dom_def)
  then show "without a n h p = h p" by (auto simp: without_def)
qed

lemma without_upd: "a \<le> p \<Longrightarrow> p < a + n \<Longrightarrow> without a n (h(p := v)) = without a n h"
  by (rule ext) (simp add: without_def)

text \<open>Giving back the block that was just allocated restores the memory.\<close>

lemma malloc_cases:
  assumes "malloc_fresh os"
  obtains (fail) "malloc os n s = Some (Ret NULL, s)"
    | (block) a where "malloc os n s = Some (Ret a, s\<lparr>w_blocks := (a, n) # w_blocks s\<rparr>)" "a \<noteq> NULL"
      "fresh_block (w_blocks s) a n"
  using assms by (cases "os_malloc os s n = NULL") (auto simp: malloc_def malloc_fresh_def Let_def)

lemma fresh_not_block: "fresh_block blocks a n \<Longrightarrow> map_of blocks a = None"
  by (auto simp: fresh_block_def list_all_iff map_of_eq_None_iff)

lemma fresh_filter: "fresh_block blocks a n \<Longrightarrow> filter (\<lambda>e. fst e \<noteq> a) blocks = blocks"
  by (auto simp: fresh_block_def list_all_iff filter_id_conv)

text \<open>Buffers of bytes, some of them not yet written; the C string at the start of one.\<close>

fun cstring :: "char option list \<Rightarrow> string option" where
  "cstring [] = None"
| "cstring (None # bs) = None"
| "cstring (Some c # bs) = (if c = CHR 0x00 then Some [] else map_option (Cons c) (cstring bs))"

definition cstr :: "string \<Rightarrow> char option list" where
  "cstr t = map Some t @ [Some (CHR 0x00)]"

definition no_nul :: "string \<Rightarrow> bool" where
  "no_nul t \<longleftrightarrow> list_all (\<lambda>c. c \<noteq> CHR 0x00) t"

definition str_at :: "world \<Rightarrow> addr \<Rightarrow> string option" where
  "str_at s p = Option.bind (deref (w_bytes s) p) cstring"

definition new_bytes :: "addr \<Rightarrow> nat \<Rightarrow> world \<Rightarrow> world" where
  "new_bytes p n s = s\<lparr>w_bytes := (w_bytes s)(p \<mapsto> replicate n None)\<rparr>"

definition strcpy :: "addr \<Rightarrow> string \<Rightarrow> unit prog" where
  "strcpy dst t = modifysome (\<lambda>s. do {
     d \<leftarrow> deref (w_bytes s) dst;
     if length t + 1 \<le> length d
     then Some (s\<lparr>w_bytes := (w_bytes s)(dst \<mapsto> cstr t @ drop (length t + 1) d)\<rparr>) else None })"

definition strcat :: "addr \<Rightarrow> string \<Rightarrow> unit prog" where
  "strcat dst t = bindr (getsome (\<lambda>s. str_at s dst)) (\<lambda>u. strcpy dst (u @ t))"

lemma cstring_cstr [simp]: "no_nul t \<Longrightarrow> cstring (cstr t @ bs) = Some t"
  by (induction t) (simp_all add: cstr_def no_nul_def)

lemma length_cstr [simp]: "length (cstr t) = Suc (length t)"
  by (simp add: cstr_def)

lemma no_nul_append [simp]: "no_nul (t @ u) \<longleftrightarrow> no_nul t \<and> no_nul u"
  by (simp add: no_nul_def)

lemma cstring_no_nul: "cstring bs = Some t \<Longrightarrow> no_nul t"
  by (induction bs arbitrary: t rule: cstring.induct) (auto simp: no_nul_def split: if_splits)

lemma str_at_no_nul: "str_at s p = Some t \<Longrightarrow> no_nul t"
  by (auto simp: str_at_def bind_eq_Some_conv cstring_no_nul)

section \<open>An example machine\<close>

text \<open>An empty memory, and a system that grants every request: a file is opened as descriptor 7, the
  process is never the child of a fork and has no children that ended.\<close>

definition ex_world :: world where
  "ex_world = \<lparr>w_blocks = [], w_bytes = Map.empty, w_ptrs = Map.empty, w_tasks = Map.empty,
     w_lists = Map.empty, w_nodes = Map.empty, w_logs = Map.empty, w_confs = Map.empty, w_ctxs = Map.empty,
     w_insts = Map.empty, w_errno = 0, w_trace = [], g_context = NULL, bz_quit = False, bz_terminate = False,
     bz_reconfigure = False, bz_reopen = False, bz_child = False, g_task = NULL, show_help = False,
     show_version = False, test_conf = False, daemonize = False\<rparr>"

definition ex_call :: "trace \<Rightarrow> call \<Rightarrow> int \<times> int" where
  "ex_call tr c = (case c of Open p fl m \<Rightarrow> (7, 0) | Fork \<Rightarrow> (100 + int (length tr), 0)
     | Getpid \<Rightarrow> (42, 0) | Write fd t \<Rightarrow> (int (length t), 0) | _ \<Rightarrow> (0, 0))"

fun end_of_blocks :: "(addr \<times> nat) list \<Rightarrow> addr" where
  "end_of_blocks [] = 5000"
| "end_of_blocks ((b, m) # bs) = max (b + m + 1) (end_of_blocks bs)"

lemma end_of_blocks: "(b, m) \<in> set bs \<Longrightarrow> b + m < end_of_blocks bs" "5000 \<le> end_of_blocks bs"
  by (induction bs rule: end_of_blocks.induct) auto

definition ex_os :: os where
  "ex_os = \<lparr>os_call = ex_call, os_status = (\<lambda>_. 0), os_signals = (\<lambda>_. []), os_oldmask = (\<lambda>_. []),
     os_clock = (\<lambda>_. (0, 0)), os_localtime = (\<lambda>_. \<lparr>tm_year = 115, tm_mon = 4, tm_mday = 9, tm_hour = 8, tm_min = 7, tm_sec = 6\<rparr>),
     os_time_errno = (\<lambda>_ e. e), os_strerror = (\<lambda>_. ''error''),
     os_malloc = (\<lambda>s n. end_of_blocks (w_blocks s)),
     os_junk_task = (\<lambda>_. \<lparr>tk_pid = 0, tk_start_sec = 0, tk_start_usec = 0, tk_start_count = 0, tk_ctx = 0,
       tk_log_path = 0, tk_path = 0, tk_name = 0, tk_dir = 0, tk_args = 0, tk_args_len = 0, tk_args_total = 0,
       tk_envp = 0, tk_envp_len = 0, tk_envp_total = 0, tk_status = TASK_INIT\<rparr>),
     os_junk_list = (\<lambda>_. \<lparr>lh_next = 0, lh_prev = 0\<rparr>),
     os_junk_node = (\<lambda>_. \<lparr>rb_left = 0, rb_right = 0, rb_parent = 0, rb_key = 0, rb_color = False\<rparr>),
     os_junk_ctx = (\<lambda>_. \<lparr>cx_conf = 0, cx_instance = 0, cx_log = 0, cx_callback = CB_NULL, cx_arg = 0,
       cx_origmask = [], cx_tree = \<lparr>rbt_root = 0, rbt_sentinel = 0\<rparr>\<rparr>),
     os_junk_inst = (\<lambda>_. \<lparr>bi_log_level = 0, bi_prefix = 0, bi_log_file = 0, bi_conf_file = 0, bi_pid = 0, bi_pid_file = 0,
       bi_log_file_alloc = False, bi_conf_file_alloc = False, bi_pid_file_alloc = False, bi_hostname = [], bi_log = 0\<rparr>),
     os_file = (\<lambda>_. []), os_hostname = (\<lambda>_. ''host''), os_uname = (\<lambda>_. (''Linux'', ''6.1'', ''x86_64''))\<rparr>"

lemma ex_os_fresh: "malloc_fresh ex_os"
  using end_of_blocks by (force simp: malloc_fresh_def ex_os_def fresh_block_def list_all_iff)

end
