(* ===== verification/Strutil.thy ===== *)
theory Strutil
  imports Machine
begin

text \<open>
  \<open>src/strutil.c\<close> and the \<open>printf\<close> directives the program uses. A format with its arguments is a list of
  \<open>piece\<close>s; \<open>render\<close> is the text they produce. \<open>vsnprintf sz text\<close> is the result of the C function and the
  characters it leaves in a buffer of \<open>size\<close> bytes, without the terminating NUL.
\<close>

section \<open>Rendering\<close>

fun nat_digits :: "nat \<Rightarrow> string" where
  "nat_digits n = (if n < 10 then [char_of (n + 48)] else nat_digits (n div 10) @ [char_of (n mod 10 + 48)])"

declare nat_digits.simps [simp del]

definition int_digits :: "int \<Rightarrow> string" where
  "int_digits i = (if i < 0 then CHR ''-'' # nat_digits (nat (- i)) else nat_digits (nat i))"

definition pad_left :: "nat \<Rightarrow> char \<Rightarrow> string \<Rightarrow> string" where
  "pad_left w c t = replicate (w - length t) c @ t"

definition pad_right :: "nat \<Rightarrow> string \<Rightarrow> string" where
  "pad_right w t = t @ replicate (w - length t) (CHR '' '')"

text \<open>
  \<open>Lit\<close> literal text, \<open>Dec\<close> \<open>%d\<close> and \<open>%ld\<close>, \<open>Dec0 w\<close> \<open>%0wd\<close> (of a number that is not negative),
  \<open>DecL w\<close> \<open>%-wd\<close>, \<open>Size\<close> \<open>%zu\<close>, \<open>Chr\<close> \<open>%c\<close>, \<open>Str\<close> \<open>%s\<close> of a pointer, \<open>Txt\<close> \<open>%s\<close> of a text that does
  not come from the program's memory, \<open>TxtR w\<close> \<open>%*s\<close>, \<open>TxtL w\<close> \<open>%-ws\<close>.
\<close>

datatype piece =
    Lit string
  | Dec int
  | Dec0 nat int
  | DecL nat int
  | Size nat
  | Chr char
  | Str addr
  | Txt string
  | TxtR nat string
  | TxtL nat string

text \<open>\<open>%s\<close> of a null pointer prints \<open>(null)\<close>, as the GNU C library does.\<close>

primrec render_piece :: "world \<Rightarrow> piece \<Rightarrow> string option" where
  "render_piece s (Lit t) = Some t"
| "render_piece s (Dec i) = Some (int_digits i)"
| "render_piece s (Dec0 w i) = Some (pad_left w (CHR ''0'') (int_digits i))"
| "render_piece s (DecL w i) = Some (pad_right w (int_digits i))"
| "render_piece s (Size n) = Some (nat_digits n)"
| "render_piece s (Chr c) = Some [c]"
| "render_piece s (Str p) = (if p = NULL then Some ''(null)'' else str_at s p)"
| "render_piece s (Txt t) = Some t"
| "render_piece s (TxtR w t) = Some (pad_left w (CHR '' '') t)"
| "render_piece s (TxtL w t) = Some (pad_right w t)"

fun render :: "world \<Rightarrow> piece list \<Rightarrow> string option" where
  "render s [] = Some []"
| "render s (p # ps) = do { t \<leftarrow> render_piece s p; u \<leftarrow> render s ps; Some (t @ u) }"

section \<open>Formatting into a buffer\<close>

definition INT_MAX :: nat where
  "INT_MAX = 2147483647"

definition vsnprintf :: "64 word \<Rightarrow> string \<Rightarrow> int \<times> string" where
  "vsnprintf sz text =
     (if length text > INT_MAX then - 1 else int (length text), take (unat sz - 1) text)"

text \<open>The conversion \<open>(int)size\<close> of a \<open>size_t\<close>.\<close>

definition to_int :: "64 word \<Rightarrow> int" where
  "to_int w = sint (ucast w :: 32 word)"

definition vscnprintf :: "64 word \<Rightarrow> string \<Rightarrow> int \<times> string" where
  "vscnprintf sz text =
     (let (n, out) = vsnprintf sz text in
      (if n \<le> 0 then 0 else if n < to_int sz then n else to_int (sz - 1), out))"

definition scnprintf :: "64 word \<Rightarrow> string \<Rightarrow> int \<times> string" where
  "scnprintf sz text = vscnprintf sz text"

section \<open>Facts\<close>

lemma nat_digits_not_Nil [simp]: "nat_digits n \<noteq> []"
  by (subst nat_digits.simps) simp

lemma render_append: "render s (ps @ qs) = do { t \<leftarrow> render s ps; u \<leftarrow> render s qs; Some (t @ u) }"
  by (induction ps) (auto simp: Option.bind_assoc intro!: Option.bind_cong)

lemma to_int_small:
  assumes "unat w < 2147483648"
  shows "to_int w = int (unat w)"
proof -
  have "unat w < 2147483648" by (fact assms)
  moreover have "uint w = int (unat w)" by (rule uint_nat)
  ultimately have u: "uint w < 2147483648" by linarith
  have "- (2 ^ 31) \<le> uint w" by (rule order_trans [OF _ uint_ge_0]) simp
  moreover have "uint w < 2 ^ 31" using u by simp
  ultimately have "signed_take_bit 31 (uint w) = uint w" by (rule signed_take_bit_int_eq_self)
  then show ?thesis unfolding to_int_def by (simp add: signed_ucast_eq)
qed

lemma to_int_minus_one: "to_int (- 1) = - 1"
  by code_simp

lemma vscnprintf_fits:
  assumes "0 < unat sz" "unat sz < 2147483648" "length text \<le> INT_MAX"
  shows "vscnprintf sz text = (int (length (take (unat sz - 1) text)), take (unat sz - 1) text)"
proof -
  have s1: "unat (sz - 1) = unat sz - 1"
    using assms(1) by (simp add: unat_minus_one word_gt_0 unat_eq_zero [symmetric])
  have i: "to_int (sz - 1) = int (unat sz - 1)" "to_int sz = int (unat sz)"
    using assms(2) s1 to_int_small [of "sz - 1"] to_int_small [of sz] by linarith+
  have "int (length text) < int (unat sz) \<longleftrightarrow> length text < unat sz" by (rule of_nat_less_iff)
  then show ?thesis
    using assms unfolding vscnprintf_def vsnprintf_def i
    by (cases "length text < unat sz"; cases "text = []") (simp_all del: of_nat_unat)
qed

text \<open>The value of a string of digits, to state that a printed number can be read back.\<close>

definition digits_value :: "string \<Rightarrow> nat" where
  "digits_value t = foldl (\<lambda>v c. v * 10 + (of_char c - 48)) 0 t"

lemma digits_value_nat [simp]: "digits_value (nat_digits n) = n"
proof (induction n rule: nat_digits.induct)
  case (1 n)
  have "n < 10 \<Longrightarrow> of_char (char_of (n + 48) :: char) = n + 48" for n :: nat by (simp add: of_char_of)
  with 1 show ?case by (subst nat_digits.simps) (simp add: digits_value_def)
qed

lemma nat_digits_digits: "c \<in> set (nat_digits n) \<Longrightarrow> 48 \<le> (of_char c :: nat) \<and> of_char c < (58 :: nat)"
proof (induction n rule: nat_digits.induct)
  case (1 n)
  have "m < 10 \<Longrightarrow> of_char (char_of (m + 48) :: char) = m + 48" for m :: nat by (simp add: of_char_of)
  with 1 show ?case by (subst (asm) nat_digits.simps) (auto split: if_splits)
qed

lemma nat_digits_length: "n < 10 ^ k \<Longrightarrow> 0 < k \<Longrightarrow> length (nat_digits n) \<le> k"
proof (induction n arbitrary: k rule: nat_digits.induct)
  case (1 n)
  show ?case
  proof (cases "n < 10")
    case True
    with 1 show ?thesis by (subst nat_digits.simps) simp
  next
    case False
    then obtain j where k: "k = Suc j" "0 < j" using 1 by (cases k; cases "k = 1") auto
    then have "n div 10 < 10 ^ j" using 1 by (simp add: div_less_iff_less_mult mult.commute)
    with 1 k False show ?thesis by (subst nat_digits.simps) simp
  qed
qed

text \<open>C14: \<open>_vscnprintf\<close> returns the number of characters it left in the buffer, as long as the buffer is not
  empty: all of the text when it fits, and the first \<open>size - 1\<close> characters otherwise.\<close>

theorem vscnprintf_correct:
  assumes "0 < unat sz" "unat sz < 2147483648" "length text \<le> INT_MAX"
  shows "vscnprintf sz text = (int (min (length text) (unat sz - 1)), take (unat sz - 1) text)"
  using vscnprintf_fits [OF assms] by (simp add: min_def)

theorem vscnprintf_correct_witness:
  "vscnprintf 4 ''bitzer'' = (3, ''bit'')"
  using vscnprintf_correct [of 4 "''bitzer''"] by (simp add: INT_MAX_def)

text \<open>C15: With an empty buffer \<open>_vscnprintf\<close> returns -1 for every text, and 0 for the empty one: its result is
  then not a number of characters.\<close>

theorem vscnprintf_empty_buffer:
  "length text \<le> INT_MAX \<Longrightarrow> vscnprintf 0 text = (if text = [] then 0 else - 1, [])"
  by (auto simp: vscnprintf_def vsnprintf_def to_int_minus_one to_int_small)

theorem vscnprintf_empty_buffer_witness: "vscnprintf 0 ''x'' = (- 1, [])"
  using vscnprintf_empty_buffer [of "''x''"] by (simp add: INT_MAX_def)

end
