(* ===== verification/Log.thy ===== *)
theory Log
  imports Strutil
begin

text \<open>
  \<open>src/log.h\<close>, \<open>src/log.c\<close> and \<open>src/alloc.c\<close>. A log call carries the file and line that its macro expands
  to, and its format with the arguments as a list of \<open>piece\<close>s. The build without \<open>BZ_DEBUG_LOG\<close> is
  modelled: \<open>bz_log_debug\<close> is empty there. Nothing but the unused macro \<open>bz_abort\<close> calls \<open>bz_log_backtrace\<close>.
\<close>

section \<open>Levels\<close>

definition BZ_LOG_EMERG :: int where "BZ_LOG_EMERG = 0"
definition BZ_LOG_ERROR :: int where "BZ_LOG_ERROR = 3"
definition BZ_LOG_WARN :: int where "BZ_LOG_WARN = 4"
definition BZ_LOG_NOTICE :: int where "BZ_LOG_NOTICE = 5"
definition BZ_LOG_INFO :: int where "BZ_LOG_INFO = 6"
definition BZ_LOG_VERB :: int where "BZ_LOG_VERB = 8"

definition BZ_MAX_ERR_STR :: int where "BZ_MAX_ERR_STR = 1024"

definition loglevel_desc :: "string list" where
  "loglevel_desc = [''emerge'', ''alert'', ''critical'', ''error'', ''warning'', ''notice'', ''info'', ''debug'', ''verb'']"

definition MAX_LEVEL_DESC_LEN :: nat where
  "MAX_LEVEL_DESC_LEN = length ''critical''"

definition STDERR_FILENO :: int where "STDERR_FILENO = 2"

text \<open>The file mode 0644.\<close>

definition mode_0644 :: int where "mode_0644 = 6 * 64 + 4 * 8 + 4"

section \<open>Writing a record\<close>

text \<open>\<open>strrchr\<close>: the text from the last occurrence of the character on.\<close>

fun strrchr :: "string \<Rightarrow> char \<Rightarrow> string option" where
  "strrchr [] c = None"
| "strrchr (x # xs) c = (case strrchr xs c of Some t \<Rightarrow> Some t | None \<Rightarrow> if x = c then Some (x # xs) else None)"

definition bz_basename :: "string \<Rightarrow> string" where
  "bz_basename path = (case strrchr path (CHR ''/'') of Some t \<Rightarrow> tl t | None \<Rightarrow> path)"

text \<open>\<open>loglevel_desc[level]\<close>: reading outside of the array is undefined.\<close>

definition level_desc :: "int \<Rightarrow> string option" where
  "level_desc level =
     (if 0 \<le> level \<and> nat level < length loglevel_desc then Some (loglevel_desc ! nat level) else None)"

definition log_header :: "tm \<Rightarrow> int \<Rightarrow> int \<Rightarrow> string \<Rightarrow> int \<Rightarrow> piece list option" where
  "log_header tm usec level file line = map_option (\<lambda>desc.
     [Lit ''['', Dec0 4 (tm_year tm + 1900), Lit ''-'', Dec0 2 (tm_mon tm + 1), Lit ''-'', Dec0 2 (tm_mday tm), Lit '' '',
      Dec0 2 (tm_hour tm), Lit '':'', Dec0 2 (tm_min tm), Lit '':'', Dec0 2 (tm_sec tm), Lit ''.'', Dec usec, Lit ''] ['',
      TxtR MAX_LEVEL_DESC_LEN desc, Lit ''] ['',
      TxtL 12 (bz_basename file), Lit '':'', DecL 4 line, Lit ''] '']) (level_desc level)"

text \<open>The argument \<open>size - len\<close> of the formatting calls, as a \<open>size_t\<close>.\<close>

definition space_left :: "int \<Rightarrow> 64 word" where
  "space_left len = word_of_int (BZ_MAX_ERR_STR - len)"

text \<open>\<open>_log\<close>. \<open>errno\<close> is saved after the two calls that read the time. The buffer holds the characters that the
  two formatting calls left in it.\<close>

definition log_record :: "os \<Rightarrow> addr \<Rightarrow> string \<Rightarrow> int \<Rightarrow> int \<Rightarrow> piece list \<Rightarrow> unit prog" where
  "log_record os log file line level fmt =
     bindr (if log = NULL then ret True else getsome (\<lambda>s. map_option (\<lambda>fd. fd < 0) (peek lg_fd (w_logs s) log))) (\<lambda>skip.
     if skip then ret () else
     bindr (gets (\<lambda>s. os_clock os (w_trace s))) (\<lambda>(sec, usec).
     bindr (modify (\<lambda>s. s\<lparr>w_errno := os_time_errno os (w_trace s) (w_errno s)\<rparr>)) (\<lambda>_.
     bindr (gets w_errno) (\<lambda>errno_save.
     bindr (getsome (\<lambda>s. Option.bind (log_header (os_localtime os sec) usec level file line) (render s))) (\<lambda>head.
     let (len, buf) = scnprintf (space_left 0) head in
     bindr (getsome (\<lambda>s. render s fmt)) (\<lambda>text.
     let (n, out) = vscnprintf (space_left len) text; len = len + n; buf = buf @ out in
     if len < 0 \<or> BZ_MAX_ERR_STR \<le> len then stuck else
     bindr (getsome (\<lambda>s. peek lg_fd (w_logs s) log)) (\<lambda>fd.
     bindr (syscall os (Write fd (take (nat len) buf @ [CHR 0x0A]))) (\<lambda>r.
     bindr (whenr (r < 0) (modifysome (\<lambda>s. do {
       logs \<leftarrow> poke (w_logs s) log (\<lambda>l. l\<lparr>lg_nerr := lg_nerr l + 1\<rparr>);
       Some (s\<lparr>w_logs := logs\<rparr>) }))) (\<lambda>_.
     modify (\<lambda>s. s\<lparr>w_errno := errno_save\<rparr>))))))))))"

definition bz_log :: "os \<Rightarrow> addr \<Rightarrow> int \<Rightarrow> string \<Rightarrow> int \<Rightarrow> piece list \<Rightarrow> unit prog" where
  "bz_log os log level file line fmt =
     bindr (getsome (\<lambda>s. peek lg_level (w_logs s) log)) (\<lambda>log_level.
     whenr (level \<le> log_level) (log_record os log file line level fmt))"

definition bz_log_warn :: "os \<Rightarrow> addr \<Rightarrow> string \<Rightarrow> int \<Rightarrow> piece list \<Rightarrow> unit prog" where
  "bz_log_warn os log file line fmt =
     bindr (getsome (\<lambda>s. peek lg_level (w_logs s) log)) (\<lambda>log_level.
     whenr (BZ_LOG_WARN \<le> log_level) (log_record os log file line BZ_LOG_WARN fmt))"

definition bz_log_error :: "os \<Rightarrow> addr \<Rightarrow> string \<Rightarrow> int \<Rightarrow> piece list \<Rightarrow> unit prog" where
  "bz_log_error os log file line fmt =
     bindr (getsome (\<lambda>s. peek lg_level (w_logs s) log)) (\<lambda>log_level.
     whenr (BZ_LOG_ERROR \<le> log_level) (log_record os log file line BZ_LOG_ERROR fmt))"

text \<open>\<open>_log_stderr\<close>.\<close>

definition bz_log_stderr :: "os \<Rightarrow> piece list \<Rightarrow> unit prog" where
  "bz_log_stderr os fmt =
     bindr (getsome (\<lambda>s. render s fmt)) (\<lambda>text.
     let (len, buf) = vscnprintf (word_of_int BZ_MAX_ERR_STR) text in
     if len < 0 \<or> BZ_MAX_ERR_STR \<le> len then stuck else
     bindr (syscall os (Write STDERR_FILENO (take (nat len) buf @ [CHR 0x0A]))) (\<lambda>_. ret ()))"

section \<open>Opening and closing a log\<close>

definition bz_log_create :: "os \<Rightarrow> int \<Rightarrow> addr \<Rightarrow> addr prog" where
  "bz_log_create os level filename =
     bindr (malloc os sizeof_log) (\<lambda>log.
     if log = NULL then ret NULL else
     let lvl = min BZ_LOG_VERB (max BZ_LOG_EMERG level);
         set_log = (\<lambda>fd. modify (\<lambda>s. s\<lparr>w_logs := (w_logs s)(log \<mapsto>
           \<lparr>lg_level = lvl, lg_file = filename, lg_fd = fd, lg_nerr = 0\<rparr>)\<rparr>)) in
     bindr (if filename = NULL then ret [] else getsome (\<lambda>s. str_at s filename)) (\<lambda>name.
     if name = [] then bindr (set_log STDERR_FILENO) (\<lambda>_. ret log) else
     bindr (syscall os (Open name [O_WRONLY, O_APPEND, O_CREAT] (Some mode_0644))) (\<lambda>fd.
     bindr (set_log fd) (\<lambda>_.
     if fd < 0 then
       bindr (strerror os) (\<lambda>e.
       bindr (bz_log_stderr os [Lit ''open log file '', Chr (CHR 0x27), Str filename, Chr (CHR 0x27), Lit '' failed: '', Txt e]) (\<lambda>_.
       bindr (free log) (\<lambda>_.
       ret NULL)))
     else ret log))))"

definition bz_log_close :: "os \<Rightarrow> addr \<Rightarrow> unit prog" where
  "bz_log_close os log =
     (if log = NULL then ret () else
      bindr (getsome (\<lambda>s. peek lg_fd (w_logs s) log)) (\<lambda>fd.
      bindr (whenr (fd > 0 \<and> fd \<noteq> STDERR_FILENO) (bindr (syscall os (Close fd)) (\<lambda>_. ret ()))) (\<lambda>_.
      free log)))"

definition bz_log_reopen :: "os \<Rightarrow> addr \<Rightarrow> unit prog" where
  "bz_log_reopen os log =
     (if log = NULL then ret () else
      bindr (getsome (\<lambda>s. peek lg_fd (w_logs s) log)) (\<lambda>fd.
      if fd = STDERR_FILENO then ret () else
      bindr (whenr (fd > 0) (bindr (syscall os (Close fd)) (\<lambda>_. ret ()))) (\<lambda>_.
      bindr (getsome (\<lambda>s. peek lg_file (w_logs s) log)) (\<lambda>file.
      bindr (getsome (\<lambda>s. str_at s file)) (\<lambda>name.
      bindr (syscall os (Open name [O_WRONLY, O_APPEND, O_CREAT] (Some mode_0644))) (\<lambda>fd.
      bindr (modifysome (\<lambda>s. do {
        logs \<leftarrow> poke (w_logs s) log (\<lambda>l. l\<lparr>lg_fd := fd\<rparr>);
        Some (s\<lparr>w_logs := logs\<rparr>) })) (\<lambda>_.
      whenr (fd < 0)
        (bindr (strerror os) (\<lambda>e.
         bz_log_stderr os [Lit ''reopen log file '', Chr (CHR 0x27), Str file, Chr (CHR 0x27), Lit '' failed: '', Txt e])))))))))"

text \<open>\<open>backtrace\<close> and \<open>backtrace_symbols\<close> of the C library are parameters: the number of frames, at most 32, and the address of
  an array of their descriptions, in a block of its own.\<close>

fun bz_log_frames :: "os \<Rightarrow> addr \<Rightarrow> int \<Rightarrow> addr \<Rightarrow> nat \<Rightarrow> nat \<Rightarrow> unit prog" where
  "bz_log_frames os log level bt_strings i 0 = ret ()"
| "bz_log_frames os log level bt_strings i (Suc n) =
     bindr (getsome (\<lambda>s. do { ps \<leftarrow> deref (w_ptrs s) bt_strings; if i < length ps then ps ! i else None })) (\<lambda>line.
     bindr (bz_log os log level ''log.c'' 181 [Str line]) (\<lambda>_.
     bz_log_frames os log level bt_strings (Suc i) n))"

definition bz_log_backtrace :: "os \<Rightarrow> nat prog \<Rightarrow> (nat \<Rightarrow> addr prog) \<Rightarrow> addr \<Rightarrow> int \<Rightarrow> unit prog" where
  "bz_log_backtrace os backtrace backtrace_symbols log level =
     bindr backtrace (\<lambda>bt_size.
     bindr (backtrace_symbols bt_size) (\<lambda>bt_strings.
     bindr (bz_log_frames os log level bt_strings 0 bt_size) (\<lambda>_.
     free bt_strings)))"

section \<open>Allocation (alloc.c)\<close>

definition bz_alloc :: "os \<Rightarrow> nat \<Rightarrow> addr \<Rightarrow> addr prog" where
  "bz_alloc os n log =
     bindr (malloc os n) (\<lambda>p.
     bindr (whenr (p = NULL) (bz_log_error os log ''alloc.c'' 29 [Lit ''malloc('', Size n, Lit '') failed''])) (\<lambda>_.
     ret p))"

text \<open>\<open>bz_calloc\<close> of a buffer: \<open>memset\<close> writes every byte.\<close>

definition bz_calloc :: "os \<Rightarrow> nat \<Rightarrow> addr \<Rightarrow> addr prog" where
  "bz_calloc os n log =
     bindr (bz_alloc os n log) (\<lambda>p.
     if p \<noteq> NULL
     then bindr (modify (\<lambda>s. s\<lparr>w_bytes := (w_bytes s)(p \<mapsto> replicate n (Some (CHR 0x00)))\<rparr>)) (\<lambda>_. ret p)
     else ret p)"

section \<open>What a log call does\<close>

lemma render_errno [simp]: "render (s\<lparr>w_errno := e\<rparr>) ps = render s ps"
proof -
  have "str_at (s\<lparr>w_errno := e\<rparr>) = str_at s" by (rule ext) (simp add: str_at_def)
  then have "render_piece (s\<lparr>w_errno := e\<rparr>) p = render_piece s p" for p by (cases p) simp_all
  then show ?thesis by (induction ps) simp_all
qed

definition known_level :: "int \<Rightarrow> bool" where
  "known_level level \<longleftrightarrow> BZ_LOG_EMERG \<le> level \<and> level \<le> BZ_LOG_VERB"

lemma known_levels [simp]:
  "known_level BZ_LOG_ERROR" "known_level BZ_LOG_WARN" "known_level BZ_LOG_NOTICE" "known_level BZ_LOG_INFO"
  by (simp_all add: known_level_def BZ_LOG_EMERG_def BZ_LOG_ERROR_def BZ_LOG_WARN_def BZ_LOG_NOTICE_def BZ_LOG_INFO_def BZ_LOG_VERB_def)

lemma level_desc: "known_level level \<longleftrightarrow> (\<exists>d. level_desc level = Some d)"
  by (auto simp: known_level_def level_desc_def BZ_LOG_EMERG_def BZ_LOG_VERB_def loglevel_desc_def)

lemma render_header: "known_level level \<Longrightarrow> \<exists>t. Option.bind (log_header tm usec level file line) (render s) = Some t"
  by (auto simp: level_desc log_header_def)

definition header_text :: "os \<Rightarrow> world \<Rightarrow> string \<Rightarrow> int \<Rightarrow> int \<Rightarrow> string" where
  "header_text os s file line level =
     (let (sec, usec) = os_clock os (w_trace s)
      in the (Option.bind (log_header (os_localtime os sec) usec level file line) (render s)))"

lemma vscnprintf_range:
  assumes "0 < unat sz" "unat sz < 2147483648"
  shows "0 \<le> fst (vscnprintf sz t) \<and> fst (vscnprintf sz t) < int (unat sz)"
proof (cases "length t \<le> INT_MAX")
  case True
  with assms show ?thesis by (simp add: vscnprintf_fits del: of_nat_unat)
next
  case False
  with assms show ?thesis by (simp add: vscnprintf_def vsnprintf_def del: of_nat_unat)
qed

definition record_bytes :: "string \<Rightarrow> string \<Rightarrow> string" where
  "record_bytes head text =
     (let (len, buf) = scnprintf (space_left 0) head;
          (n, out) = vscnprintf (space_left len) text
      in take (nat (len + n)) (buf @ out) @ [CHR 0x0A])"

lemma buffer_size:
  assumes "0 \<le> k" "k \<le> 1024"
  shows "unat (word_of_int k :: 64 word) = nat k"
proof -
  have "take_bit 64 k = k" by (rule take_bit_int_eq_self) (use assms in simp_all)
  then show ?thesis by (simp add: unat_eq_nat_uint unsigned_of_int)
qed

lemma buffer_lengths:
  assumes "scnprintf (space_left 0) head = (len, buf)"
    and "vscnprintf (space_left len) t = (n, out)"
  shows "0 \<le> len" "len < 1024" "0 \<le> n" "len + n < 1024"
proof -
  have u: "unat (word_of_int 1024 :: 64 word) = nat 1024" by (rule buffer_size) simp_all
  show l: "0 \<le> len" "len < 1024"
    using vscnprintf_range [of "word_of_int 1024" head] assms(1) unfolding u scnprintf_def BZ_MAX_ERR_STR_def space_left_def by simp_all
  define k where "k = 1024 - len"
  have k: "0 < k" "k \<le> 1024" using l by (simp_all add: k_def)
  then have v: "unat (word_of_int k :: 64 word) = nat k" by (intro buffer_size) simp_all
  have "0 \<le> n \<and> n < k"
    using vscnprintf_range [of "word_of_int k" t] assms(2) k unfolding v space_left_def BZ_MAX_ERR_STR_def k_def [symmetric] by simp
  then show "0 \<le> n" "len + n < 1024" by (simp_all add: k_def)
qed

lemma record_bytes_fits:
  assumes "length head \<le> INT_MAX" "length t \<le> INT_MAX"
  shows "record_bytes head t = take 1023 (head @ t) @ [CHR 0x0A]"
proof -
  let ?l = "length (take 1023 head)"
  have u: "unat (word_of_int 1024 :: 64 word) = nat 1024" by (rule buffer_size) simp_all
  have s1: "scnprintf (space_left 0) head = (int ?l, take 1023 head)"
    using vscnprintf_fits [of "word_of_int 1024" head] assms(1)
    unfolding scnprintf_def u space_left_def BZ_MAX_ERR_STR_def by simp
  define k where "k = 1024 - int ?l"
  have k: "0 < k" "k \<le> 1024" "nat k = 1024 - ?l" by (auto simp: k_def)
  then have v: "unat (word_of_int k :: 64 word) = nat k" by (intro buffer_size) simp_all
  have s2: "vscnprintf (space_left (int ?l)) t = (int (length (take (1023 - ?l) t)), take (1023 - ?l) t)"
    using vscnprintf_fits [of "word_of_int k" t] assms(2) k
    unfolding v space_left_def BZ_MAX_ERR_STR_def k_def [symmetric] by simp
  show ?thesis
    unfolding record_bytes_def s1 Let_def prod.case s2 by (cases "length head \<le> 1023"; cases "length t \<le> 1023 - length head") (simp_all add: nat_add_distrib)
qed

lemma log_record_run:
  assumes l: "deref (w_logs s) log = Some l" "0 \<le> lg_fd l" and tx: "render s fmt = Some text" and lv: "known_level level"
  shows "log_record os log file line level fmt s =
    (let c = Write (lg_fd l) (record_bytes (header_text os s file line level) text);
         r = fst (os_call os (w_trace s) c) in
     Some (Ret (), s\<lparr>w_trace := (c, r) # w_trace s, w_errno := os_time_errno os (w_trace s) (w_errno s),
       w_logs := (if r < 0 then (w_logs s)(log \<mapsto> l\<lparr>lg_nerr := lg_nerr l + 1\<rparr>) else w_logs s)\<rparr>))"
proof -
  have nn: "log \<noteq> NULL" using l by (auto dest: deref_not_NULL)
  obtain sec usec where clock: "os_clock os (w_trace s) = (sec, usec)" by (cases "os_clock os (w_trace s)")
  define e0 where "e0 = os_time_errno os (w_trace s) (w_errno s)"
  obtain head where head: "Option.bind (log_header (os_localtime os sec) usec level file line) (render s) = Some head"
    using render_header [OF lv] by blast
  then have ht: "header_text os s file line level = head"
    by (simp add: header_text_def clock)
  have render_bind: "Option.bind (log_header (os_localtime os sec) usec level file line) (render (s\<lparr>w_errno := e0\<rparr>)) = Some head"
    using head by (cases "log_header (os_localtime os sec) usec level file line") simp_all
  obtain len buf where b1: "scnprintf (space_left 0) head = (len, buf)" by (cases "scnprintf (space_left 0) head")
  obtain n out where b2: "vscnprintf (space_left len) text = (n, out)"
    by (cases "vscnprintf (space_left len) text")
  note range = buffer_lengths [OF b1 b2]
  have bytes: "record_bytes head text = take (nat (len + n)) (buf @ out) @ [CHR 0x0A]"
    by (simp add: record_bytes_def b1 b2)
  obtain r e where r: "os_call os (w_trace s) (Write (lg_fd l) (record_bytes head text)) = (r, e)"
    by (cases "os_call os (w_trace s) (Write (lg_fd l) (record_bytes head text))")
  have fd: "peek lg_fd (w_logs s) log = Some (lg_fd l)" using l by (simp add: peek_def)
  have ok: "\<not> (len + n < 0 \<or> BZ_MAX_ERR_STR \<le> len + n)" using range by (simp add: BZ_MAX_ERR_STR_def)
  have poke: "poke (w_logs s) log u = Some ((w_logs s)(log \<mapsto> u l))" for u using l by (simp add: poke_def)
  show ?thesis
    using nn l r ok fd bytes [symmetric] e0_def [symmetric] render_bind
    by (cases "r < 0")
      (simp_all add: log_record_def run_simps clock tx b1 b2 ht poke Let_def)
qed

section \<open>Logging is quiet\<close>

text \<open>A log call writes to its file, may count an error, and changes nothing else: not even \<open>errno\<close>, when reading the
  time keeps it.\<close>

definition time_keeps_errno :: "os \<Rightarrow> bool" where
  "time_keeps_errno os \<longleftrightarrow> (\<forall>tr e. os_time_errno os tr e = e)"

definition is_write :: "call \<Rightarrow> bool" where
  "is_write c = (case c of Write fd t \<Rightarrow> True | _ \<Rightarrow> False)"

definition same_logs :: "(addr \<rightharpoonup> bz_log_s) \<Rightarrow> (addr \<rightharpoonup> bz_log_s) \<Rightarrow> bool" where
  "same_logs L L' \<longleftrightarrow> (\<forall>a. map_option (\<lambda>l. l\<lparr>lg_nerr := 0\<rparr>) (L' a) = map_option (\<lambda>l. l\<lparr>lg_nerr := 0\<rparr>) (L a))"

definition quiet :: "os \<Rightarrow> world \<Rightarrow> world \<Rightarrow> bool" where
  "quiet os s s' \<longleftrightarrow> (\<exists>tr L e. s' = s\<lparr>w_trace := tr @ w_trace s, w_logs := L, w_errno := e\<rparr> \<and>
     (time_keeps_errno os \<longrightarrow> e = w_errno s) \<and> list_all (\<lambda>e. is_write (fst e)) tr \<and> same_logs (w_logs s) L)"

lemma same_logs_refl [simp]: "same_logs L L"
  by (simp add: same_logs_def)

lemma same_logs_trans: "same_logs L M \<Longrightarrow> same_logs M N \<Longrightarrow> same_logs L N"
  by (simp add: same_logs_def)

lemma same_logs_deref:
  assumes "same_logs L L'" "deref L a = Some l"
  obtains l' where "deref L' a = Some l'" "lg_level l' = lg_level l" "lg_fd l' = lg_fd l" "lg_file l' = lg_file l"
proof -
  have La: "L a = Some l" "a \<noteq> NULL" using assms(2) by (auto simp: deref_def split: if_splits)
  have "map_option (\<lambda>l. l\<lparr>lg_nerr := 0\<rparr>) (L' a) = Some (l\<lparr>lg_nerr := 0\<rparr>)"
    using assms(1) La(1) by (simp add: same_logs_def)
  then obtain l' where l': "L' a = Some l'" "l'\<lparr>lg_nerr := 0\<rparr> = l\<lparr>lg_nerr := 0\<rparr>" by (cases "L' a") auto
  from l'(2) have "lg_level l' = lg_level l" "lg_fd l' = lg_fd l" "lg_file l' = lg_file l"
    by (cases l; cases l'; simp)+
  with l' La show thesis by (intro that [of l']) (simp_all add: deref_def)
qed

lemma quiet_refl [simp]: "quiet os s s"
  unfolding quiet_def by (intro exI [of _ "[]"] exI [of _ "w_logs s"] exI [of _ "w_errno s"]) simp

lemma quiet_write:
  assumes "same_logs (w_logs s) L" "time_keeps_errno os \<longrightarrow> e = w_errno s" "is_write c"
  shows "quiet os s (s\<lparr>w_trace := (c, r) # w_trace s, w_errno := e, w_logs := L\<rparr>)"
  unfolding quiet_def by (intro exI [of _ "[(c, r)]"] exI [of _ L] exI [of _ e]) (use assms in simp)

lemma quiet_trans [trans]:
  assumes "quiet os s s'" "quiet os s' s''"
  shows "quiet os s s''"
proof -
  from assms(1) obtain tr L e where 1: "s' = s\<lparr>w_trace := tr @ w_trace s, w_logs := L, w_errno := e\<rparr>"
    "time_keeps_errno os \<longrightarrow> e = w_errno s" "list_all (\<lambda>e. is_write (fst e)) tr" "same_logs (w_logs s) L" by (auto simp: quiet_def)
  from assms(2) obtain ur M f where 2: "s'' = s'\<lparr>w_trace := ur @ w_trace s', w_logs := M, w_errno := f\<rparr>"
    "time_keeps_errno os \<longrightarrow> f = w_errno s'" "list_all (\<lambda>e. is_write (fst e)) ur" "same_logs (w_logs s') M" by (auto simp: quiet_def)
  have "s'' = s\<lparr>w_trace := (ur @ tr) @ w_trace s, w_logs := M, w_errno := f\<rparr>" using 1(1) 2(1) by simp
  moreover have "time_keeps_errno os \<longrightarrow> f = w_errno s" using 1(1,2) 2(2) by simp
  moreover have "list_all (\<lambda>e. is_write (fst e)) (ur @ tr)" using 1(3) 2(3) by simp
  moreover have "same_logs (w_logs s) M" using 1 2(4) by (auto intro: same_logs_trans)
  ultimately show ?thesis unfolding quiet_def by blast
qed

lemma quiet_fields:
  assumes "quiet os s s'"
  shows "w_blocks s' = w_blocks s" "w_bytes s' = w_bytes s" "w_ptrs s' = w_ptrs s" "w_tasks s' = w_tasks s"
    "w_lists s' = w_lists s" "w_nodes s' = w_nodes s" "w_confs s' = w_confs s" "w_ctxs s' = w_ctxs s"
    "w_insts s' = w_insts s" "time_keeps_errno os \<Longrightarrow> w_errno s' = w_errno s" "g_context s' = g_context s" "bz_quit s' = bz_quit s"
    "bz_terminate s' = bz_terminate s" "bz_reconfigure s' = bz_reconfigure s" "bz_reopen s' = bz_reopen s"
    "bz_child s' = bz_child s" "g_task s' = g_task s" "same_logs (w_logs s) (w_logs s')"
  using assms by (auto simp: quiet_def)

definition valid_log :: "world \<Rightarrow> addr \<Rightarrow> bool" where
  "valid_log s log \<longleftrightarrow> deref (w_logs s) log \<noteq> None"

lemma quiet_valid_log: "quiet os s s' \<Longrightarrow> valid_log s log \<Longrightarrow> valid_log s' log"
  by (auto simp: valid_log_def dest!: quiet_fields(18) elim: same_logs_deref)

lemma log_record_quiet:
  assumes "deref (w_logs s) log = Some l" and "render s fmt = Some t" and "known_level level"
  shows "returns (log_record os log file line level fmt) (\<lambda>_ s'. quiet os s s') s"
proof (cases "0 \<le> lg_fd l")
  case True
  have nn: "(w_logs s) log = Some l" using assms(1) by (auto simp: deref_def split: if_splits)
  show ?thesis
    unfolding returns_def log_record_run [OF assms(1) True assms(2,3)] Let_def
    by (intro exI conjI, rule refl, rule quiet_write) (use nn in \<open>auto simp: is_write_def same_logs_def time_keeps_errno_def\<close>)
next
  case False
  with assms show ?thesis
    by (auto simp: log_record_def run_simps returns_def peek_def dest: deref_not_NULL)
qed

lemma bz_log_quiet:
  assumes "valid_log s log" "render s fmt \<noteq> None"
  shows "known_level level \<Longrightarrow> returns (bz_log os log level file line fmt) (\<lambda>_ s'. quiet os s s') s"
    "returns (bz_log_error os log file line fmt) (\<lambda>_ s'. quiet os s s') s"
    "returns (bz_log_warn os log file line fmt) (\<lambda>_ s'. quiet os s s') s"
proof -
  obtain l t where l: "deref (w_logs s) log = Some l" "render s fmt = Some t"
    using assms by (auto simp: valid_log_def)
  then have p: "peek lg_level (w_logs s) log = Some (lg_level l)" by (simp add: peek_def)
  have w: "returns (whenr b (log_record os log file line lv fmt)) (\<lambda>_ s'. quiet os s s') s" if "known_level lv" for b lv
    using log_record_quiet [OF l that] by (cases b) auto
  then have b: "returns (bindr (getsome (\<lambda>s. peek lg_level (w_logs s) log)) (\<lambda>log_level.
      whenr (lv \<le> log_level) (log_record os log file line lv fmt))) (\<lambda>_ s'. quiet os s s') s" if "known_level lv" for lv
    using w [OF that] by (intro returns_bindr) (simp add: p)
  show "known_level level \<Longrightarrow> returns (bz_log os log level file line fmt) (\<lambda>_ s'. quiet os s s') s"
    unfolding bz_log_def by (rule b)
  show "returns (bz_log_error os log file line fmt) (\<lambda>_ s'. quiet os s s') s"
    unfolding bz_log_error_def by (rule b) simp
  show "returns (bz_log_warn os log file line fmt) (\<lambda>_ s'. quiet os s s') s"
    unfolding bz_log_warn_def by (rule b) simp
qed

lemma quiet_str_at: "quiet os s s' \<Longrightarrow> str_at s' = str_at s"
  by (rule ext) (simp add: str_at_def quiet_fields)

text \<open>A backtrace is as quiet as its lines.\<close>

lemma bz_log_frames_quiet:
  assumes "valid_log s log" "deref (w_ptrs s) p = Some ps" "list_all (\<lambda>q. \<exists>x. q = Some x \<and> str_at s x \<noteq> None) ps" "i + n \<le> length ps" "known_level level"
  shows "returns (bz_log_frames os log level p i n) (\<lambda>_ s'. quiet os s s') s"
  using assms
proof (induction n arbitrary: i s)
  case (Suc n)
  have "i < length ps" using Suc.prems(4) by simp
  then obtain x where x: "ps ! i = Some x" "str_at s x \<noteq> None" using Suc.prems(3) unfolding list_all_length by blast
  have "render s [Str x] \<noteq> None" using x(2) by simp
  from bz_log_quiet(1) [OF Suc.prems(1) this Suc.prems(5)] obtain s1 where
    1: "bz_log os log level ''log.c'' 181 [Str x] s = Some (Ret (), s1)" "quiet os s s1" by (rule returnsE) simp
  have "returns (bz_log_frames os log level p (Suc i) n) (\<lambda>_ s'. quiet os s1 s') s1"
    by (rule Suc.IH) (use Suc.prems 1(2) in \<open>auto simp: quiet_valid_log quiet_fields quiet_str_at\<close>)
  then show ?case using Suc.prems(2,4) x(1) 1 quiet_trans [OF 1(2)]
    by (auto simp: returns_def bindr_getsome bindr_Ret)
qed simp

text \<open>A message on the standard error may change \<open>errno\<close>.\<close>

definition loud :: "world \<Rightarrow> world \<Rightarrow> bool" where
  "loud s s' \<longleftrightarrow> (\<exists>tr e. s' = s\<lparr>w_trace := tr @ w_trace s, w_errno := e\<rparr> \<and> list_all (\<lambda>e. is_write (fst e)) tr)"

lemma bz_log_stderr_loud:
  assumes "render s fmt \<noteq> None"
  shows "returns (bz_log_stderr os fmt) (\<lambda>_ s'. loud s s') s"
proof -
  obtain t where t: "render s fmt = Some t" using assms by auto
  obtain len buf where b: "vscnprintf (word_of_int BZ_MAX_ERR_STR) t = (len, buf)"
    by (cases "vscnprintf (word_of_int BZ_MAX_ERR_STR) t")
  have u: "unat (word_of_int 1024 :: 64 word) = nat 1024" by (rule buffer_size) simp_all
  have "\<not> (len < 0 \<or> BZ_MAX_ERR_STR \<le> len)"
    using vscnprintf_range [of "word_of_int 1024" t] b unfolding u BZ_MAX_ERR_STR_def by simp
  moreover define c where "c = Write STDERR_FILENO (take (nat len) buf @ [CHR 0x0A])"
  moreover define r where "r = os_call os (w_trace s) c"
  ultimately have "bz_log_stderr os fmt s = Some (Ret (), s\<lparr>w_trace := [(c, fst r)] @ w_trace s,
      w_errno := (if fst r < 0 then snd r else w_errno s)\<rparr>)"
    by (simp add: bz_log_stderr_def run_simps t b Let_def split: prod.split)
  moreover have "list_all (\<lambda>e. is_write (fst e)) [(c, fst r)]" by (simp add: c_def is_write_def)
  ultimately show ?thesis unfolding returns_def loud_def by blast
qed

section \<open>The life of a log\<close>

text \<open>What \<open>bz_log_create\<close> leaves: a log on the standard error or on the opened file, or the memory as it was.\<close>

definition log_created :: "int \<Rightarrow> addr \<Rightarrow> world \<Rightarrow> addr \<Rightarrow> world \<Rightarrow> bool" where
  "log_created level filename s log s' \<longleftrightarrow>
     (if log = NULL then w_blocks s' = w_blocks s \<and> w_logs s' = w_logs s
      else fresh_block (w_blocks s) log sizeof_log \<and> w_blocks s' = (log, sizeof_log) # w_blocks s \<and>
        (\<exists>fd. w_logs s' = (w_logs s)(log \<mapsto>
            \<lparr>lg_level = min 8 (max 0 level), lg_file = filename, lg_fd = fd, lg_nerr = 0\<rparr>) \<and>
          (if filename = NULL \<or> str_at s filename = Some [] then fd = 2 \<and> w_trace s' = w_trace s
           else 0 \<le> fd \<and> (\<exists>name. str_at s filename = Some name \<and>
             w_trace s' = (Open name [O_WRONLY, O_APPEND, O_CREAT] (Some mode_0644), fd) # w_trace s))))"

lemma log_levels: "min BZ_LOG_VERB (max BZ_LOG_EMERG level) = min 8 (max 0 level)"
  by (simp add: BZ_LOG_VERB_def BZ_LOG_EMERG_def)

lemma without_block:
  assumes "in_blocks s" "fresh_block (w_blocks s) a n" "0 < n"
  shows "without a n ((w_logs s)(a \<mapsto> v)) = w_logs s"
proof -
  note assms
  moreover have "dom (w_logs s) \<subseteq> objects s" by (auto simp: objects_def)
  ultimately show ?thesis using without_fresh [of "w_logs s" s a n] by (simp add: without_upd)
qed

lemma bz_log_create_created:
  assumes fresh: "malloc_fresh os" and mem: "in_blocks s" and name: "filename = NULL \<or> str_at s filename \<noteq> None"
  shows "returns (bz_log_create os level filename) (log_created level filename s) s"
  using fresh
proof (cases rule: malloc_cases [of os sizeof_log s])
  case fail
  then show ?thesis by (simp add: returns_def bz_log_create_def bindr_Ret run_simps log_created_def)
next
  case (block log)
  let ?s1 = "s\<lparr>w_blocks := (log, sizeof_log) # w_blocks s\<rparr>"
  have str: "str_at ?s1 = str_at s" by (simp add: str_at_def fun_eq_iff)
  show ?thesis
  proof (cases "filename = NULL \<or> str_at s filename = Some []")
    case True
    then show ?thesis using block
      by (auto simp: returns_def bz_log_create_def bindr_Ret run_simps log_created_def str log_levels STDERR_FILENO_def Let_def)
  next
    case False
    then obtain nm where nm: "str_at s filename = Some nm" "nm \<noteq> []" "filename \<noteq> NULL" using name by auto
    let ?c = "Open nm [O_WRONLY, O_APPEND, O_CREAT] (Some mode_0644)"
    obtain fd e where r: "os_call os (w_trace s) ?c = (fd, e)" by (cases "os_call os (w_trace s) ?c")
    show ?thesis
    proof (cases "fd < 0")
      case False
      then show ?thesis using block nm r
        by (auto simp: returns_def bz_log_create_def bindr_Ret run_simps log_created_def str log_levels Let_def)
    next
      case True
      define s2 where "s2 = ?s1\<lparr>w_trace := (?c, fd) # w_trace s, w_errno := e,
        w_logs := (w_logs s)(log \<mapsto> \<lparr>lg_level = min 8 (max 0 level), lg_file = filename, lg_fd = fd, lg_nerr = 0\<rparr>)\<rparr>"
      let ?msg = "[Lit ''open log file '', Chr (CHR 0x27), Str filename, Chr (CHR 0x27), Lit '' failed: '', Txt (os_strerror os e)]"
      have "str_at s2 filename = Some nm" using nm by (simp add: s2_def str_at_def)
      then have "render s2 ?msg \<noteq> None" using nm by simp
      from bz_log_stderr_loud [OF this, of os] obtain s3 where
        m: "bz_log_stderr os ?msg s2 = Some (Ret (), s3)" and l: "loud s2 s3" by (rule returnsE) simp
      have b3: "w_blocks s3 = (log, sizeof_log) # w_blocks s" "w_logs s3 = w_logs s2"
        using l by (auto simp: loud_def s2_def)
      have bl: "filter (\<lambda>e. fst e \<noteq> log) (w_blocks s) = w_blocks s" using block(3) by (rule fresh_filter)
      have wl: "without log sizeof_log (w_logs s3) = w_logs s"
        unfolding b3 s2_def using without_block [OF mem block(3)] by (simp add: sizeof_log_def)
      have run: "bz_log_create os level filename s = bindr (free log) (\<lambda>_. ret NULL) s3"
        using block True nm r m
        by (simp add: bz_log_create_def bindr_Ret run_simps str log_levels Let_def strerror_def s2_def)
      then show ?thesis
        using block(2) b3 bl wl by (simp add: returns_def bindr_def free_def ret_def log_created_def)
    qed
  qed
qed

lemma bz_log_close_run:
  assumes l: "deref (w_logs s) log = Some l" and b: "map_of (w_blocks s) log = Some n"
  shows "returns (bz_log_close os log) (\<lambda>_ s'. w_blocks s' = filter (\<lambda>e. fst e \<noteq> log) (w_blocks s) \<and>
    w_logs s' = without log n (w_logs s) \<and>
    (if 0 < lg_fd l \<and> lg_fd l \<noteq> 2 then map fst (w_trace s') = Close (lg_fd l) # map fst (w_trace s)
     else w_trace s' = w_trace s)) s"
proof -
  have nn: "log \<noteq> NULL" and fd: "peek lg_fd (w_logs s) log = Some (lg_fd l)"
    using l by (auto simp: peek_def dest: deref_not_NULL)
  obtain r e where r: "os_call os (w_trace s) (Close (lg_fd l)) = (r, e)"
    by (cases "os_call os (w_trace s) (Close (lg_fd l))")
  show ?thesis
  proof (cases "0 < lg_fd l \<and> lg_fd l \<noteq> 2")
    case True
    then have "bz_log_close os log s = free log (s\<lparr>w_trace := (Close (lg_fd l), r) # w_trace s,
        w_errno := (if r < 0 then e else w_errno s)\<rparr>)"
      using nn by (simp add: bz_log_close_def run_simps fd STDERR_FILENO_def r bindr_assoc)
    with True nn b show ?thesis by (simp add: returns_def free_def)
  next
    case False
    then have "bz_log_close os log s = free log s"
      using nn by (auto simp: bz_log_close_def run_simps fd STDERR_FILENO_def)
    with False nn b show ?thesis by (simp add: returns_def free_def)
  qed
qed

lemma log_roundtrip:
  assumes fresh: "malloc_fresh os" and mem: "in_blocks s" and name: "filename = NULL \<or> str_at s filename \<noteq> None"
  shows "returns (bindr (bz_log_create os level filename) (bz_log_close os))
    (\<lambda>_ s'. w_blocks s' = w_blocks s \<and> w_logs s' = w_logs s) s"
proof (rule returns_bindr, rule returns_mono [OF bz_log_create_created [OF assms]])
  fix log s1
  assume c: "log_created level filename s log s1"
  show "returns (bz_log_close os log) (\<lambda>_ s'. w_blocks s' = w_blocks s \<and> w_logs s' = w_logs s) s1"
  proof (cases "log = NULL")
    case True
    with c show ?thesis by (simp add: bz_log_close_def log_created_def)
  next
    case False
    with c obtain fd where fb: "fresh_block (w_blocks s) log sizeof_log" and
      s1: "w_blocks s1 = (log, sizeof_log) # w_blocks s" "w_logs s1 = (w_logs s)(log \<mapsto>
        \<lparr>lg_level = min 8 (max 0 level), lg_file = filename, lg_fd = fd, lg_nerr = 0\<rparr>)"
      by (auto simp: log_created_def)
    have "deref (w_logs s1) log = Some \<lparr>lg_level = min 8 (max 0 level), lg_file = filename, lg_fd = fd, lg_nerr = 0\<rparr>"
      "map_of (w_blocks s1) log = Some sizeof_log" using False s1 by (simp_all add: deref_def)
    from bz_log_close_run [OF this] show ?thesis
    proof (rule returns_mono, intro conjI; elim conjE)
      fix s2
      assume "w_blocks s2 = filter (\<lambda>e. fst e \<noteq> log) (w_blocks s1)"
      with fresh_filter [OF fb] show "w_blocks s2 = w_blocks s" by (simp add: s1)
    next
      fix s2
      assume "w_logs s2 = without log sizeof_log (w_logs s1)"
      then show "w_logs s2 = w_logs s"
        unfolding s1 using without_block [OF mem fb] by (simp add: sizeof_log_def)
    qed
  qed
qed

lemma bz_log_run:
  assumes l: "deref (w_logs s) log = Some l" and t: "render s fmt = Some t"
    and len: "length t \<le> INT_MAX" "length (header_text os s file line level) \<le> INT_MAX" and kl: "known_level level"
  shows "returns (bz_log os log level file line fmt) (\<lambda>_ s'.
    if level \<le> lg_level l \<and> 0 \<le> lg_fd l
    then let c = Write (lg_fd l) (take 1023 (header_text os s file line level @ t) @ [CHR 0x0A]);
             r = fst (os_call os (w_trace s) c)
         in s' = s\<lparr>w_trace := (c, r) # w_trace s, w_errno := os_time_errno os (w_trace s) (w_errno s),
              w_logs := (if r < 0 then (w_logs s)(log \<mapsto> l\<lparr>lg_nerr := lg_nerr l + 1\<rparr>) else w_logs s)\<rparr>
    else s' = s) s"
proof -
  have lv: "peek lg_level (w_logs s) log = Some (lg_level l)" and fd: "peek lg_fd (w_logs s) log = Some (lg_fd l)" and nn: "log \<noteq> NULL"
    using l by (auto simp: peek_def dest: deref_not_NULL)
  consider "\<not> level \<le> lg_level l" | "level \<le> lg_level l" "lg_fd l < 0" | "level \<le> lg_level l" "0 \<le> lg_fd l" by linarith
  then show ?thesis
  proof cases
    case 3
    then show ?thesis
      by (simp add: returns_def bz_log_def run_simps lv log_record_run [OF l _ t kl] Let_def record_bytes_fits [OF len(2,1)])
  qed (use lv fd nn in \<open>simp_all add: returns_def bz_log_def log_record_def run_simps\<close>)
qed

section \<open>The properties of the log\<close>

definition ex_log_world :: world where
  "ex_log_world = ex_world\<lparr>w_blocks := [(100, 32), (200, 8)], w_bytes := [200 \<mapsto> cstr ''b.log''],
     w_logs := [100 \<mapsto> \<lparr>lg_level = 6, lg_file = 200, lg_fd = 5, lg_nerr = 0\<rparr>]\<rparr>"

lemma ex_log_blocks: "in_blocks ex_log_world"
  by (rule in_blocksI) (auto simp: objects_def ex_log_world_def ex_world_def)

lemma ex_log_name: "str_at ex_log_world 200 = Some ''b.log''"
  by (simp add: str_at_def ex_log_world_def deref_def cstr_def)

text \<open>C10: A log call with one of the nine levels, of a level the log accepts, on an open log, writes one record: the
  header and the message, cut at 1023 characters, and a newline. A failed write is counted, and \<open>errno\<close> is what reading the
  time has left in it: neither the formatting nor the write changes it. Otherwise the call does nothing.\<close>

theorem bz_log_correct:
  assumes "deref (w_logs s) log = Some l" "render s fmt = Some t" "length t \<le> INT_MAX"
    "length (header_text os s file line level) \<le> INT_MAX" "BZ_LOG_EMERG \<le> level" "level \<le> BZ_LOG_VERB"
  shows "returns (bz_log os log level file line fmt) (\<lambda>_ s'.
    if level \<le> lg_level l \<and> 0 \<le> lg_fd l
    then let c = Write (lg_fd l) (take 1023 (header_text os s file line level @ t) @ [CHR 0x0A]);
             r = fst (os_call os (w_trace s) c)
         in s' = s\<lparr>w_trace := (c, r) # w_trace s, w_errno := os_time_errno os (w_trace s) (w_errno s),
              w_logs := (if r < 0 then (w_logs s)(log \<mapsto> l\<lparr>lg_nerr := lg_nerr l + 1\<rparr>) else w_logs s)\<rparr>
    else s' = s) s"
  by (rule bz_log_run [OF assms(1-4)]) (simp add: known_level_def assms(5,6))

lemma ex_header: "header_text ex_os ex_log_world ''src/task.c'' 94 3 = ''[2015-05-09 08:07:06.0] [   error] [task.c      :94  ] ''"
  by code_simp

theorem bz_log_correct_witness:
  "returns (bz_log ex_os 100 3 ''src/task.c'' 94 [Lit ''open '', Str 200]) (\<lambda>_ s'. map fst (w_trace s') =
    [Write 5 (''[2015-05-09 08:07:06.0] [   error] [task.c      :94  ] open b.log'' @ [CHR 0x0A])]) ex_log_world"
proof -
  have "deref (w_logs ex_log_world) 100 = Some \<lparr>lg_level = 6, lg_file = 200, lg_fd = 5, lg_nerr = 0\<rparr>"
    "render ex_log_world [Lit ''open '', Str 200] = Some (''open '' @ ''b.log'')"
    by (simp_all add: ex_log_name) (simp add: ex_log_world_def deref_def)
  moreover have "w_trace ex_log_world = []" by (simp add: ex_log_world_def ex_world_def)
  moreover from bz_log_correct [OF calculation(1,2), of ex_os "''src/task.c''" 94 3]
  have "returns (bz_log ex_os 100 3 ''src/task.c'' 94 [Lit ''open '', Str 200]) (\<lambda>_ s'. \<exists>r. w_trace s' =
    (Write 5 (''[2015-05-09 08:07:06.0] [   error] [task.c      :94  ] open b.log'' @ [CHR 0x0A]), r) # w_trace ex_log_world) ex_log_world"
    unfolding ex_header by (auto simp: INT_MAX_def BZ_LOG_EMERG_def BZ_LOG_VERB_def Let_def elim!: returns_mono)
  ultimately show ?thesis by (auto elim!: returns_mono)
qed

lemma log_record_bad_level:
  assumes "deref (w_logs s) log = Some l" "0 \<le> lg_fd l" "\<not> known_level level"
  shows "log_record os log file line level fmt s = None"
proof -
  have "level_desc level = None" using assms(3) by (cases "level_desc level") (auto simp: level_desc)
  then show ?thesis using assms(1,2) by (auto simp: log_record_def run_simps peek_def log_header_def split: prod.split dest: deref_not_NULL)
qed

lemma record_bytes_bounds: "length (record_bytes head t) \<le> 1024 \<and> last (record_bytes head t) = CHR 0x0A"
proof -
  obtain len buf where b1: "scnprintf (space_left 0) head = (len, buf)" by (cases "scnprintf (space_left 0) head")
  obtain n out where b2: "vscnprintf (space_left len) t = (n, out)" by (cases "vscnprintf (space_left len) t")
  have "nat (len + n) \<le> 1023" using buffer_lengths [OF b1 b2] by simp
  moreover have "length (take (nat (len + n)) (buf @ out)) \<le> nat (len + n)" by simp
  ultimately have "length (take (nat (len + n)) (buf @ out)) \<le> 1023" by (rule order_trans [rotated])
  then show ?thesis by (simp add: record_bytes_def b1 b2)
qed

text \<open>C11: With one of the nine levels, a record is one write of at most 1024 bytes, the last of them a newline: however
  long the header and the message are, \<open>_log\<close> stays inside its buffer. With any other level it reads outside of the table
  of the level names, and its behaviour is undefined.\<close>

theorem log_record_bounds:
  assumes "deref (w_logs s) log = Some l" "0 \<le> lg_fd l" "render s fmt = Some t"
  shows "if BZ_LOG_EMERG \<le> level \<and> level \<le> BZ_LOG_VERB
    then returns (log_record os log file line level fmt) (\<lambda>_ s'. \<exists>bytes r.
      w_trace s' = (Write (lg_fd l) bytes, r) # w_trace s \<and> length bytes \<le> 1024 \<and> last bytes = CHR 0x0A) s
    else log_record os log file line level fmt s = None"
proof (cases "known_level level")
  case True
  then show ?thesis unfolding returns_def log_record_run [OF assms True] Let_def known_level_def using record_bytes_bounds by auto
next
  case False
  then show ?thesis using log_record_bad_level [OF assms(1,2) False] by (auto simp: known_level_def)
qed

lemma log_record_bounds_witness:
  "returns (log_record ex_os 100 ''task.c'' 94 3 [Txt (replicate 5000 CHR ''x'')]) (\<lambda>_ s'. \<exists>bytes r.
    w_trace s' = [(Write 5 bytes, r)] \<and> length bytes \<le> 1024) ex_log_world"
proof -
  have "deref (w_logs ex_log_world) 100 = Some \<lparr>lg_level = 6, lg_file = 200, lg_fd = 5, lg_nerr = 0\<rparr>" "w_trace ex_log_world = []"
    by (simp_all add: ex_log_world_def ex_world_def deref_def)
  with log_record_bounds [OF this(1), of "[Txt (replicate 5000 CHR ''x'')]" _ 3 ex_os "''task.c''" 94] show ?thesis
    by (auto simp: BZ_LOG_EMERG_def BZ_LOG_VERB_def elim!: returns_mono)
qed

text \<open>C12: \<open>bz_log_create\<close> returns a log with its level brought into the range from 0 to 8, on the standard error
  for no file name and on the opened file otherwise, or it returns \<open>NULL\<close> and leaks nothing.\<close>

theorem bz_log_create_correct:
  assumes "malloc_fresh os" "in_blocks s" "filename = NULL \<or> str_at s filename \<noteq> None"
  shows "returns (bz_log_create os level filename) (log_created level filename s) s"
  by (rule bz_log_create_created [OF assms])

theorem bz_log_create_correct_witness:
  "returns (bz_log_create ex_os 99 200) (\<lambda>log s'. log \<noteq> NULL \<longrightarrow> (\<exists>l. w_logs s' log = Some l \<and> lg_level l = 8)) ex_log_world"
  by (rule returns_mono [OF bz_log_create_correct [OF ex_os_fresh ex_log_blocks]])
    (auto simp: ex_log_name log_created_def)

text \<open>C13: Creating a log and closing it leaves the memory as it was.\<close>

theorem bz_log_roundtrip:
  assumes "malloc_fresh os" "in_blocks s" "filename = NULL \<or> str_at s filename \<noteq> None"
  shows "returns (bindr (bz_log_create os level filename) (bz_log_close os))
    (\<lambda>_ s'. w_blocks s' = w_blocks s \<and> w_logs s' = w_logs s) s"
  by (rule log_roundtrip [OF assms])

theorem bz_log_roundtrip_witness:
  "returns (bindr (bz_log_create ex_os 99 200) (bz_log_close ex_os))
    (\<lambda>_ s'. w_blocks s' = [(100, 32), (200, 8)]) ex_log_world"
  by (rule returns_mono [OF bz_log_roundtrip [OF ex_os_fresh ex_log_blocks]])
    (simp_all add: ex_log_name, simp add: ex_log_world_def)

end
