(* ===== verification/Sighandler.thy ===== *)
theory Sighandler
  imports Log
begin

text \<open>
  \<open>src/sighandler.h\<close> and \<open>src/sighandler.c\<close>: the table of signals, the installation of the handlers, and the
  handler, which sets one global flag and logs. Signal numbers are those of Linux.
\<close>

definition SIGHUP :: int where "SIGHUP = 1"
definition SIGINT :: int where "SIGINT = 2"
definition SIGQUIT :: int where "SIGQUIT = 3"
definition SIGUSR1 :: int where "SIGUSR1 = 10"
definition SIGPIPE :: int where "SIGPIPE = 13"
definition SIGTERM :: int where "SIGTERM = 15"
definition SIGCHLD :: int where "SIGCHLD = 17"
definition SIGTTIN :: int where "SIGTTIN = 21"
definition SIGTTOU :: int where "SIGTTOU = 22"

lemmas signal_numbers = SIGHUP_def SIGINT_def SIGQUIT_def SIGUSR1_def SIGPIPE_def SIGTERM_def SIGCHLD_def
  SIGTTIN_def SIGTTOU_def

text \<open>\<open>signal_value(SIGNAL_SHUTDOWN)\<close> and the others.\<close>

definition SIGNAL_SHUTDOWN :: int where "SIGNAL_SHUTDOWN = SIGQUIT"
definition SIGNAL_TERMINATE :: int where "SIGNAL_TERMINATE = SIGTERM"
definition SIGNAL_RECONFIGURE :: int where "SIGNAL_RECONFIGURE = SIGHUP"
definition SIGNAL_REOPEN :: int where "SIGNAL_REOPEN = SIGUSR1"

lemmas signal_roles = SIGNAL_SHUTDOWN_def SIGNAL_TERMINATE_def SIGNAL_RECONFIGURE_def SIGNAL_REOPEN_def

record signal =
  sg_signo :: int
  sg_signame :: "string option"
  sg_name :: string
  sg_handler :: "sighandler option"

definition signals :: "signal list" where
  "signals =
     [\<lparr>sg_signo = SIGNAL_SHUTDOWN, sg_signame = Some ''SIGQUIT'', sg_name = ''quit'', sg_handler = Some Handler\<rparr>,
      \<lparr>sg_signo = SIGNAL_TERMINATE, sg_signame = Some ''SIGTERM'', sg_name = ''stop'', sg_handler = Some Handler\<rparr>,
      \<lparr>sg_signo = SIGNAL_RECONFIGURE, sg_signame = Some ''SIGHUP'', sg_name = ''reload'', sg_handler = Some Handler\<rparr>,
      \<lparr>sg_signo = SIGNAL_REOPEN, sg_signame = Some ''SIGUSR1'', sg_name = ''reopen'', sg_handler = Some Handler\<rparr>,
      \<lparr>sg_signo = SIGINT, sg_signame = Some ''SIGINT'', sg_name = ''stop'', sg_handler = Some Handler\<rparr>,
      \<lparr>sg_signo = SIGCHLD, sg_signame = Some ''SIGCHLD'', sg_name = ''child'', sg_handler = Some Handler\<rparr>,
      \<lparr>sg_signo = SIGTTIN, sg_signame = Some ''SIGTTIN'', sg_name = '''', sg_handler = Some Handler\<rparr>,
      \<lparr>sg_signo = SIGTTOU, sg_signame = Some ''SIGTTOU'', sg_name = '''', sg_handler = Some Handler\<rparr>,
      \<lparr>sg_signo = SIGPIPE, sg_signame = Some ''SIGPIPE'', sg_name = '''', sg_handler = Some SIG_IGN\<rparr>,
      \<lparr>sg_signo = 0, sg_signame = None, sg_name = '''', sg_handler = None\<rparr>]"

text \<open>The text that \<open>%s\<close> prints for a name that may be null.\<close>

definition name_text :: "string option \<Rightarrow> string" where
  "name_text n = (case n of Some t \<Rightarrow> t | None \<Rightarrow> ''(null)'')"

section \<open>Installation\<close>

fun signal_init_from :: "os \<Rightarrow> addr \<Rightarrow> signal list \<Rightarrow> int prog" where
  "signal_init_from os log [] = stuck"
| "signal_init_from os log (sig # sigs) =
     (if sg_signo sig \<noteq> 0 then
        case sg_handler sig of None \<Rightarrow> stuck | Some h \<Rightarrow>
        bindr (syscall os (Sigaction (sg_signo sig) h)) (\<lambda>r.
        if r < 0 then
          bindr (strerror os) (\<lambda>e.
          bindr (bz_log_error os log ''sighandler.c'' 89
            [Lit ''sigaction('', Txt (name_text (sg_signame sig)), Lit '') failed: '', Txt e]) (\<lambda>_.
          ret BZ_ERROR))
        else signal_init_from os log sigs)
      else ret BZ_OK)"

definition signal_init :: "os \<Rightarrow> addr \<Rightarrow> int prog" where
  "signal_init os log = signal_init_from os log signals"

definition signal_close :: "addr \<Rightarrow> unit prog" where
  "signal_close log = ret ()"

section \<open>The handler\<close>

fun find_signal :: "signal list \<Rightarrow> int \<Rightarrow> signal option" where
  "find_signal [] signo = None"
| "find_signal (sig # sigs) signo =
     (if sg_signo sig \<noteq> 0 then if sg_signo sig = signo then Some sig else find_signal sigs signo else Some sig)"

definition signal_action :: "int \<Rightarrow> world \<Rightarrow> string \<times> world" where
  "signal_action signo s =
     (if signo = SIGNAL_SHUTDOWN then (''shutting down'', s\<lparr>bz_quit := True\<rparr>)
      else if signo = SIGNAL_TERMINATE \<or> signo = SIGINT then (''exiting'', s\<lparr>bz_terminate := True\<rparr>)
      else if signo = SIGNAL_RECONFIGURE then (''reconfiguring'', s\<lparr>bz_reconfigure := True\<rparr>)
      else if signo = SIGNAL_REOPEN then (''reopening logs'', s\<lparr>bz_reopen := True\<rparr>)
      else if signo = SIGCHLD then (''handling tasks'', s\<lparr>bz_child := True\<rparr>)
      else ('''', s))"

definition signal_handler :: "os \<Rightarrow> int \<Rightarrow> unit prog" where
  "signal_handler os signo =
     bindr (getsome (\<lambda>s. find_signal signals signo)) (\<lambda>sig.
     bindr (gets (\<lambda>s. fst (signal_action signo s))) (\<lambda>action.
     bindr (modify (\<lambda>s. snd (signal_action signo s))) (\<lambda>_.
     bindr (getsome (\<lambda>s. peek cx_log (w_ctxs s) (g_context s))) (\<lambda>log.
     bz_log os log BZ_LOG_NOTICE ''sighandler.c'' 140
       [Lit ''signal '', Dec signo, Lit ''('', Txt (name_text (sg_signame sig)), Lit '') received, '', Txt action]))))"

section \<open>Facts\<close>

lemma find_signal_total: "find_signal signals signo \<noteq> None"
  by (simp add: signals_def)

lemma signal_action_fields [simp]:
  "w_blocks (snd (signal_action n s)) = w_blocks s" "w_bytes (snd (signal_action n s)) = w_bytes s"
  "w_ptrs (snd (signal_action n s)) = w_ptrs s" "w_tasks (snd (signal_action n s)) = w_tasks s"
  "w_lists (snd (signal_action n s)) = w_lists s" "w_nodes (snd (signal_action n s)) = w_nodes s"
  "w_logs (snd (signal_action n s)) = w_logs s" "w_confs (snd (signal_action n s)) = w_confs s"
  "w_ctxs (snd (signal_action n s)) = w_ctxs s" "w_insts (snd (signal_action n s)) = w_insts s"
  "w_errno (snd (signal_action n s)) = w_errno s" "w_trace (snd (signal_action n s)) = w_trace s"
  "g_context (snd (signal_action n s)) = g_context s" "g_task (snd (signal_action n s)) = g_task s"
  by (simp_all add: signal_action_def)

text \<open>The handler sets its flag and is otherwise quiet.\<close>

lemma signal_handler_returns:
  assumes "peek cx_log (w_ctxs s) (g_context s) = Some log" "valid_log s log"
  shows "returns (signal_handler os signo) (\<lambda>_ s'. quiet os (snd (signal_action signo s)) s') s"
proof -
  obtain sig where sig: "find_signal signals signo = Some sig" using find_signal_total by auto
  let ?s = "snd (signal_action signo s)"
  have v: "valid_log ?s log" using assms(2) by (simp add: valid_log_def)
  show ?thesis
    unfolding signal_handler_def
    by (intro returns_bindr) (use assms sig v in \<open>auto intro!: returns_bindr bz_log_quiet\<close>)
qed

text \<open>
  \<open>installs cs s r s'\<close>: with the result \<open>OK\<close> all the calls \<open>cs\<close> were made, in order, and succeeded; with
  \<open>ERROR\<close> a first part of them was made, and the last of these is the only one that failed.
\<close>

definition installs :: "call list \<Rightarrow> world \<Rightarrow> int \<Rightarrow> world \<Rightarrow> bool" where
  "installs cs s r s' \<longleftrightarrow> (\<exists>rs. map fst rs = rev (take (length rs) cs) \<and>
     (if r = BZ_OK then w_trace s' = rs @ w_trace s \<and> length rs = length cs \<and> list_all (\<lambda>e. 0 \<le> snd e) rs
      else r = BZ_ERROR \<and> (\<exists>tr. w_trace s' = tr @ rs @ w_trace s \<and> list_all (\<lambda>e. is_write (fst e)) tr) \<and>
        rs \<noteq> [] \<and> length rs \<le> length cs \<and> snd (hd rs) < 0 \<and> list_all (\<lambda>e. 0 \<le> snd e) (tl rs)))"

lemma installs_fail:
  assumes "w_trace s' = tr @ (c, r) # w_trace s" "list_all (\<lambda>e. is_write (fst e)) tr" "r < 0"
  shows "installs (c # cs) s BZ_ERROR s'"
  unfolding installs_def using assms by (intro exI [of _ "[(c, r)]"]) auto

lemma installs_step:
  assumes t: "w_trace s1 = (c, r) # w_trace s" "0 \<le> r" and i: "installs cs s1 x s'"
  shows "installs (c # cs) s x s'"
proof -
  obtain rs where rs: "map fst rs = rev (take (length rs) cs)"
    "if x = BZ_OK then w_trace s' = rs @ w_trace s1 \<and> length rs = length cs \<and> list_all (\<lambda>e. 0 \<le> snd e) rs
      else x = BZ_ERROR \<and> (\<exists>tr. w_trace s' = tr @ rs @ w_trace s1 \<and> list_all (\<lambda>e. is_write (fst e)) tr) \<and>
        rs \<noteq> [] \<and> length rs \<le> length cs \<and> snd (hd rs) < 0 \<and> list_all (\<lambda>e. 0 \<le> snd e) (tl rs)"
    using i by (auto simp: installs_def)
  then show ?thesis
    unfolding installs_def using t by (intro exI [of _ "rs @ [(c, r)]"]) (auto split: if_splits)
qed

lemma signal_init_from_ok:
  assumes "valid_log s log" "list_all (\<lambda>sig. sg_signo sig \<noteq> 0 \<and> sg_handler sig \<noteq> None) sigs" "sg_signo stop = 0"
  shows "returns (signal_init_from os log (sigs @ [stop]))
    (installs (map (\<lambda>sig. Sigaction (sg_signo sig) (the (sg_handler sig))) sigs) s) s"
  using assms(1,2)
proof (induction sigs arbitrary: s)
  case Nil
  then show ?case using assms(3) by (simp add: installs_def)
next
  case (Cons sig sigs)
  obtain h where h: "sg_handler sig = Some h" using Cons.prems(2) by auto
  let ?c = "Sigaction (sg_signo sig) h"
  obtain r e where r: "os_call os (w_trace s) ?c = (r, e)" by (cases "os_call os (w_trace s) ?c")
  define s1 where "s1 = s\<lparr>w_trace := (?c, r) # w_trace s, w_errno := (if r < 0 then e else w_errno s)\<rparr>"
  have v1: "valid_log s1 log" using Cons.prems(1) by (simp add: valid_log_def s1_def)
  show ?case
  proof (cases "r < 0")
    case True
    have e: "s\<lparr>w_trace := (?c, r) # w_trace s, w_errno := e\<rparr> = s1" "w_errno s1 = e"
      using True by (simp_all add: s1_def)
    let ?msg = "[Lit ''sigaction('', Txt (name_text (sg_signame sig)), Lit '') failed: '', Txt (os_strerror os e)]"
    have "returns (bz_log_error os log ''sighandler.c'' 89 ?msg) (\<lambda>_ s'. quiet os s1 s') s1"
      using bz_log_quiet(2) [OF v1] by simp
    then obtain s2 where s2: "bz_log_error os log ''sighandler.c'' 89 ?msg s1 = Some (Ret (), s2)" "quiet os s1 s2"
      by (auto elim!: returnsE)
    from s2(2) obtain tr where tr: "w_trace s2 = tr @ (?c, r) # w_trace s" "list_all (\<lambda>e. is_write (fst e)) tr"
      by (auto simp: quiet_def s1_def)
    have "signal_init_from os log ((sig # sigs) @ [stop]) s = Some (Ret BZ_ERROR, s2)"
      using True Cons.prems(2) h r s2(1) by (simp add: run_simps e strerror_def bindr_Ret)
    then show ?thesis
      using installs_fail [OF tr True] by (simp add: returns_def h)
  next
    case False
    from Cons.IH [OF v1] Cons.prems(2) obtain x s2 where
      run: "signal_init_from os log (sigs @ [stop]) s1 = Some (Ret x, s2)" and
      i: "installs (map (\<lambda>sig. Sigaction (sg_signo sig) (the (sg_handler sig))) sigs) s1 x s2"
      by (auto elim!: returnsE)
    have "signal_init_from os log ((sig # sigs) @ [stop]) s = Some (Ret x, s2)"
      using False Cons.prems(2) h r run by (simp add: run_simps s1_def)
    moreover have "w_trace s1 = (?c, r) # w_trace s" by (simp add: s1_def)
    from installs_step [OF this _ i] False
    have "installs (map (\<lambda>sig. Sigaction (sg_signo sig) (the (sg_handler sig))) (sig # sigs)) s x s2" by (simp add: h)
    ultimately show ?thesis unfolding returns_def by blast
  qed
qed

section \<open>The properties of signal handling\<close>

text \<open>The calls that install the table, in its order.\<close>

definition installed :: "call list" where
  "installed = [Sigaction 3 Handler, Sigaction 15 Handler, Sigaction 1 Handler, Sigaction 10 Handler,
    Sigaction 2 Handler, Sigaction 17 Handler, Sigaction 21 Handler, Sigaction 22 Handler, Sigaction 13 SIG_IGN]"

lemma signal_init_calls:
  assumes "valid_log s log"
  shows "returns (signal_init os log) (installs installed s) s"
proof -
  have "signals = butlast signals @ [last signals]" "sg_signo (last signals) = 0"
    "list_all (\<lambda>sig. sg_signo sig \<noteq> 0 \<and> sg_handler sig \<noteq> None) (butlast signals)"
    "map (\<lambda>sig. Sigaction (sg_signo sig) (the (sg_handler sig))) (butlast signals) = installed"
    by (simp_all add: signals_def signal_roles signal_numbers installed_def)
  then show ?thesis
    using signal_init_from_ok [OF assms, of "butlast signals" "last signals" os] by (simp add: signal_init_def)
qed

text \<open>C16: \<open>signal_init\<close> installs the nine entries of the table in order: it returns \<open>OK\<close> when every
  \<open>sigaction\<close> succeeds, and stops with \<open>ERROR\<close> at the first that fails.\<close>

theorem signal_init_correct:
  assumes "valid_log s log"
  shows "returns (signal_init os log) (installs installed s) s"
  by (rule signal_init_calls [OF assms])

lemma ex_log_valid: "valid_log ex_log_world 100"
  by (simp add: valid_log_def ex_log_world_def deref_def)

theorem signal_init_correct_witness:
  "\<exists>r s'. signal_init ex_os 100 ex_log_world = Some (Ret r, s') \<and> installs installed ex_log_world r s'"
  using signal_init_correct [OF ex_log_valid, of ex_os] by (simp add: returns_def)

definition ex_ctx_world :: world where
  "ex_ctx_world = ex_log_world\<lparr>g_context := 300, w_ctxs := [300 \<mapsto> \<lparr>cx_conf = 0, cx_instance = 0, cx_log = 100,
     cx_callback = CB_NULL, cx_arg = 0, cx_origmask = [], cx_tree = \<lparr>rbt_root = 484, rbt_sentinel = 484\<rparr>\<rparr>]\<rparr>"

lemma signal_handler_flags:
  assumes "peek cx_log (w_ctxs s) (g_context s) = Some log" "valid_log s log"
  shows "returns (signal_handler os signo) (\<lambda>_ s'.
    bz_quit s' = (bz_quit s \<or> signo = SIGQUIT) \<and>
    bz_terminate s' = (bz_terminate s \<or> signo = SIGTERM \<or> signo = SIGINT) \<and>
    bz_reconfigure s' = (bz_reconfigure s \<or> signo = SIGHUP) \<and>
    bz_reopen s' = (bz_reopen s \<or> signo = SIGUSR1) \<and>
    bz_child s' = (bz_child s \<or> signo = SIGCHLD) \<and>
    quiet os (snd (signal_action signo s)) s') s"
proof (rule returns_mono [OF signal_handler_returns [OF assms]])
  fix x s'
  assume q: "quiet os (snd (signal_action signo s)) s'"
  note f = quiet_fields [OF q]
  show "bz_quit s' = (bz_quit s \<or> signo = SIGQUIT) \<and> bz_terminate s' = (bz_terminate s \<or> signo = SIGTERM \<or> signo = SIGINT) \<and>
    bz_reconfigure s' = (bz_reconfigure s \<or> signo = SIGHUP) \<and> bz_reopen s' = (bz_reopen s \<or> signo = SIGUSR1) \<and>
    bz_child s' = (bz_child s \<or> signo = SIGCHLD) \<and> quiet os (snd (signal_action signo s)) s'"
    using q by (auto simp: f signal_action_def signal_roles signal_numbers)
qed

text \<open>C17: Once the context exists, the handler of a signal returns; it raises the flag of its signal, lowers none,
  and changes nothing else but the log, not even \<open>errno\<close> when reading the time keeps it.\<close>

theorem signal_handler_correct:
  assumes "peek cx_log (w_ctxs s) (g_context s) = Some log" "valid_log s log"
  shows "returns (signal_handler os signo) (\<lambda>_ s'.
    bz_quit s' = (bz_quit s \<or> signo = SIGQUIT) \<and>
    bz_terminate s' = (bz_terminate s \<or> signo = SIGTERM \<or> signo = SIGINT) \<and>
    bz_reconfigure s' = (bz_reconfigure s \<or> signo = SIGHUP) \<and>
    bz_reopen s' = (bz_reopen s \<or> signo = SIGUSR1) \<and>
    bz_child s' = (bz_child s \<or> signo = SIGCHLD) \<and>
    quiet os (snd (signal_action signo s)) s') s"
  by (rule signal_handler_flags [OF assms])

theorem signal_handler_correct_witness:
  "returns (signal_handler ex_os 17) (\<lambda>_ s'. bz_child s' \<and> \<not> bz_quit s' \<and> \<not> bz_terminate s') ex_ctx_world"
proof -
  have "peek cx_log (w_ctxs ex_ctx_world) (g_context ex_ctx_world) = Some 100" "valid_log ex_ctx_world 100"
    "\<not> bz_quit ex_ctx_world" "\<not> bz_terminate ex_ctx_world"
    by (simp_all add: ex_ctx_world_def ex_log_world_def ex_world_def peek_def deref_def valid_log_def)
  with signal_handler_correct [OF this(1,2), of ex_os 17] show ?thesis
    by (auto simp: signal_numbers elim!: returns_mono)
qed

text \<open>A handled signal that arrives while the context does not exist yet has undefined behaviour.\<close>

lemma signal_handler_needs_context: "g_context s = NULL \<Longrightarrow> signal_handler os signo s = None"
  by (auto simp: signal_handler_def run_simps peek_def signal_action_def split: option.split)

end
