(* ===== verification/Task.thy ===== *)
theory Task
  imports Sighandler
begin

unbundle bit_operations_syntax

text \<open>
  \<open>src/task.h\<close> and \<open>src/task.c\<close>: the life of one task, in the supervisor (\<open>task_create\<close>, \<open>task_run\<close> up to the
  \<open>fork\<close> and after it, \<open>task_exit_handler\<close>, \<open>task_close\<close>) and in the child that \<open>fork\<close> makes
  (\<open>task_pre_run\<close> and \<open>execv\<close>). A call of \<open>fork\<close> whose result is 0 is the child's view of it.
\<close>

section \<open>Access\<close>

definition get_task :: "(task \<Rightarrow> 'a) \<Rightarrow> addr \<Rightarrow> 'a prog" where
  "get_task f t = getsome (\<lambda>s. peek f (w_tasks s) t)"

definition set_task :: "addr \<Rightarrow> (task \<Rightarrow> task) \<Rightarrow> unit prog" where
  "set_task t u = modifysome (\<lambda>s. do { ts \<leftarrow> poke (w_tasks s) t u; Some (s\<lparr>w_tasks := ts\<rparr>) })"

definition get_ctx :: "(ctx \<Rightarrow> 'a) \<Rightarrow> addr \<Rightarrow> 'a prog" where
  "get_ctx f c = getsome (\<lambda>s. peek f (w_ctxs s) c)"

definition get_inst :: "(bitzer \<Rightarrow> 'a) \<Rightarrow> addr \<Rightarrow> 'a prog" where
  "get_inst f b = getsome (\<lambda>s. peek f (w_insts s) b)"

definition get_str :: "addr \<Rightarrow> string prog" where
  "get_str p = getsome (\<lambda>s. str_at s p)"

text \<open>\<open>task->ctx->log\<close> and \<open>task->ctx->instance->prefix\<close>.\<close>

definition task_log :: "addr \<Rightarrow> addr prog" where
  "task_log t = bindr (get_task tk_ctx t) (get_ctx cx_log)"

definition task_prefix :: "addr \<Rightarrow> addr prog" where
  "task_prefix t = bindr (get_task tk_ctx t) (\<lambda>c. bindr (get_ctx cx_instance c) (get_inst bi_prefix))"

section \<open>Creation\<close>

definition task_init :: "addr \<Rightarrow> addr \<Rightarrow> int prog" where
  "task_init t c =
     bindr (set_task t (\<lambda>k. k\<lparr>tk_pid := 0, tk_start_sec := 0, tk_start_usec := 0, tk_start_count := 0, tk_ctx := c,
       tk_path := NULL, tk_name := NULL, tk_dir := NULL, tk_args := NULL, tk_args_len := 0, tk_args_total := 0,
       tk_envp := NULL, tk_envp_len := 0, tk_envp_total := 0, tk_status := TASK_INIT, tk_log_path := NULL\<rparr>)) (\<lambda>_.
     ret BZ_OK)"

text \<open>A new block becomes a \<open>task_t\<close>: the task, its list link and its tree node, with indeterminate contents.\<close>

definition new_task :: "os \<Rightarrow> addr \<Rightarrow> world \<Rightarrow> world" where
  "new_task os t s = s\<lparr>w_tasks := (w_tasks s)(t \<mapsto> os_junk_task os (w_trace s)),
     w_lists := (w_lists s)(task_list t \<mapsto> os_junk_list os (w_trace s)),
     w_nodes := (w_nodes s)(task_node t \<mapsto> os_junk_node os (w_trace s))\<rparr>"

definition task_create :: "os \<Rightarrow> addr \<Rightarrow> addr prog" where
  "task_create os c =
     bindr (get_ctx cx_log c) (\<lambda>log.
     bindr (bz_alloc os sizeof_task log) (\<lambda>t.
     if t = NULL then
       bindr (get_ctx cx_log c) (\<lambda>log.
       bindr (bz_log_error os log ''task.c'' 34 [Lit ''create task failed'']) (\<lambda>_.
       ret NULL))
     else
       bindr (modify (new_task os t)) (\<lambda>_.
       bindr (task_init t c) (\<lambda>_.
       ret t))))"

section \<open>The child: redirection and environment\<close>

text \<open>The three \<open>dup2\<close> calls onto the standard descriptors; the result names the one that failed.\<close>

definition dup2_std :: "os \<Rightarrow> int \<Rightarrow> string option prog" where
  "dup2_std os fd =
     bindr (syscall os (Dup2 fd 0)) (\<lambda>r. if r < 0 then ret (Some ''STDIN'') else
     bindr (syscall os (Dup2 fd 1)) (\<lambda>r. if r < 0 then ret (Some ''STDOUT'') else
     bindr (syscall os (Dup2 fd 2)) (\<lambda>r. if r < 0 then ret (Some ''STDERR'') else ret None)))"

text \<open>Lines 79 to 90: the path of the task's own log, made once.\<close>

definition task_make_log_path :: "os \<Rightarrow> addr \<Rightarrow> bool prog" where
  "task_make_log_path os t =
     bindr (get_task tk_log_path t) (\<lambda>lp.
     if lp \<noteq> NULL then ret True else
     bindr (bindr (task_prefix t) get_str) (\<lambda>prefix.
     bindr (bindr (get_task tk_name t) get_str) (\<lambda>name.
     bindr (task_log t) (\<lambda>log.
     let n = length prefix + length name + 10 in
     bindr (bz_alloc os n log) (\<lambda>lp.
     bindr (set_task t (\<lambda>k. k\<lparr>tk_log_path := lp\<rparr>)) (\<lambda>_.
     if lp = NULL then ret False else
     bindr (modify (new_bytes lp n)) (\<lambda>_.
     bindr (strcpy lp prefix) (\<lambda>_.
     bindr (strcat lp ''/log/'') (\<lambda>_.
     bindr (strcat lp name) (\<lambda>_.
     bindr (strcat lp ''.log'') (\<lambda>_.
     ret True)))))))))))"

text \<open>Lines 92 to 121: the standard descriptors become the log.\<close>

definition task_redirect_std :: "os \<Rightarrow> addr \<Rightarrow> int prog" where
  "task_redirect_std os t =
     bindr (get_task tk_log_path t) (\<lambda>lp.
     bindr (get_str lp) (\<lambda>path.
     bindr (syscall os (Open path [O_RDWR, O_APPEND, O_CREAT] (Some mode_0644))) (\<lambda>fd.
     if fd < 0 then
       bindr (task_log t) (\<lambda>log.
       bindr (strerror os) (\<lambda>e.
       bindr (bz_log_error os log ''task.c'' 94 [Lit ''open('', Chr (CHR 0x22), Str lp, Chr (CHR 0x22), Lit '') failed: '', Txt e]) (\<lambda>_.
       ret BZ_ERROR)))
     else
     bindr (dup2_std os fd) (\<lambda>failed.
     case failed of
       None \<Rightarrow> bindr (syscall os (Close fd)) (\<lambda>_. ret BZ_OK)
     | Some std \<Rightarrow>
       bindr (task_log t) (\<lambda>log.
       bindr (strerror os) (\<lambda>e.
       bindr (bz_log_error os log ''task.c'' 118 [Lit ''redirect task io, dup2('', Dec fd, Lit '', '', Chr (CHR 0x22), Txt std,
         Chr (CHR 0x22), Lit '') failed: '', Txt e]) (\<lambda>_.
       bindr (syscall os (Close fd)) (\<lambda>_.
       ret BZ_ERROR))))))))"

definition task_redirect_io :: "os \<Rightarrow> addr \<Rightarrow> int prog" where
  "task_redirect_io os t =
     bindr (task_make_log_path os t) (\<lambda>made.
     if \<not> made then ret BZ_ERROR else task_redirect_std os t)"

text \<open>A step of \<open>task_pre_run\<close> that failed is logged with the name of the task.\<close>

definition task_failed :: "os \<Rightarrow> addr \<Rightarrow> int \<Rightarrow> string \<Rightarrow> unit prog" where
  "task_failed os t line what =
     bindr (task_log t) (\<lambda>log.
     bindr (get_task tk_name t) (\<lambda>name.
     bindr (strerror os) (\<lambda>e.
     bz_log_error os log ''task.c'' line [Lit what, Lit '', task: '', Str name, Lit '', error: '', Txt e])))"

definition task_pre_run :: "os \<Rightarrow> addr \<Rightarrow> int prog" where
  "task_pre_run os t =
     bindr (task_redirect_io os t) (\<lambda>_.
     bindr (get_task tk_dir t) (\<lambda>dir.
     bindr (if dir = NULL then ret 0 else bindr (get_str dir) (\<lambda>d. syscall os (Chdir d))) (\<lambda>r.
     if r < 0 then bindr (task_failed os t 128 ''change working directory failed'') (\<lambda>_. ret BZ_ERROR) else
     bindr (if dir = NULL then ret 0 else bindr (get_str dir) (\<lambda>d. syscall os (Setenv ''PWD'' d))) (\<lambda>r.
     if r < 0 then bindr (task_failed os t 135 ''set env PWD failed'') (\<lambda>_. ret BZ_ERROR) else
     bindr (bindr (get_task tk_path t) get_str) (\<lambda>path.
     bindr (syscall os (Setenv ''_'' path)) (\<lambda>r.
     if r < 0 then bindr (task_failed os t 142 ''set env _ failed'') (\<lambda>_. ret BZ_ERROR) else
     bindr (bindr (get_task tk_ctx t) (get_ctx cx_origmask)) (\<lambda>mask.
     bindr (syscall os (Sigprocmask SIG_SETMASK mask)) (\<lambda>r.
     if r < 0 then bindr (task_failed os t 149 ''change back signal mask failed'') (\<lambda>_. ret BZ_ERROR) else
     ret BZ_OK))))))))"

section \<open>Running\<close>

definition task_reset :: "addr \<Rightarrow> int prog" where
  "task_reset t = bindr (set_task t (\<lambda>k. k\<lparr>tk_pid := 0, tk_status := TASK_FINISHED\<rparr>)) (\<lambda>_. ret BZ_OK)"

text \<open>The strings of a null-terminated array of pointers, as \<open>execv\<close> reads them.\<close>

fun strings_until_NULL :: "world \<Rightarrow> addr option list \<Rightarrow> string list option" where
  "strings_until_NULL s [] = None"
| "strings_until_NULL s (None # ps) = None"
| "strings_until_NULL s (Some p # ps) =
     (if p = NULL then Some []
      else do { t \<leftarrow> str_at s p; ts \<leftarrow> strings_until_NULL s ps; Some (t # ts) })"

definition argv_at :: "world \<Rightarrow> addr \<Rightarrow> string list option" where
  "argv_at s p = do { ps \<leftarrow> deref (w_ptrs s) p; strings_until_NULL s ps }"

text \<open>\<open>execv\<close> does not return when it succeeds.\<close>

definition execv :: "os \<Rightarrow> string \<Rightarrow> string list \<Rightarrow> int prog" where
  "execv os path args = bindr (syscall os (Execv path args)) (\<lambda>r. if r < 0 then ret r else (\<lambda>s. Some (Exec, s)))"

text \<open>Lines 192 to 197: the supervisor records the new process.\<close>

definition task_started :: "os \<Rightarrow> addr \<Rightarrow> int \<Rightarrow> int prog" where
  "task_started os t pid =
     bindr (set_task t (\<lambda>k. k\<lparr>tk_pid := pid\<rparr>)) (\<lambda>_.
     bindr (modifysome (\<lambda>s. do { ns \<leftarrow> poke (w_nodes s) (task_node t) (\<lambda>n. n\<lparr>rb_key := word_of_int pid\<rparr>); Some (s\<lparr>w_nodes := ns\<rparr>) })) (\<lambda>_.
     bindr (set_task t (\<lambda>k. k\<lparr>tk_status := TASK_RUNNING\<rparr>)) (\<lambda>_.
     bindr (set_task t (\<lambda>k. k\<lparr>tk_start_count := tk_start_count k + 1\<rparr>)) (\<lambda>_.
     bindr (gets (\<lambda>s. os_clock os (w_trace s))) (\<lambda>(sec, usec).
     bindr (set_task t (\<lambda>k. k\<lparr>tk_start_sec := sec, tk_start_usec := usec\<rparr>)) (\<lambda>_.
     ret BZ_OK))))))"

definition task_run :: "os \<Rightarrow> addr \<Rightarrow> int prog" where
  "task_run os t =
     bindr (task_reset t) (\<lambda>_.
     bindr (get_task tk_name t) (\<lambda>name.
     bindr (get_task tk_path t) (\<lambda>path.
     if name = NULL \<or> path = NULL then
       bindr (task_log t) (\<lambda>log.
       bindr (bz_log_error os log ''task.c'' 166 [Lit ''you must set task name and path'']) (\<lambda>_.
       ret BZ_ERROR))
     else
     bindr (syscall os Fork) (\<lambda>pid.
     if pid = 0 then
       bindr (task_pre_run os t) (\<lambda>r.
       if r \<noteq> BZ_OK then exit_with BZ_ERROR else
       bindr (bindr (get_task tk_path t) get_str) (\<lambda>path.
       bindr (bindr (get_task tk_args t) (\<lambda>p. getsome (\<lambda>s. argv_at s p))) (\<lambda>args.
       bindr (execv os path args) (\<lambda>r.
       if r < 0 then
         bindr (task_failed os t 179 ''call execv failed'') (\<lambda>_. exit_with BZ_ERROR)
       else task_started os t pid))))
     else if pid = - 1 then
       bindr (task_failed os t 186 ''fork process failed'') (\<lambda>_. ret BZ_ERROR)
     else task_started os t pid))))"

section \<open>The end of a process\<close>

text \<open>\<open>WIFEXITED\<close>, \<open>WEXITSTATUS\<close> and \<open>WTERMSIG\<close> of a wait status.\<close>

definition WTERMSIG :: "32 word \<Rightarrow> int" where "WTERMSIG status = uint (status AND 0x7F)"
definition WIFEXITED :: "32 word \<Rightarrow> bool" where "WIFEXITED status \<longleftrightarrow> WTERMSIG status = 0"
definition WEXITSTATUS :: "32 word \<Rightarrow> int" where "WEXITSTATUS status = uint (drop_bit 8 (status AND 0xFF00))"

definition task_exit_handler :: "os \<Rightarrow> addr \<Rightarrow> 32 word \<Rightarrow> int prog" where
  "task_exit_handler os t status =
     (if WIFEXITED status then
        bindr (task_log t) (\<lambda>log.
        bindr (get_task tk_name t) (\<lambda>name.
        bindr (bz_log os log BZ_LOG_INFO ''task.c'' 203 [Lit ''task('', Str name, Lit '') finished, return value: '',
          Dec (WEXITSTATUS status)]) (\<lambda>_.
        ret BZ_OK)))
      else
        bindr (task_log t) (\<lambda>log.
        bindr (get_task tk_name t) (\<lambda>name.
        bindr (bz_log os log BZ_LOG_INFO ''task.c'' 209 [Lit ''task('', Str name, Lit '') finished, by signal: '',
          Dec (WTERMSIG status)]) (\<lambda>_.
        ret BZ_OK))))"

text \<open>\<open>while (*ptr) free(*ptr++);\<close> from the element \<open>i\<close> of the array at \<open>p\<close> on.\<close>

partial_function (option) free_strings :: "addr \<Rightarrow> nat \<Rightarrow> unit prog" where
  "free_strings p i s =
     bindr (getsome (\<lambda>s. do { ps \<leftarrow> deref (w_ptrs s) p; if i < length ps then ps ! i else None })) (\<lambda>q s.
     if q = NULL then ret () s
     else bindr (free q) (\<lambda>_. free_strings p (i + 1)) s) s"

definition task_close :: "addr \<Rightarrow> int prog" where
  "task_close t =
     bindr (get_task tk_args t) (\<lambda>args.
     bindr (free_strings args 0) (\<lambda>_.
     bindr (bindr (get_task tk_args t) free) (\<lambda>_.
     bindr (get_task tk_envp t) (\<lambda>envp.
     bindr (whenr (envp \<noteq> NULL) (free_strings envp 0)) (\<lambda>_.
     bindr (bindr (get_task tk_envp t) free) (\<lambda>_.
     bindr (bindr (get_task tk_name t) free) (\<lambda>_.
     bindr (bindr (get_task tk_dir t) free) (\<lambda>_.
     bindr (bindr (get_task tk_log_path t) free) (\<lambda>_.
     ret BZ_OK)))))))))"

end
