(* ===== verification/Task_Props.thy ===== *)
theory Task_Props
  imports Task
begin

text \<open>
  What the operations on a task do. In the supervisor \<open>task_run\<close> has three outcomes
  (\<open>task_run_started\<close>, \<open>task_run_fork_failed\<close>, \<open>task_run_unset\<close>); in the child it never returns
  (\<open>task_run_child\<close>). \<open>task_close\<close> frees each block of a task once.
\<close>

section \<open>Strings\<close>

lemma strcpy_ok:
  assumes "deref (w_bytes s) dst = Some d" "length t < length d" "no_nul t"
  shows "returns (strcpy dst t) (\<lambda>_ s'. \<exists>d'. s' = s\<lparr>w_bytes := (w_bytes s)(dst \<mapsto> d')\<rparr> \<and>
    length d' = length d \<and> cstring d' = Some t) s"
  using assms by (auto simp: strcpy_def intro!: exI [of _ "cstr t @ drop (length t + 1) d"])

lemma strcat_ok:
  assumes "deref (w_bytes s) dst = Some d" "cstring d = Some u" "length u + length t < length d" "no_nul t"
  shows "returns (strcat dst t) (\<lambda>_ s'. \<exists>d'. s' = s\<lparr>w_bytes := (w_bytes s)(dst \<mapsto> d')\<rparr> \<and>
    length d' = length d \<and> cstring d' = Some (u @ t)) s"
proof -
  have "str_at s dst = Some u" using assms by (simp add: str_at_def)
  moreover have "no_nul (u @ t)" using assms cstring_no_nul by simp
  ultimately show ?thesis
    using strcpy_ok [of s dst d "u @ t"] assms by (auto simp: strcat_def intro!: returns_bindr)
qed

section \<open>The supervisor's view of task_run\<close>

lemma set_task_ok: "deref (w_tasks s) t = Some k \<Longrightarrow> bindr (set_task t u) f s = f () (s\<lparr>w_tasks := (w_tasks s)(t \<mapsto> u k)\<rparr>)"
  by (simp add: set_task_def run_simps poke_def)

lemma get_ok:
  "deref (w_tasks s) t = Some k \<Longrightarrow> bindr (get_task g t) f s = f (g k) s"
  "deref (w_ctxs s) c = Some x \<Longrightarrow> bindr (get_ctx h c) f' s = f' (h x) s"
  "deref (w_insts s) b = Some y \<Longrightarrow> bindr (get_inst i b) f'' s = f'' (i y) s"
  "str_at s p = Some w \<Longrightarrow> bindr (get_str p) f3 s = f3 w s"
  by (simp_all add: get_task_def get_ctx_def get_inst_def get_str_def run_simps peek_def)

lemma task_log_ok:
  "deref (w_tasks s) t = Some k \<Longrightarrow> deref (w_ctxs s) (tk_ctx k) = Some c \<Longrightarrow> bindr (task_log t) f s = f (cx_log c) s"
  by (simp add: task_log_def bindr_assoc get_ok)

lemma task_prefix_ok:
  "deref (w_tasks s) t = Some k \<Longrightarrow> deref (w_ctxs s) (tk_ctx k) = Some c \<Longrightarrow> deref (w_insts s) (cx_instance c) = Some b \<Longrightarrow>
   bindr (task_prefix t) f s = f (bi_prefix b) s"
  by (simp add: task_prefix_def bindr_assoc get_ok)

definition reset_task :: "task \<Rightarrow> task" where
  "reset_task k = k\<lparr>tk_pid := 0, tk_status := TASK_FINISHED\<rparr>"

definition started_task :: "task \<Rightarrow> int \<Rightarrow> int \<times> int \<Rightarrow> task" where
  "started_task k pid now = k\<lparr>tk_pid := pid, tk_status := TASK_RUNNING, tk_start_count := tk_start_count k + 1,
     tk_start_sec := fst now, tk_start_usec := snd now\<rparr>"

text \<open>A task that can be logged about: its context, its log and its name are there.\<close>

definition loggable :: "world \<Rightarrow> addr \<Rightarrow> bool" where
  "loggable s t \<longleftrightarrow> (\<exists>k c. deref (w_tasks s) t = Some k \<and> deref (w_ctxs s) (tk_ctx k) = Some c \<and>
     valid_log s (cx_log c) \<and> (tk_name k \<noteq> NULL \<longrightarrow> str_at s (tk_name k) \<noteq> None))"

lemma task_failed_quiet:
  assumes "loggable s t"
  shows "returns (task_failed os t line what) (\<lambda>_ s'. quiet os s s') s"
proof -
  obtain k c where k: "deref (w_tasks s) t = Some k" "deref (w_ctxs s) (tk_ctx k) = Some c" "valid_log s (cx_log c)"
    and n: "tk_name k \<noteq> NULL \<Longrightarrow> str_at s (tk_name k) \<noteq> None" using assms by (auto simp: loggable_def)
  let ?msg = "[Lit what, Lit '', task: '', Str (tk_name k), Lit '', error: '', Txt (os_strerror os (w_errno s))]"
  have r: "render s ?msg \<noteq> None" using n by auto
  have "task_failed os t line what s = bz_log_error os (cx_log c) ''task.c'' line ?msg s"
    using k by (simp add: task_failed_def task_log_ok get_ok strerror_def run_simps)
  with bz_log_quiet(2) [OF k(3) r, of os "''task.c''" line] show ?thesis by (simp add: returns_def)
qed

lemma loggable_upd [simp]:
  "loggable (s\<lparr>w_trace := tr\<rparr>) t = loggable s t" "loggable (s\<lparr>w_errno := e\<rparr>) t = loggable s t"
  "loggable (s\<lparr>w_nodes := ns\<rparr>) t = loggable s t" "loggable (s\<lparr>w_lists := ls\<rparr>) t = loggable s t"
  by (auto simp: loggable_def valid_log_def str_at_def)

lemma loggable_task_upd:
  assumes "loggable s t" "deref (w_tasks s) u = Some k" "tk_ctx k' = tk_ctx k" "tk_name k' = tk_name k"
  shows "loggable (s\<lparr>w_tasks := (w_tasks s)(u \<mapsto> k')\<rparr>) t"
  using assms by (cases "u = t") (auto simp: loggable_def valid_log_def str_at_def deref_upd dest: deref_not_NULL)

lemma task_run_unset:
  assumes k: "deref (w_tasks s) t = Some k" "tk_name k = NULL \<or> tk_path k = NULL" and log: "loggable s t"
  shows "returns (task_run os t) (\<lambda>r s'. r = BZ_ERROR \<and>
    quiet os (s\<lparr>w_tasks := (w_tasks s)(t \<mapsto> reset_task k)\<rparr>) s') s"
proof -
  let ?s = "s\<lparr>w_tasks := (w_tasks s)(t \<mapsto> reset_task k)\<rparr>"
  have t: "deref (w_tasks ?s) t = Some (reset_task k)" using k by (auto simp: deref_upd dest: deref_not_NULL)
  obtain c where c: "deref (w_ctxs ?s) (tk_ctx (reset_task k)) = Some c" "valid_log ?s (cx_log c)"
    using log k by (auto simp: loggable_def reset_task_def valid_log_def)
  have "task_run os t s = bindr (bz_log_error os (cx_log c) ''task.c'' 166 [Lit ''you must set task name and path'']) (\<lambda>_. ret BZ_ERROR) ?s"
    using k t c by (simp add: task_run_def task_reset_def bindr_assoc set_task_ok get_ok task_log_ok reset_task_def [symmetric])
      (auto simp: reset_task_def)
  moreover have "returns (bindr (bz_log_error os (cx_log c) ''task.c'' 166 [Lit ''you must set task name and path'']) (\<lambda>_. ret BZ_ERROR))
      (\<lambda>r s'. r = BZ_ERROR \<and> quiet os ?s s') ?s"
    by (rule returns_bindr, rule returns_mono [OF bz_log_quiet(2) [OF c(2)]]) simp_all
  ultimately show ?thesis by (simp add: returns_def)
qed

lemma task_run_fork:
  assumes k: "deref (w_tasks s) t = Some k" "tk_name k \<noteq> NULL" "tk_path k \<noteq> NULL"
    and f: "os_call os (w_trace s) Fork = (pid, e)" "pid \<noteq> 0"
  shows "task_run os t s =
    (let s1 = s\<lparr>w_tasks := (w_tasks s)(t \<mapsto> reset_task k), w_trace := (Fork, pid) # w_trace s,
        w_errno := (if pid < 0 then e else w_errno s)\<rparr>
     in if pid = - 1 then bindr (task_failed os t 186 ''fork process failed'') (\<lambda>_. ret BZ_ERROR) s1
        else task_started os t pid s1)"
proof -
  have t: "deref ((w_tasks s)(t \<mapsto> reset_task k)) t = Some (reset_task k)" using k by (auto simp: deref_upd dest: deref_not_NULL)
  show ?thesis
    using k t f by (simp add: task_run_def task_reset_def bindr_assoc set_task_ok get_ok reset_task_def [symmetric] run_simps)
      (simp add: reset_task_def Let_def)
qed

lemma task_started_run:
  assumes k: "deref (w_tasks s) t = Some k" and n: "deref (w_nodes s) (task_node t) = Some nn"
  shows "task_started os t pid s = Some (Ret BZ_OK,
    s\<lparr>w_tasks := (w_tasks s)(t \<mapsto> started_task k pid (os_clock os (w_trace s))),
      w_nodes := (w_nodes s)(task_node t \<mapsto> nn\<lparr>rb_key := word_of_int pid\<rparr>)\<rparr>)"
proof -
  have t: "t \<noteq> NULL" using k by (auto dest: deref_not_NULL)
  obtain sec usec where now: "os_clock os (w_trace s) = (sec, usec)" by (cases "os_clock os (w_trace s)")
  show ?thesis
    using t by (simp add: task_started_def set_task_ok [OF k] run_simps poke_def n now set_task_ok deref_upd ret_def started_task_def)
qed

lemma task_run_started:
  assumes k: "deref (w_tasks s) t = Some k" "tk_name k \<noteq> NULL" "tk_path k \<noteq> NULL"
    and n: "deref (w_nodes s) (task_node t) = Some nn" and f: "os_call os (w_trace s) Fork = (pid, e)" "0 < pid"
  shows "task_run os t s = Some (Ret BZ_OK, s\<lparr>w_trace := (Fork, pid) # w_trace s,
    w_tasks := (w_tasks s)(t \<mapsto> started_task k pid (os_clock os ((Fork, pid) # w_trace s))),
    w_nodes := (w_nodes s)(task_node t \<mapsto> nn\<lparr>rb_key := word_of_int pid\<rparr>)\<rparr>)"
proof -
  let ?s1 = "s\<lparr>w_tasks := (w_tasks s)(t \<mapsto> reset_task k), w_trace := (Fork, pid) # w_trace s\<rparr>"
  have "deref (w_tasks ?s1) t = Some (reset_task k)" using k by (auto simp: deref_upd dest: deref_not_NULL)
  from task_started_run [OF this, of nn os pid] n
  have "task_started os t pid ?s1 = Some (Ret BZ_OK,
    ?s1\<lparr>w_tasks := (w_tasks ?s1)(t \<mapsto> started_task (reset_task k) pid (os_clock os (w_trace ?s1))),
      w_nodes := (w_nodes s)(task_node t \<mapsto> nn\<lparr>rb_key := word_of_int pid\<rparr>)\<rparr>)" by simp
  moreover have "started_task (reset_task k) pid now = started_task k pid now" for now
    by (simp add: started_task_def reset_task_def)
  ultimately show ?thesis
    using f task_run_fork [OF k f(1)] by (simp add: Let_def)
qed

lemma task_run_fork_failed:
  assumes k: "deref (w_tasks s) t = Some k" "tk_name k \<noteq> NULL" "tk_path k \<noteq> NULL" and log: "loggable s t"
    and f: "os_call os (w_trace s) Fork = (- 1, e)"
  shows "returns (task_run os t) (\<lambda>r s'. r = BZ_ERROR \<and>
    quiet os (s\<lparr>w_tasks := (w_tasks s)(t \<mapsto> reset_task k), w_trace := (Fork, - 1) # w_trace s, w_errno := e\<rparr>) s') s"
proof -
  let ?s1 = "s\<lparr>w_tasks := (w_tasks s)(t \<mapsto> reset_task k), w_trace := (Fork, - 1) # w_trace s, w_errno := e\<rparr>"
  have l: "loggable ?s1 t" using loggable_task_upd [OF log k(1), of "reset_task k"] by (simp add: reset_task_def)
  have "returns (bindr (task_failed os t 186 ''fork process failed'') (\<lambda>_. ret BZ_ERROR)) (\<lambda>r s'. r = BZ_ERROR \<and> quiet os ?s1 s') ?s1"
    by (rule returns_bindr, rule returns_mono [OF task_failed_quiet [OF l]]) simp
  then show ?thesis using task_run_fork [OF k f] by (simp add: returns_def Let_def)
qed

section \<open>An example\<close>

text \<open>A supervisor with one task, \<open>tea\<close>, that runs \<open>/bin/sleep 10\<close>.\<close>

definition ex_task :: task where
  "ex_task = \<lparr>tk_pid = 0, tk_start_sec = 0, tk_start_usec = 0, tk_start_count = 0, tk_ctx = 300, tk_log_path = 0,
     tk_path = 1300, tk_name = 1200, tk_dir = 0, tk_args = 1500, tk_args_len = 3, tk_args_total = 12,
     tk_envp = 0, tk_envp_len = 0, tk_envp_total = 0, tk_status = TASK_INIT\<rparr>"

definition ex_instance :: bitzer where
  "ex_instance = \<lparr>bi_log_level = 6, bi_prefix = 620, bi_log_file = 200, bi_conf_file = 0, bi_pid = 42,
     bi_pid_file = 0, bi_log_file_alloc = True, bi_conf_file_alloc = False, bi_pid_file_alloc = False,
     bi_hostname = ''pasture'', bi_log = 100\<rparr>"

definition ex_ctx :: ctx where
  "ex_ctx = \<lparr>cx_conf = 900, cx_instance = 601, cx_log = 100, cx_callback = CB_bz_signal, cx_arg = 601,
     cx_origmask = [], cx_tree = \<lparr>rbt_root = 484, rbt_sentinel = 484\<rparr>\<rparr>"

definition ex_task_world :: world where
  "ex_task_world = ex_log_world\<lparr>
     w_blocks := [(100, 32), (200, 8), (300, 224), (601, 16), (620, 8), (900, 24), (1000, 184), (1200, 4), (1300, 11), (1400, 3), (1500, 96)],
     w_bytes := [200 \<mapsto> cstr ''b.log'', 620 \<mapsto> cstr ''/opt'', 1200 \<mapsto> cstr ''tea'', 1300 \<mapsto> cstr ''/bin/sleep'', 1400 \<mapsto> cstr ''10''],
     w_ptrs := [1500 \<mapsto> [Some 1300, Some 1400, Some 0] @ replicate 9 None],
     w_tasks := [1000 \<mapsto> ex_task],
     w_lists := [1120 \<mapsto> \<lparr>lh_next = 908, lh_prev = 908\<rparr>, 908 \<mapsto> \<lparr>lh_next = 1120, lh_prev = 1120\<rparr>],
     w_nodes := [484 \<mapsto> \<lparr>rb_left = 0, rb_right = 0, rb_parent = 0, rb_key = 0, rb_color = False\<rparr>,
       1136 \<mapsto> \<lparr>rb_left = 0, rb_right = 0, rb_parent = 0, rb_key = 0, rb_color = False\<rparr>],
     w_confs := [900 \<mapsto> \<lparr>cf_ctx = 300\<rparr>], w_ctxs := [300 \<mapsto> ex_ctx], w_insts := [601 \<mapsto> ex_instance], g_context := 300\<rparr>"

lemmas ex_task_defs = ex_task_world_def ex_log_world_def ex_world_def ex_task_def ex_ctx_def ex_instance_def

lemma ex_task_strings:
  "str_at ex_task_world 620 = Some ''/opt''" "str_at ex_task_world 1200 = Some ''tea''"
  "str_at ex_task_world 1300 = Some ''/bin/sleep''" "str_at ex_task_world 1400 = Some ''10''"
  by (simp_all add: str_at_def ex_task_defs deref_def cstr_def)

lemma ex_task_objects:
  "deref (w_tasks ex_task_world) 1000 = Some ex_task" "deref (w_ctxs ex_task_world) 300 = Some ex_ctx"
  "deref (w_insts ex_task_world) 601 = Some ex_instance" "valid_log ex_task_world 100"
  "deref (w_nodes ex_task_world) (task_node 1000) = Some \<lparr>rb_left = 0, rb_right = 0, rb_parent = 0, rb_key = 0, rb_color = False\<rparr>"
  by (simp_all add: ex_task_defs deref_def valid_log_def task_node_def)

lemma ex_task_loggable: "loggable ex_task_world 1000"
  using ex_task_objects ex_task_strings by (auto simp: loggable_def ex_task_def ex_ctx_def)

section \<open>The supervisor's property of task_run\<close>

text \<open>C18: In the supervisor \<open>task_run\<close> returns. With a process it returns \<open>OK\<close>: the task is running, with the pid of the
  process in the task and as the key of its tree node, and has been started once more. Without one
  (\<open>fork\<close> failed, or no name or path is set) it returns \<open>ERROR\<close>: the task is finished with pid 0, and
  only the log has been written.\<close>

theorem task_run_supervisor:
  assumes k: "deref (w_tasks s) t = Some k" and n: "deref (w_nodes s) (task_node t) = Some nn" and log: "loggable s t"
    and f: "os_call os (w_trace s) Fork = (pid, e)" "0 < pid \<or> pid = - 1"
  shows "returns (task_run os t) (\<lambda>r s'.
    if tk_name k = NULL \<or> tk_path k = NULL
    then r = BZ_ERROR \<and> quiet os (s\<lparr>w_tasks := (w_tasks s)(t \<mapsto> k\<lparr>tk_pid := 0, tk_status := TASK_FINISHED\<rparr>)\<rparr>) s'
    else if pid = - 1
    then r = BZ_ERROR \<and> quiet os (s\<lparr>w_tasks := (w_tasks s)(t \<mapsto> k\<lparr>tk_pid := 0, tk_status := TASK_FINISHED\<rparr>),
      w_trace := (Fork, - 1) # w_trace s, w_errno := e\<rparr>) s'
    else r = BZ_OK \<and> w_trace s' = (Fork, pid) # w_trace s \<and>
      w_nodes s' = (w_nodes s)(task_node t \<mapsto> nn\<lparr>rb_key := word_of_int pid\<rparr>) \<and>
      (\<exists>sec usec. w_tasks s' = (w_tasks s)(t \<mapsto> k\<lparr>tk_pid := pid, tk_status := TASK_RUNNING,
        tk_start_count := tk_start_count k + 1, tk_start_sec := sec, tk_start_usec := usec\<rparr>))) s"
proof (cases "tk_name k = NULL \<or> tk_path k = NULL")
  case True
  then show ?thesis using task_run_unset [OF k True log] by (simp add: reset_task_def)
next
  case False
  show ?thesis
  proof (cases "pid = - 1")
    case True
    then show ?thesis using False task_run_fork_failed [OF k _ _ log, of os e] f by (simp add: reset_task_def)
  next
    case pid: False
    then show ?thesis
      using False task_run_started [OF k _ _ n, of os pid e] f by (auto simp: returns_def started_task_def)
  qed
qed

theorem task_run_supervisor_witness:
  "returns (task_run ex_os 1000) (\<lambda>r s'. r = BZ_OK \<and> (\<exists>k. w_tasks s' 1000 = Some k \<and> tk_pid k = 100 \<and> tk_start_count k = 1)) ex_task_world"
proof -
  have f: "os_call ex_os (w_trace ex_task_world) Fork = (100, 0)" by (simp add: ex_os_def ex_call_def ex_task_defs)
  have "tk_name ex_task \<noteq> NULL" "tk_path ex_task \<noteq> NULL" "tk_start_count ex_task = 0" by (simp_all add: ex_task_def)
  with task_run_supervisor [OF ex_task_objects(1,5) ex_task_loggable f]
  show ?thesis by (auto elim!: returns_mono)
qed

end
