(* ===== verification/Task_Child.thy ===== *)
theory Task_Child
  imports Task_Props
begin

text \<open>
  The child that \<open>fork\<close> makes, and the end of a task. \<open>carries\<close> is what the steps before \<open>execv\<close> keep:
  the strings, the argument vector, the contexts and every field of the task but \<open>log_path\<close>.
\<close>

section \<open>What the child keeps\<close>

definition carries :: "addr \<Rightarrow> world \<Rightarrow> world \<Rightarrow> bool" where
  "carries t s s' \<longleftrightarrow> w_ptrs s' = w_ptrs s \<and> w_ctxs s' = w_ctxs s \<and> w_insts s' = w_insts s \<and>
     (\<forall>p u. str_at s p = Some u \<longrightarrow> str_at s' p = Some u) \<and> same_logs (w_logs s) (w_logs s') \<and>
     (\<forall>k. deref (w_tasks s) t = Some k \<longrightarrow> (\<exists>lp. deref (w_tasks s') t = Some (k\<lparr>tk_log_path := lp\<rparr>)))"

lemma same_path: "\<exists>lp. (k::task) = k\<lparr>tk_log_path := lp\<rparr>"
  by (rule exI [of _ "tk_log_path k"]) simp

lemma path_inj [simp]: "(k::task)\<lparr>tk_log_path := p\<rparr> = k\<lparr>tk_log_path := q\<rparr> \<longleftrightarrow> p = q"
  by (metis task.select_convs(6) task.surjective task.update_convs(6))

lemma carries_refl [simp]: "carries t s s"
  by (simp add: carries_def same_path)

lemma carries_trans [trans]:
  assumes "carries t s s'" "carries t s' s''"
  shows "carries t s s''"
proof -
  have "\<exists>lp. deref (w_tasks s'') t = Some (k\<lparr>tk_log_path := lp\<rparr>)" if k: "deref (w_tasks s) t = Some k" for k
  proof -
    obtain lp where "deref (w_tasks s') t = Some (k\<lparr>tk_log_path := lp\<rparr>)" using assms(1) k by (auto simp: carries_def)
    then obtain lp' where "deref (w_tasks s'') t = Some (k\<lparr>tk_log_path := lp, tk_log_path := lp'\<rparr>)"
      using assms(2) unfolding carries_def by blast
    then show ?thesis by auto
  qed
  moreover have "same_logs (w_logs s) (w_logs s'')" using assms same_logs_trans by (auto simp: carries_def)
  ultimately show ?thesis using assms by (simp add: carries_def)
qed

lemma quiet_carries: "quiet os s s' \<Longrightarrow> carries t s s'"
  by (simp add: carries_def quiet_str_at quiet_fields same_path)

lemma carries_call: "carries t s (s\<lparr>w_trace := tr, w_errno := e\<rparr>)"
  by (simp add: carries_def str_at_def same_path)

lemma carries_argv:
  assumes "carries t s s'" "argv_at s p = Some args"
  shows "argv_at s' p = Some args"
proof -
  have "strings_until_NULL s ps = Some ts \<Longrightarrow> strings_until_NULL s' ps = Some ts" for ps ts
    using assms(1)
    by (induction s ps arbitrary: ts rule: strings_until_NULL.induct) (auto simp: carries_def split: if_splits bind_splits)
  then show ?thesis using assms by (auto simp: argv_at_def carries_def bind_eq_Some_conv)
qed

lemma argv_bytes: "w_bytes s' = w_bytes s \<Longrightarrow> w_ptrs s' = w_ptrs s \<Longrightarrow> argv_at s' p = argv_at s p"
proof -
  assume b: "w_bytes s' = w_bytes s" and p: "w_ptrs s' = w_ptrs s"
  have str: "str_at s' = str_at s" by (rule ext) (simp add: str_at_def b)
  have "strings_until_NULL s' ps = strings_until_NULL s ps" for ps
  proof (induction ps)
    case (Cons q ps)
    then show ?case by (cases q) (simp_all add: str)
  qed simp
  with p show ?thesis by (simp add: argv_at_def)
qed

text \<open>What the child needs, and keeps.\<close>

definition runnable :: "addr \<Rightarrow> task \<Rightarrow> ctx \<Rightarrow> world \<Rightarrow> bool" where
  "runnable t k c s \<longleftrightarrow> deref (w_tasks s) t = Some k \<and> deref (w_ctxs s) (tk_ctx k) = Some c \<and>
     valid_log s (cx_log c) \<and> (\<exists>b. deref (w_insts s) (cx_instance c) = Some b \<and> str_at s (bi_prefix b) \<noteq> None) \<and>
     str_at s (tk_name k) \<noteq> None \<and> str_at s (tk_path k) \<noteq> None \<and> (tk_dir k \<noteq> NULL \<longrightarrow> str_at s (tk_dir k) \<noteq> None) \<and>
     argv_at s (tk_args k) \<noteq> None"

lemma runnable_carries:
  assumes "runnable t k c s" "carries t s s'"
  obtains lp where "runnable t (k\<lparr>tk_log_path := lp\<rparr>) c s'"
proof -
  obtain lp where lp: "deref (w_tasks s') t = Some (k\<lparr>tk_log_path := lp\<rparr>)"
    using assms by (auto simp: runnable_def carries_def)
  have "valid_log s' (cx_log c)" using assms by (auto simp: runnable_def carries_def valid_log_def elim!: same_logs_deref)
  moreover have "argv_at s' (tk_args k) \<noteq> None" using assms carries_argv by (fastforce simp: runnable_def)
  ultimately have "runnable t (k\<lparr>tk_log_path := lp\<rparr>) c s'"
    using assms lp by (auto simp: runnable_def carries_def)
  then show thesis by (rule that)
qed

lemma runnable_loggable: "runnable t k c s \<Longrightarrow> loggable s t"
  by (auto simp: runnable_def loggable_def)

section \<open>The path of the task's log\<close>

lemma new_bytes_str_at:
  assumes "in_blocks s" "fresh_block (w_blocks s) a n" "0 < n" "str_at s p = Some u"
  shows "p \<noteq> a"
proof
  assume "p = a"
  with assms(4) have "a \<in> objects s" by (auto simp: objects_def str_at_def deref_def split: if_splits)
  with fresh_no_object [OF assms(1,2), of a] assms(3) show False by simp
qed

lemma build_string:
  assumes "deref (w_bytes s) a = Some d" "length u1 + length u2 + length u3 + length u4 < length d"
    "no_nul u1" "no_nul u2" "no_nul u3" "no_nul u4"
  shows "returns (bindr (strcpy a u1) (\<lambda>_. bindr (strcat a u2) (\<lambda>_. bindr (strcat a u3) (\<lambda>_. bindr (strcat a u4) (\<lambda>_. ret x)))))
    (\<lambda>y s'. y = x \<and> (\<exists>d'. s' = s\<lparr>w_bytes := (w_bytes s)(a \<mapsto> d')\<rparr> \<and> cstring d' = Some (u1 @ u2 @ u3 @ u4))) s"
proof -
  let ?s = "\<lambda>d'. s\<lparr>w_bytes := (w_bytes s)(a \<mapsto> d')\<rparr>"
  have a: "a \<noteq> NULL" using assms(1) by (auto dest: deref_not_NULL)
  have step: "returns (bindr (strcat a u) (\<lambda>_. k)) P (?s e)"
    if "cstring e = Some v" "length v + length u < length e" "no_nul u"
      "\<And>e'. length e' = length e \<Longrightarrow> cstring e' = Some (v @ u) \<Longrightarrow> returns k P (?s e')" for u v e k and P :: "'a \<Rightarrow> world \<Rightarrow> bool"
  proof (rule returns_bindr, rule returns_mono)
    show "returns (strcat a u) (\<lambda>_ s'. \<exists>d'. s' = ?s e\<lparr>w_bytes := (w_bytes (?s e))(a \<mapsto> d')\<rparr> \<and>
        length d' = length e \<and> cstring d' = Some (v @ u)) (?s e)"
      by (rule strcat_ok [OF _ that(1-3)]) (use a in \<open>simp add: deref_def\<close>)
  qed (use that(4) in auto)
  show ?thesis
    by (rule returns_bindr, rule returns_mono [OF strcpy_ok [OF assms(1)]])
      (use assms in \<open>auto intro!: step\<close>)
qed

lemma make_log_path_ok:
  assumes run: "runnable t k c s" and mem: "in_blocks s" and fresh: "malloc_fresh os" and lp: "tk_log_path k = NULL"
    and b: "deref (w_insts s) (cx_instance c) = Some b"
    and pre: "str_at s (bi_prefix b) = Some prefix" and nm: "str_at s (tk_name k) = Some name"
  shows "returns (task_make_log_path os t) (\<lambda>made s'. carries t s s' \<and> (made \<longrightarrow>
    (\<exists>p. deref (w_tasks s') t = Some (k\<lparr>tk_log_path := p\<rparr>) \<and> str_at s' p = Some (prefix @ ''/log/'' @ name @ ''.log'')))) s"
proof -
  let ?n = "length prefix + length name + 10"
  have k: "deref (w_tasks s) t = Some k" "deref (w_ctxs s) (tk_ctx k) = Some c" "valid_log s (cx_log c)"
    using run by (auto simp: runnable_def)
  have t: "t \<noteq> NULL" using k(1) by (auto dest: deref_not_NULL)
  have start: "task_make_log_path os t s = bindr (bz_alloc os ?n (cx_log c)) (\<lambda>lp.
     bindr (set_task t (\<lambda>k. k\<lparr>tk_log_path := lp\<rparr>)) (\<lambda>_.
     if lp = NULL then ret False else
     bindr (modify (new_bytes lp ?n)) (\<lambda>_.
     bindr (strcpy lp prefix) (\<lambda>_.
     bindr (strcat lp ''/log/'') (\<lambda>_.
     bindr (strcat lp name) (\<lambda>_.
     bindr (strcat lp ''.log'') (\<lambda>_.
     ret True))))))) s"
    using lp k b pre nm by (simp add: task_make_log_path_def bindr_assoc get_ok task_prefix_ok task_log_ok Let_def)
  show ?thesis
    using fresh
  proof (cases rule: malloc_cases [of os ?n s])
    case fail
    have "returns (bz_log_error os (cx_log c) ''alloc.c'' 29 [Lit ''malloc('', Size ?n, Lit '') failed'']) (\<lambda>_ s'. quiet os s s') s"
      by (rule bz_log_quiet(2) [OF k(3)]) simp
    then obtain s1 where s1: "bz_log_error os (cx_log c) ''alloc.c'' 29 [Lit ''malloc('', Size ?n, Lit '') failed''] s = Some (Ret (), s1)"
      "quiet os s s1" by (rule returnsE) simp
    from quiet_carries [OF s1(2)] k(1) have c1: "carries t s s1" by simp
    have k1: "deref (w_tasks s1) t = Some k" using k(1) quiet_fields(4) [OF s1(2)] by simp
    have "task_make_log_path os t s = Some (Ret False, s1\<lparr>w_tasks := (w_tasks s1)(t \<mapsto> k\<lparr>tk_log_path := NULL\<rparr>)\<rparr>)"
      unfolding start by (simp add: bz_alloc_def bindr_assoc bindr_Ret fail s1(1) set_task_ok [OF k1] run_simps)
    moreover have "carries t s1 (s1\<lparr>w_tasks := (w_tasks s1)(t \<mapsto> k\<lparr>tk_log_path := NULL\<rparr>)\<rparr>)"
      using k1 t by (auto simp: carries_def str_at_def deref_upd)
    ultimately show ?thesis using carries_trans [OF c1] by (auto simp: returns_def intro!: exI [of _ False])
  next
    case (block a)
    let ?s1 = "s\<lparr>w_blocks := (a, ?n) # w_blocks s\<rparr>"
    let ?s2 = "new_bytes a ?n (?s1\<lparr>w_tasks := (w_tasks s)(t \<mapsto> k\<lparr>tk_log_path := a\<rparr>)\<rparr>)"
    have k1: "deref (w_tasks ?s1) t = Some k" using k(1) by simp
    have nn: "no_nul prefix" "no_nul name" using pre nm str_at_no_nul by blast+
    have "returns (bindr (strcpy a prefix) (\<lambda>_. bindr (strcat a ''/log/'') (\<lambda>_. bindr (strcat a name) (\<lambda>_. bindr (strcat a ''.log'') (\<lambda>_. ret True)))))
      (\<lambda>made s'. \<exists>d. s' = ?s2\<lparr>w_bytes := (w_bytes s)(a \<mapsto> d)\<rparr> \<and> cstring d = Some (prefix @ ''/log/'' @ name @ ''.log'') \<and> made) ?s2"
    proof -
      have "deref (w_bytes ?s2) a = Some (replicate ?n None)" using block(2) by (simp add: new_bytes_def deref_def)
      from build_string [OF this, of prefix "''/log/''" name "''.log''" True] nn
      show ?thesis by (auto simp: new_bytes_def no_nul_def elim!: returns_mono)
    qed
    then obtain d where d: "bindr (strcpy a prefix) (\<lambda>_. bindr (strcat a ''/log/'') (\<lambda>_. bindr (strcat a name) (\<lambda>_. bindr (strcat a ''.log'') (\<lambda>_. ret True)))) ?s2
      = Some (Ret True, ?s2\<lparr>w_bytes := (w_bytes s)(a \<mapsto> d)\<rparr>)" "cstring d = Some (prefix @ ''/log/'' @ name @ ''.log'')"
      by (auto elim!: returnsE)
    let ?s3 = "?s2\<lparr>w_bytes := (w_bytes s)(a \<mapsto> d)\<rparr>"
    have "task_make_log_path os t s = Some (Ret True, ?s3)"
      unfolding start using block(2) d(1)
      by (simp add: bz_alloc_def bindr_assoc bindr_Ret block(1) set_task_ok [OF k1] run_simps)
    moreover have "carries t s ?s3"
      using k1 t new_bytes_str_at [OF mem block(3)]
      by (auto simp: carries_def str_at_def deref_upd new_bytes_def deref_def)
    moreover have "str_at ?s3 a = Some (prefix @ ''/log/'' @ name @ ''.log'')" using d(2) block(2) by (simp add: str_at_def deref_def)
    moreover have "deref (w_tasks ?s3) t = Some (k\<lparr>tk_log_path := a\<rparr>)" using t by (simp add: new_bytes_def deref_def)
    ultimately show ?thesis by (auto simp: returns_def)
  qed
qed

section \<open>Redirection\<close>

text \<open>\<open>kept t m s\<close>: from \<open>s\<close>, \<open>m\<close> returns and keeps what the child needs.\<close>

definition kept :: "addr \<Rightarrow> 'a prog \<Rightarrow> world \<Rightarrow> bool" where
  "kept t m s \<longleftrightarrow> returns m (\<lambda>_ s'. carries t s s') s"

lemma kept_bindr:
  assumes "kept t m s" and "\<And>x s'. m s = Some (Ret x, s') \<Longrightarrow> carries t s s' \<Longrightarrow> kept t (f x) s'"
  shows "kept t (bindr m f) s"
  using assms carries_trans by (fastforce simp: kept_def returns_def bindr_def)

lemma kept_get: "deref (w_tasks s) t = Some k \<Longrightarrow> kept u (bindr (get_task g t) f) s = kept u (f (g k)) s"
  by (simp add: kept_def returns_def get_ok)

lemma kept_str: "str_at s p = Some w \<Longrightarrow> kept u (bindr (get_str p) f) s = kept u (f w) s"
  by (simp add: kept_def returns_def get_ok)

lemma kept_ret [simp]: "kept t (ret x) s"
  by (simp add: kept_def)

lemma kept_run: "m s = m' s \<Longrightarrow> kept t m s = kept t m' s"
  by (simp add: kept_def returns_def)

lemma kept_syscall: "kept t (syscall os c) s"
  by (cases "os_call os (w_trace s) c") (simp add: kept_def returns_def syscall_def carries_call)

lemma kept_failed: "runnable t k c s \<Longrightarrow> kept t (task_failed os t line what) s"
  unfolding kept_def
  by (rule returns_mono [OF task_failed_quiet [OF runnable_loggable]]) (auto intro: quiet_carries)

lemma kept_log:
  assumes "runnable t k c s" "\<And>e. render s (msg e) \<noteq> None" "\<And>s'. carries t s s' \<Longrightarrow> kept t m s'"
  shows "kept t (bindr (task_log t) (\<lambda>log. bindr (strerror os) (\<lambda>e. bindr (bz_log_error os log file line (msg e)) (\<lambda>_. m)))) s"
proof -
  let ?e = "os_strerror os (w_errno s)"
  have k: "deref (w_tasks s) t = Some k" "deref (w_ctxs s) (tk_ctx k) = Some c" "valid_log s (cx_log c)"
    using assms(1) by (auto simp: runnable_def)
  have "kept t (bz_log_error os (cx_log c) file line (msg ?e)) s"
    unfolding kept_def by (rule returns_mono [OF bz_log_quiet(2) [OF k(3) assms(2)]]) (auto intro: quiet_carries)
  then have "kept t (bindr (bz_log_error os (cx_log c) file line (msg ?e)) (\<lambda>_. m)) s"
    by (rule kept_bindr) (rule assms(3))
  then show ?thesis using k(1,2) by (simp add: kept_def returns_def task_log_ok strerror_def run_simps)
qed

lemma kept_dup2: "kept t (dup2_std os fd) s"
  unfolding dup2_std_def by (auto intro!: kept_bindr kept_syscall)

lemma task_redirect_std_kept:
  assumes run: "runnable t k c s" and path: "str_at s (tk_log_path k) \<noteq> None"
  shows "kept t (task_redirect_std os t) s"
proof -
  obtain pt where pt: "str_at s (tk_log_path k) = Some pt" using path by auto
  have k: "deref (w_tasks s) t = Some k" using run by (auto simp: runnable_def)
  have r: "\<exists>k. runnable t k c s2" if "carries t s s2" for s2 using runnable_carries [OF run that] by blast
  have msg: "str_at s2 (tk_log_path k) = Some pt" if "carries t s s2" for s2 using pt that by (auto simp: carries_def)
  have logged: "kept t (bindr (task_log t) (\<lambda>log. bindr (strerror os) (\<lambda>e. bindr (bz_log_error os log f line (msg e)) (\<lambda>_. m)))) s2"
    if "carries t s s2" "\<And>e. render s2 (msg e) \<noteq> None" "\<And>s'. kept t m s'" for s2 f line msg and m :: "int prog"
    using r [OF that(1)] kept_log that(2,3) by blast
  show ?thesis
    unfolding task_redirect_std_def kept_get [OF k] kept_str [OF pt]
  proof (rule kept_bindr [OF kept_syscall], goal_cases)
    case (1 fd s1)
    note c1 = this(2) and c2 = carries_trans [OF this(2)]
    show ?case
    proof (cases "fd < 0")
      case True
      show ?thesis unfolding if_P [OF True]
        by (rule logged [OF c1]) (simp_all add: msg [OF c1])
    next
      case False
      show ?thesis unfolding if_not_P [OF False]
      proof (rule kept_bindr [OF kept_dup2], goal_cases)
        case (1 failed s2)
        note c3 = c2 [OF this(2)]
        show ?case
          by (cases failed) (auto intro!: kept_bindr [OF kept_syscall] logged [OF c3])
      qed
    qed
  qed
qed

lemma task_redirect_io_kept:
  assumes run: "runnable t k c s" and mem: "in_blocks s" and fresh: "malloc_fresh os" and lp: "tk_log_path k = NULL"
  shows "kept t (task_redirect_io os t) s"
proof -
  obtain b prefix name where b: "deref (w_insts s) (cx_instance c) = Some b" "str_at s (bi_prefix b) = Some prefix" "str_at s (tk_name k) = Some name"
    using run by (auto simp: runnable_def)
  note made = make_log_path_ok [OF run mem fresh lp b]
  show ?thesis unfolding task_redirect_io_def
  proof (rule kept_bindr)
    show "kept t (task_make_log_path os t) s" using made by (auto simp: kept_def elim: returns_mono)
  next
    fix x s1
    assume m: "task_make_log_path os t s = Some (Ret x, s1)" and c1: "carries t s s1"
    obtain lp where r1: "runnable t (k\<lparr>tk_log_path := lp\<rparr>) c s1" using runnable_carries [OF run c1] .
    have "\<exists>p. deref (w_tasks s1) t = Some (k\<lparr>tk_log_path := p\<rparr>) \<and> str_at s1 p \<noteq> None" if x
      using made m that by (auto simp: returns_def)
    then have "str_at s1 (tk_log_path (k\<lparr>tk_log_path := lp\<rparr>)) \<noteq> None" if x
      using that r1 by (auto simp: runnable_def)
    with r1 show "kept t (if \<not> x then ret BZ_ERROR else task_redirect_std os t) s1"
      by (simp add: task_redirect_std_kept)
  qed
qed

section \<open>The child until execv\<close>

lemma kept_then:
  assumes "kept t m s" and "\<And>x s'. carries t s s' \<Longrightarrow> returns (f x) P s'"
  shows "returns (bindr m f) P s"
  by (rule returns_bindr, rule returns_mono [OF assms(1) [unfolded kept_def]]) (rule assms(2))

lemma returns_get: "deref (w_tasks s) t = Some k \<Longrightarrow> returns (bindr (get_task g t) f) P s = returns (f (g k)) P s"
  by (simp add: returns_def get_ok)

lemma task_pre_run_ready:
  assumes run: "runnable t k c s" and mem: "in_blocks s" and fresh: "malloc_fresh os" and lp: "tk_log_path k = NULL"
  shows "returns (task_pre_run os t) (\<lambda>r s'. carries t s s' \<and> (r = BZ_OK \<longrightarrow> (\<exists>x tr.
    w_trace s' = (Sigprocmask SIG_SETMASK (cx_origmask c), x) # tr \<and> 0 \<le> x))) s"
proof -
  let ?P = "\<lambda>r s'. carries t s s' \<and> (r = BZ_OK \<longrightarrow> (\<exists>x tr. w_trace s' = (Sigprocmask SIG_SETMASK (cx_origmask c), x) # tr \<and> 0 \<le> x))"
  have r: "\<exists>lp. runnable t (k\<lparr>tk_log_path := lp\<rparr>) c s1" if "carries t s s1" for s1
    using runnable_carries [OF run that] by blast
  have failed: "returns (bindr (task_failed os t line what) (\<lambda>_. ret BZ_ERROR)) ?P s1" if c: "carries t s s1" for s1 line what
  proof -
    obtain lp where "runnable t (k\<lparr>tk_log_path := lp\<rparr>) c s1" using r [OF c] by blast
    from kept_failed [OF this] show ?thesis
      by (rule kept_then) (simp add: carries_trans [OF c] BZ_OK_def BZ_ERROR_def)
  qed
  have dir: "kept t (if tk_dir k = NULL then ret 0 else bindr (get_str (tk_dir k)) (\<lambda>d. syscall os (f d))) s1"
    if c: "carries t s s1" for s1 and f :: "string \<Rightarrow> call"
  proof (cases "tk_dir k = NULL")
    case False
    then obtain d where "str_at s1 (tk_dir k) = Some d" using r [OF c] by (auto simp: runnable_def)
    then show ?thesis using False by (simp add: kept_str kept_syscall)
  qed simp
  have get_dir: "returns (bindr (get_task tk_dir t) f) ?P s1" if "carries t s s1" "returns (f (tk_dir k)) ?P s1" for s1 f
    using r [OF that(1)] that(2) by (auto simp: runnable_def returns_get)
  have call: "returns (bindr (bindr (get_task tk_path t) get_str) f) ?P s1" 
    if cc: "carries t s s1" and ff: "\<And>x. returns (f x) ?P s1" for s1 and f
  proof -
    obtain lp path where l: "deref (w_tasks s1) t = Some (k\<lparr>tk_log_path := lp\<rparr>)" "str_at s1 (tk_path k) = Some path"
      using r [OF cc] by (auto simp: runnable_def)
    show ?thesis using ff l by (simp add: bindr_assoc returns_get) (simp add: returns_def get_ok)
  qed
  have mask: "returns (bindr (bindr (get_task tk_ctx t) (get_ctx cx_origmask)) f) ?P s1" 
    if cc: "carries t s s1" and ff: "returns (f (cx_origmask c)) ?P s1" for s1 and f
  proof -
    obtain lp where l: "deref (w_tasks s1) t = Some (k\<lparr>tk_log_path := lp\<rparr>)" "deref (w_ctxs s1) (tk_ctx k) = Some c"
      using r [OF cc] by (auto simp: runnable_def)
    show ?thesis using ff l by (simp add: bindr_assoc returns_get) (simp add: returns_def get_ok)
  qed
  have last: "returns (bindr (syscall os (Sigprocmask SIG_SETMASK (cx_origmask c))) (\<lambda>r.
     if r < 0 then bindr (task_failed os t 149 ''change back signal mask failed'') (\<lambda>_. ret BZ_ERROR) else
     ret BZ_OK)) ?P s1" if c: "carries t s s1" for s1
  proof -
    let ?c = "Sigprocmask SIG_SETMASK (cx_origmask c)"
    obtain x e where x: "os_call os (w_trace s1) ?c = (x, e)" by (cases "os_call os (w_trace s1) ?c")
    define s2 where "s2 = s1\<lparr>w_trace := (?c, x) # w_trace s1, w_errno := (if x < 0 then e else w_errno s1)\<rparr>"
    have c2: "carries t s s2" unfolding s2_def by (rule carries_trans [OF c carries_call])
    have "returns (if x < 0 then bindr (task_failed os t 149 ''change back signal mask failed'') (\<lambda>_. ret BZ_ERROR) else
     ret BZ_OK) ?P s2"
    proof (cases "x < 0")
      case True
      show ?thesis unfolding if_P [OF True] by (rule failed [OF c2])
    next
      case False
      then have "w_trace s2 = (?c, x) # w_trace s1" "0 \<le> x" by (simp_all add: s2_def)
      with False c2 show ?thesis by (simp add: BZ_OK_def)
    qed
    then show ?thesis by (simp add: returns_def run_simps x s2_def)
  qed
  show ?thesis unfolding task_pre_run_def
  proof (rule kept_then [OF task_redirect_io_kept [OF run mem fresh lp]], goal_cases)
    case (1 _ s1)
    show ?case
    proof (rule get_dir [OF 1], rule kept_then [OF dir [OF 1]], goal_cases)
      case (1 r s2)
      with \<open>carries t s s1\<close> have c2: "carries t s s2" by (rule carries_trans)
      show ?case
      proof (cases "r < 0")
        case False
        show ?thesis unfolding if_not_P [OF False]
        proof (rule kept_then [OF dir [OF c2]], goal_cases)
          case (1 r s3)
          with c2 have c3: "carries t s s3" by (rule carries_trans)
          show ?case
          proof (cases "r < 0")
            case False
            show ?thesis unfolding if_not_P [OF False]
            proof (rule call [OF c3], rule kept_then [OF kept_syscall [where t = t]], goal_cases)
              case (1 _ r s4)
              with c3 have c4: "carries t s s4" by (auto intro: carries_trans)
              show ?case
              proof (cases "r < 0")
                case False
                show ?thesis unfolding if_not_P [OF False] by (rule mask [OF c4]) (rule last [OF c4])
              qed (use failed [OF c4] in simp)
            qed
          qed (use failed [OF c3] in simp)
        qed
      qed (use failed [OF c2] in simp)
    qed
  qed
qed

text \<open>In the child \<open>task_run\<close> does not come back: the process image is replaced, or the process exits.\<close>

lemma task_run_in_child:
  assumes run: "runnable t k c s" and mem: "in_blocks s" and fresh: "malloc_fresh os" and lp: "tk_log_path k = NULL"
    and fork: "os_call os (w_trace s) Fork = (0, e)"
    and path: "str_at s (tk_path k) = Some path" and args: "argv_at s (tk_args k) = Some args"
  shows "ends (task_run os t) (\<lambda>r s'. case r of Ret _ \<Rightarrow> False | Exit code \<Rightarrow> code = BZ_ERROR
    | Exec \<Rightarrow> \<exists>x y tr. w_trace s' = (Execv path args, x) # (Sigprocmask SIG_SETMASK (cx_origmask c), y) # tr \<and> 0 \<le> x \<and> 0 \<le> y) s"
    (is "ends _ ?P s")
proof -
  let ?k = "reset_task k"
  let ?s = "s\<lparr>w_tasks := (w_tasks s)(t \<mapsto> ?k), w_trace := (Fork, 0) # w_trace s\<rparr>"
  have k: "deref (w_tasks s) t = Some k" and t: "t \<noteq> NULL"
    using run by (auto simp: runnable_def dest: deref_not_NULL)
  have names: "tk_name k \<noteq> NULL" "tk_path k \<noteq> NULL" using run by (auto simp: runnable_def str_at_def deref_def split: if_splits)
  have t1: "deref ((w_tasks s)(t \<mapsto> ?k)) t = Some ?k" using t by (simp add: deref_def)
  have run1: "runnable t ?k c ?s" using run t1
    using argv_bytes [of ?s s] by (auto simp: runnable_def reset_task_def str_at_def valid_log_def)
  have "dom ((w_tasks s)(t \<mapsto> ?k)) = dom (w_tasks s)" using k by (auto simp: deref_def split: if_splits)
  then have mem1: "in_blocks ?s" using mem by (simp add: in_blocks_def objects_def del: dom_fun_upd)
  have lp1: "tk_log_path ?k = NULL" using lp by (simp add: reset_task_def)
  let ?rest = "\<lambda>r. if r \<noteq> BZ_OK then exit_with BZ_ERROR else
       bindr (bindr (get_task tk_path t) get_str) (\<lambda>path.
       bindr (bindr (get_task tk_args t) (\<lambda>p. getsome (\<lambda>s. argv_at s p))) (\<lambda>args.
       bindr (execv os path args) (\<lambda>r.
       if r < 0 then
         bindr (task_failed os t 179 ''call execv failed'') (\<lambda>_. exit_with BZ_ERROR)
       else task_started os t 0)))"
  have start: "task_run os t s = bindr (task_pre_run os t) ?rest ?s"
    using k t1 names fork by (simp add: task_run_def task_reset_def bindr_assoc set_task_ok get_ok reset_task_def [symmetric] run_simps)
      (simp add: reset_task_def)
  have p1: "str_at ?s (tk_path ?k) = Some path" "argv_at ?s (tk_args ?k) = Some args"
    using path args argv_bytes [of ?s s] by (simp_all add: str_at_def reset_task_def)
  have "ends (?rest r) ?P s1"
    if c1: "carries t ?s s1" and r: "r = BZ_OK \<longrightarrow> (\<exists>x tr. w_trace s1 = (Sigprocmask SIG_SETMASK (cx_origmask c), x) # tr \<and> 0 \<le> x)"
    for r s1
  proof (cases "r = BZ_OK")
    case True
    then obtain y tr where y: "w_trace s1 = (Sigprocmask SIG_SETMASK (cx_origmask c), y) # tr" "0 \<le> y" using r by blast
    obtain lp' where run2: "runnable t (?k\<lparr>tk_log_path := lp'\<rparr>) c s1" using runnable_carries [OF run1 c1] .
    then have k2: "deref (w_tasks s1) t = Some (?k\<lparr>tk_log_path := lp'\<rparr>)" by (simp add: runnable_def)
    have p2: "str_at s1 (tk_path ?k) = Some path" "argv_at s1 (tk_args ?k) = Some args"
      using p1 c1 carries_argv [OF c1] by (auto simp: carries_def)
    obtain x e where x: "os_call os (w_trace s1) (Execv path args) = (x, e)" by (cases "os_call os (w_trace s1) (Execv path args)")
    define s2 where "s2 = s1\<lparr>w_trace := (Execv path args, x) # w_trace s1, w_errno := (if x < 0 then e else w_errno s1)\<rparr>"
    have go: "?rest r s1 = bindr (if x < 0 then ret x else (\<lambda>s. Some (Exec, s))) (\<lambda>r. if r < 0 then
         bindr (task_failed os t 179 ''call execv failed'') (\<lambda>_. exit_with BZ_ERROR)
       else task_started os t 0) s2"
      using True k2 p2 x by (simp add: bindr_assoc get_ok execv_def run_simps s2_def)
    show ?thesis
    proof (cases "x < 0")
      case True
      have c2: "carries t s1 s2" unfolding s2_def by (rule carries_call)
      obtain lp'' where "runnable t (?k\<lparr>tk_log_path := lp', tk_log_path := lp''\<rparr>) c s2"
        using runnable_carries [OF run2 c2] .
      then have "loggable s2 t" by (rule runnable_loggable)
      note failed = task_failed_quiet [OF this, of os 179 "''call execv failed''"]
      have "ends (bindr (task_failed os t 179 ''call execv failed'') (\<lambda>_. exit_with BZ_ERROR)) ?P s2"
        by (rule returns_ends_bindr, rule returns_mono [OF failed], simp)
      with True go show ?thesis by (simp add: ends_def)
    next
      case False
      then show ?thesis using go y by (simp add: ends_def bindr_def s2_def)
    qed
  qed simp
  then have "ends (bindr (task_pre_run os t) ?rest) ?P ?s"
    by (intro returns_ends_bindr, intro returns_mono [OF task_pre_run_ready [OF run1 mem1 fresh lp1]]) blast
  then show ?thesis by (simp add: ends_def start)
qed

section \<open>The child's properties\<close>

definition ex_child_os :: os where
  "ex_child_os = ex_os\<lparr>os_call := (\<lambda>tr c. if c = Fork then (0, 0) else ex_call tr c)\<rparr>"

lemma ex_child_fresh: "malloc_fresh ex_child_os"
  using ex_os_fresh by (simp add: malloc_fresh_def ex_child_os_def)

lemma in_blocks_list:
  assumes "objects s \<subseteq> set ps" "list_all (\<lambda>p. list_ex (\<lambda>(b, n). b \<le> p \<and> p < b + n) (w_blocks s)) ps"
  shows "in_blocks s"
  unfolding in_blocks_def
proof
  fix p
  assume "p \<in> objects s"
  then have "list_ex (\<lambda>(b, n). b \<le> p \<and> p < b + n) (w_blocks s)" using assms by (auto simp: list_all_iff)
  then show "\<exists>b n. (b, n) \<in> set (w_blocks s) \<and> b \<le> p \<and> p < b + n" by (fastforce simp: list_ex_iff)
qed

lemma ex_task_blocks: "in_blocks ex_task_world"
proof (rule in_blocks_list)
  show "objects ex_task_world \<subseteq> set [200, 620, 1200, 1300, 1400, 1500, 1000, 1120, 908, 484, 1136, 100, 900, 300, 601]"
    by (simp add: objects_def ex_task_defs)
  show "list_all (\<lambda>p. list_ex (\<lambda>(b, n). b \<le> p \<and> p < b + n) (w_blocks ex_task_world))
    [200, 620, 1200, 1300, 1400, 1500, 1000, 1120, 908, 484, 1136, 100, 900, 300, 601]"
    by (simp add: ex_task_defs)
qed

lemma ex_task_argv: "argv_at ex_task_world 1500 = Some [''/bin/sleep'', ''10'']"
  using ex_task_strings by (simp add: argv_at_def) (simp add: ex_task_defs deref_def)

lemma ex_task_runnable: "runnable 1000 ex_task ex_ctx ex_task_world"
  using ex_task_objects ex_task_strings ex_task_argv by (auto simp: runnable_def) (auto simp: ex_task_def ex_ctx_def ex_instance_def)

text \<open>C20: The log of a task is named after the prefix and the task, and the buffer of
  \<open>strlen(prefix) + strlen(name) + 10\<close> bytes is large enough: no copy leaves it.\<close>

theorem task_log_path_correct:
  assumes "runnable t k c s" "in_blocks s" "malloc_fresh os" "tk_log_path k = NULL"
    "deref (w_insts s) (cx_instance c) = Some b" "str_at s (bi_prefix b) = Some prefix" "str_at s (tk_name k) = Some name"
  shows "returns (task_make_log_path os t) (\<lambda>made s'. carries t s s' \<and> (made \<longrightarrow>
    (\<exists>p. deref (w_tasks s') t = Some (k\<lparr>tk_log_path := p\<rparr>) \<and> str_at s' p = Some (prefix @ ''/log/'' @ name @ ''.log'')))) s"
  by (rule make_log_path_ok [OF assms])

theorem task_log_path_correct_witness:
  "returns (task_make_log_path ex_os 1000) (\<lambda>made s'. made \<longrightarrow> (\<exists>p. str_at s' p = Some ''/opt/log/tea.log'')) ex_task_world"
proof -
  have k: "tk_log_path ex_task = NULL" "deref (w_insts ex_task_world) (cx_instance ex_ctx) = Some ex_instance"
    "str_at ex_task_world (bi_prefix ex_instance) = Some ''/opt''" "str_at ex_task_world (tk_name ex_task) = Some ''tea''"
    using ex_task_objects ex_task_strings by (simp_all add: ex_task_def ex_ctx_def ex_instance_def)
  show ?thesis
    by (rule returns_mono [OF task_log_path_correct [OF ex_task_runnable ex_task_blocks ex_os_fresh k]]) auto
qed

text \<open>C19: In the child \<open>task_run\<close> never returns into the supervisor's code: either the program of the task replaces the
  process, with the argument vector of the configuration and right after the signal mask of before the supervisor's
  was restored, or the process exits with \<open>ERROR\<close>.\<close>

theorem task_run_child:
  assumes "runnable t k c s" "in_blocks s" "malloc_fresh os" "tk_log_path k = NULL"
    "os_call os (w_trace s) Fork = (0, e)" "str_at s (tk_path k) = Some path" "argv_at s (tk_args k) = Some args"
  shows "ends (task_run os t) (\<lambda>r s'. case r of Ret _ \<Rightarrow> False | Exit code \<Rightarrow> code = BZ_ERROR
    | Exec \<Rightarrow> \<exists>x y tr. w_trace s' = (Execv path args, x) # (Sigprocmask SIG_SETMASK (cx_origmask c), y) # tr \<and> 0 \<le> x \<and> 0 \<le> y) s"
  by (rule task_run_in_child [OF assms])

theorem task_run_child_witness:
  "ends (task_run ex_child_os 1000) (\<lambda>r s'. r = Exec \<longrightarrow> fst (hd (w_trace s')) = Execv ''/bin/sleep'' [''/bin/sleep'', ''10'']) ex_task_world"
proof -
  have f: "os_call ex_child_os (w_trace ex_task_world) Fork = (0, 0)" by (simp add: ex_child_os_def)
  have k: "tk_log_path ex_task = NULL" "str_at ex_task_world (tk_path ex_task) = Some ''/bin/sleep''"
    "argv_at ex_task_world (tk_args ex_task) = Some [''/bin/sleep'', ''10'']"
    using ex_task_strings ex_task_argv by (simp_all add: ex_task_def)
  show ?thesis
    by (rule ends_mono [OF task_run_child [OF ex_task_runnable ex_task_blocks ex_child_fresh k(1) f k(2,3)]]) auto
qed

end
