(* ===== verification/Task_Close.thy ===== *)
theory Task_Close
  imports Task_Child
begin

text \<open>
  Giving memory back. \<open>release p\<close> is what \<open>free\<close> does to a live block; in a memory whose blocks are
  \<open>separate\<close> it touches no other block. \<open>task_close\<close> releases each block that a task owns once.
\<close>

section \<open>Releasing blocks\<close>

definition separate :: "world \<Rightarrow> bool" where
  "separate s \<longleftrightarrow> distinct (map fst (w_blocks s)) \<and>
     (\<forall>(a, n) \<in> set (w_blocks s). \<forall>(b, m) \<in> set (w_blocks s). a \<noteq> b \<longrightarrow> a + n \<le> b \<or> b + m \<le> a)"

definition live :: "world \<Rightarrow> addr set" where
  "live s = fst ` set (w_blocks s)"

definition release :: "addr \<Rightarrow> world \<Rightarrow> world" where
  "release p s = (case map_of (w_blocks s) p of None \<Rightarrow> s
     | Some n \<Rightarrow> s\<lparr>w_blocks := filter (\<lambda>e. fst e \<noteq> p) (w_blocks s),
          w_bytes := without p n (w_bytes s), w_ptrs := without p n (w_ptrs s),
          w_tasks := without p n (w_tasks s), w_lists := without p n (w_lists s),
          w_nodes := without p n (w_nodes s), w_logs := without p n (w_logs s),
          w_confs := without p n (w_confs s), w_ctxs := without p n (w_ctxs s),
          w_insts := without p n (w_insts s)\<rparr>)"

lemma free_NULL [simp]: "free 0 s = Some (Ret (), s)"
  by (simp add: free_def)

lemma free_live: "p \<in> live s \<Longrightarrow> p \<noteq> NULL \<Longrightarrow> free p s = Some (Ret (), release p s)"
proof -
  assume "p \<in> live s" and n: "p \<noteq> NULL"
  then obtain n where "map_of (w_blocks s) p = Some n" by (auto simp: live_def dest: weak_map_of_SomeI)
  with n show ?thesis by (simp add: free_def release_def)
qed

lemma release_blocks: "w_blocks (release p s) = filter (\<lambda>e. fst e \<noteq> p) (w_blocks s)"
proof (cases "map_of (w_blocks s) p")
  case None
  then have "filter (\<lambda>e. fst e \<noteq> p) (w_blocks s) = w_blocks s" by (auto simp: map_of_eq_None_iff filter_id_conv)
  with None show ?thesis by (simp add: release_def)
qed (simp add: release_def)

lemma live_release [simp]: "live (release p s) = live s - {p}"
  by (auto simp: live_def release_blocks)

lemma separate_release [simp]: "separate s \<Longrightarrow> separate (release p s)"
  by (auto simp: separate_def release_blocks distinct_map_filter)

lemma release_state [simp]:
  "w_trace (release p s) = w_trace s" "w_errno (release p s) = w_errno s" "g_context (release p s) = g_context s"
  "bz_quit (release p s) = bz_quit s" "bz_terminate (release p s) = bz_terminate s" "bz_child (release p s) = bz_child s"
  "bz_reconfigure (release p s) = bz_reconfigure s" "bz_reopen (release p s) = bz_reopen s"
  by (simp_all add: release_def split: option.split)

text \<open>An address inside a block other than the released one.\<close>

definition within :: "world \<Rightarrow> addr \<Rightarrow> addr \<Rightarrow> bool" where
  "within s b q \<longleftrightarrow> (\<exists>n. (b, n) \<in> set (w_blocks s) \<and> b \<le> q \<and> q < b + n)"

lemma within_release: "within s b q \<Longrightarrow> b \<noteq> p \<Longrightarrow> within (release p s) b q"
  by (auto simp: within_def release_blocks)

lemma release_same:
  assumes "separate s" "within s b q" "b \<noteq> p"
  shows "w_bytes (release p s) q = w_bytes s q" "w_ptrs (release p s) q = w_ptrs s q" "w_tasks (release p s) q = w_tasks s q"
    "w_lists (release p s) q = w_lists s q" "w_nodes (release p s) q = w_nodes s q" "w_logs (release p s) q = w_logs s q"
    "w_confs (release p s) q = w_confs s q" "w_ctxs (release p s) q = w_ctxs s q" "w_insts (release p s) q = w_insts s q"
proof -
  have "without p n h q = h q" if "map_of (w_blocks s) p = Some n" for n and h :: "addr \<rightharpoonup> 'a"
  proof -
    obtain m where m: "(b, m) \<in> set (w_blocks s)" "b \<le> q" "q < b + m" using assms(2) by (auto simp: within_def)
    have "(p, n) \<in> set (w_blocks s)" using that by (rule map_of_SomeD)
    with m(1) assms(1,3) have "p + n \<le> b \<or> b + m \<le> p" by (fastforce simp: separate_def)
    with m(2,3) show ?thesis by (auto simp: without_def)
  qed
  note w = this
  show "w_bytes (release p s) q = w_bytes s q" "w_ptrs (release p s) q = w_ptrs s q" "w_tasks (release p s) q = w_tasks s q"
    "w_lists (release p s) q = w_lists s q" "w_nodes (release p s) q = w_nodes s q" "w_logs (release p s) q = w_logs s q"
    "w_confs (release p s) q = w_confs s q" "w_ctxs (release p s) q = w_ctxs s q" "w_insts (release p s) q = w_insts s q"
    by (simp_all add: release_def w split: option.split)
qed

lemma deref_same: "h q = h' q \<Longrightarrow> deref h q = deref h' q"
  by (simp add: deref_def)

definition release_all :: "addr list \<Rightarrow> world \<Rightarrow> world" where
  "release_all ps s = fold release ps s"

lemma release_all_simps [simp]:
  "release_all [] s = s" "release_all (p # ps) s = release_all ps (release p s)"
  "release_all (ps @ qs) s = release_all qs (release_all ps s)"
  by (simp_all add: release_all_def)

lemma live_release_all [simp]: "live (release_all ps s) = live s - set ps"
  by (induction ps arbitrary: s) auto

lemma release_all_keeps:
  assumes "separate s" "within s b q" "b \<notin> set ps"
  shows "separate (release_all ps s)" "within (release_all ps s) b q"
    "w_bytes (release_all ps s) q = w_bytes s q" "w_ptrs (release_all ps s) q = w_ptrs s q"
    "w_tasks (release_all ps s) q = w_tasks s q" "w_lists (release_all ps s) q = w_lists s q"
    "w_nodes (release_all ps s) q = w_nodes s q" "w_logs (release_all ps s) q = w_logs s q"
    "w_confs (release_all ps s) q = w_confs s q" "w_ctxs (release_all ps s) q = w_ctxs s q"
    "w_insts (release_all ps s) q = w_insts s q"
  using assms by (induction ps arbitrary: s) (simp_all add: within_release release_same)

lemma separate_release_all [simp]: "separate s \<Longrightarrow> separate (release_all ps s)"
  by (induction ps arbitrary: s) simp_all

lemma release_all_blocks: "w_blocks (release_all ps s) = filter (\<lambda>e. fst e \<notin> set ps) (w_blocks s)"
proof (induction ps arbitrary: s)
  case (Cons p ps)
  have "(\<lambda>e. fst e \<noteq> p \<and> fst e \<notin> set ps) = (\<lambda>e :: addr \<times> nat. fst e \<notin> set (p # ps))" by (auto simp: fun_eq_iff)
  then show ?case by (simp add: Cons.IH release_blocks)
qed simp

lemma release_all_state [simp]:
  "w_trace (release_all p s) = w_trace s" "w_errno (release_all p s) = w_errno s" "g_context (release_all p s) = g_context s"
  "bz_quit (release_all p s) = bz_quit s" "bz_terminate (release_all p s) = bz_terminate s" "bz_child (release_all p s) = bz_child s"
  "bz_reconfigure (release_all p s) = bz_reconfigure s" "bz_reopen (release_all p s) = bz_reopen s"
  by (induction p arbitrary: s; simp)+

section \<open>The end of a task\<close>

lemma drop_Cons_nth: "drop i xs = y # ys \<Longrightarrow> i < length xs \<and> xs ! i = y \<and> drop (i + 1) xs = ys"
proof -
  assume d: "drop i xs = y # ys"
  have "i < length xs" by (rule ccontr) (use d in simp)
  with d Cons_nth_drop_Suc [of i xs] show ?thesis by simp
qed

lemma free_strings_run:
  assumes "deref (w_ptrs s) p = Some ps" "drop i ps = map Some qs @ Some NULL # rest" "within s p p" "separate s"
    "NULL \<notin> set qs" "distinct (p # qs)" "set qs \<subseteq> live s"
  shows "free_strings p i s = Some (Ret (), release_all qs s)"
  using assms
proof (induction qs arbitrary: s i)
  case Nil
  then have "i < length ps" "ps ! i = Some NULL" using drop_Cons_nth by fastforce+
  then show ?case using Nil.prems(1) by (subst free_strings.simps) (simp add: run_simps)
next
  case (Cons q qs)
  have i: "i < length ps" "ps ! i = Some q" "drop (i + 1) ps = map Some qs @ Some NULL # rest"
    using drop_Cons_nth [of i ps "Some q"] Cons.prems(2) by auto
  have q: "q \<noteq> NULL" "q \<in> live s" "p \<noteq> q" using Cons.prems by auto
  have "p \<noteq> NULL" using Cons.prems(1) by (auto dest: deref_not_NULL)
  then have ps: "deref (w_ptrs (release q s)) p = Some ps"
    using Cons.prems(1) release_same(2) [OF Cons.prems(4,3) q(3)] by (simp add: deref_def)
  have "free_strings p (i + 1) (release q s) = Some (Ret (), release_all qs (release q s))"
    by (rule Cons.IH [OF ps i(3)]) (use Cons.prems q in \<open>auto intro: within_release\<close>)
  then show ?case using Cons.prems(1) i q
    by (subst free_strings.simps) (simp add: run_simps bindr_Ret free_live)
qed

text \<open>The blocks that a task owns, in the order in which \<open>task_close\<close> frees them: \<open>args\<close> and \<open>envp\<close> are the
  strings of the two vectors.\<close>

definition owned :: "addr \<Rightarrow> addr list" where
  "owned p = (if p = NULL then [] else [p])"

definition task_blocks :: "task \<Rightarrow> addr list \<Rightarrow> addr list \<Rightarrow> addr list" where
  "task_blocks k args envp = args @ [tk_args k] @ envp @
     owned (tk_envp k) @ owned (tk_name k) @ owned (tk_dir k) @ owned (tk_log_path k)"

definition vector_at :: "world \<Rightarrow> addr \<Rightarrow> addr list \<Rightarrow> bool" where
  "vector_at s p qs \<longleftrightarrow> NULL \<notin> set qs \<and> (\<exists>rest. deref (w_ptrs s) p = Some (map Some qs @ Some NULL # rest))"

definition owns :: "world \<Rightarrow> addr \<Rightarrow> task \<Rightarrow> addr list \<Rightarrow> addr list \<Rightarrow> bool" where
  "owns s t k args envp \<longleftrightarrow> deref (w_tasks s) t = Some k \<and> vector_at s (tk_args k) args \<and>
     (if tk_envp k = NULL then envp = [] else vector_at s (tk_envp k) envp) \<and>
     distinct (t # task_blocks k args envp) \<and> (\<forall>p \<in> set (t # task_blocks k args envp). within s p p)"

lemma within_live: "within s p p \<Longrightarrow> p \<in> live s"
  by (force simp: within_def live_def)

lemma free_opt: "p = NULL \<or> p \<in> live s \<Longrightarrow> free p s = Some (Ret (), release_all (owned p) s)"
  by (auto simp: free_live owned_def)

lemma prefix_ok: "distinct xs \<Longrightarrow> xs = ps @ rest \<Longrightarrow> distinct ps \<and> set ps \<subseteq> set xs"
  by auto

lemma next_block:
  assumes "distinct xs" "xs = ps @ owned p @ rest"
  shows "p = NULL \<or> p \<in> set xs - set ps"
  using assms by (auto simp: owned_def)

lemma task_close_run:
  assumes own: "owns s t k args envp" and sep: "separate s"
  shows "task_close t s = Some (Ret BZ_OK, release_all (task_blocks k args envp) s)"
proof -
  let ?all = "task_blocks k args envp"
  have k: "deref (w_tasks s) t = Some k" and args: "vector_at s (tk_args k) args"
    and envp: "if tk_envp k = NULL then envp = [] else vector_at s (tk_envp k) envp"
    and dist: "distinct (t # ?all)" and wi: "\<And>p. p \<in> set (t # ?all) \<Longrightarrow> within s p p"
    using own unfolding owns_def by blast+
  have t: "t \<noteq> NULL" using k by (auto dest: deref_not_NULL)
  have live: "p \<in> set ?all \<Longrightarrow> p \<in> live s" for p using wi within_live by auto
  have task: "deref (w_tasks (release_all ps s)) t = Some k" if "set ps \<subseteq> set ?all" for ps
  proof -
    have "t \<notin> set ps" using that dist by auto
    with release_all_keeps(5) [OF sep wi [of t]] k t show ?thesis by (simp add: deref_def)
  qed
  have get: "bindr (get_task f t) g (release_all ps s) = g (f k) (release_all ps s)" if "set ps \<subseteq> set ?all" for f g and ps
    using get_ok(1) [OF task [OF that]] .
  have strings: "free_strings q 0 (release_all ps s) = Some (Ret (), release_all (ps @ qs) s)"
    if v: "vector_at s q qs" and q: "distinct (ps @ qs @ [q])" "set (ps @ qs @ [q]) \<subseteq> set ?all" for q qs ps
  proof -
    obtain rest where r: "deref (w_ptrs s) q = Some (map Some qs @ Some NULL # rest)" "NULL \<notin> set qs"
      using v by (auto simp: vector_at_def)
    have w: "within (release_all ps s) q q" "w_ptrs (release_all ps s) q = w_ptrs s q"
      using release_all_keeps(2,4) [OF sep wi [of q]] q by auto
    from r(1) deref_same [of "w_ptrs (release_all ps s)" q "w_ptrs s"] w(2) have "deref (w_ptrs (release_all ps s)) q = Some (map Some qs @ Some NULL # rest)" by simp
    from free_strings_run [OF this, of 0 qs rest] show ?thesis
      using w(1) sep r(2) q live by auto
  qed
  have opt: "bindr (bindr (get_task f t) free) g (release_all ps s) = g () (release_all (ps @ owned (f k)) s)"
    if "set ps \<subseteq> set ?all" "f k = NULL \<or> f k \<in> set ?all - set ps" for f ps and g :: "unit \<Rightarrow> int prog"
  proof -
    have "free (f k) (release_all ps s) = Some (Ret (), release_all (owned (f k)) (release_all ps s))"
      by (rule free_opt) (use that(2) live in auto)
    then show ?thesis by (simp add: bindr_assoc get [OF that(1)] bindr_Ret)
  qed
  define p1 p2 p3 p4 p5 p6 where p: "p1 = args" "p2 = p1 @ [tk_args k]" "p3 = p2 @ envp" "p4 = p3 @ owned (tk_envp k)"
    "p5 = p4 @ owned (tk_name k)" "p6 = p5 @ owned (tk_dir k)"
  have all: "?all = p6 @ owned (tk_log_path k)" by (simp add: task_blocks_def p)
  have sub: "set p1 \<subseteq> set ?all" "set p2 \<subseteq> set ?all" "set p3 \<subseteq> set ?all" "set p4 \<subseteq> set ?all" "set p5 \<subseteq> set ?all"
    "set p6 \<subseteq> set ?all" by (auto simp: task_blocks_def p)
  have ta: "tk_args k \<noteq> NULL" using args by (auto simp: vector_at_def dest: deref_not_NULL)
  then have p2: "p2 = p1 @ owned (tk_args k)" by (simp add: p owned_def)
  have d: "distinct ?all" using dist by simp
  have mem: "tk_args k = NULL \<or> tk_args k \<in> set ?all - set p1"
    "tk_envp k = NULL \<or> tk_envp k \<in> set ?all - set p3" "tk_name k = NULL \<or> tk_name k \<in> set ?all - set p4"
    "tk_dir k = NULL \<or> tk_dir k \<in> set ?all - set p5" "tk_log_path k = NULL \<or> tk_log_path k \<in> set ?all - set p6"
    by (rule next_block [OF d], simp add: task_blocks_def p owned_def ta)+
  have u1: "distinct ([] @ args @ [tk_args k]) \<and> set ([] @ args @ [tk_args k]) \<subseteq> set ?all"
    by (rule prefix_ok [OF d]) (simp add: task_blocks_def)
  have s1: "free_strings (tk_args k) 0 s = Some (Ret (), release_all p1 s)"
    using strings [OF args, of "[]"] u1 by (simp add: p)
  have s3: "whenr (tk_envp k \<noteq> NULL) (free_strings (tk_envp k) 0) (release_all p2 s) = Some (Ret (), release_all p3 s)"
  proof (cases "tk_envp k = NULL")
    case True
    then show ?thesis using envp by (simp add: p run_simps)
  next
    case False
    have "distinct (p2 @ envp @ [tk_envp k]) \<and> set (p2 @ envp @ [tk_envp k]) \<subseteq> set ?all"
      by (rule prefix_ok [OF d]) (use False in \<open>simp add: task_blocks_def p owned_def\<close>)
    moreover have "vector_at s (tk_envp k) envp" using envp False by simp
    ultimately show ?thesis using strings [of "tk_envp k" envp p2] False p(3) by simp
  qed
  have o1: "bindr (bindr (get_task tk_args t) free) g (release_all p1 s) = g () (release_all p2 s)" for g :: "unit \<Rightarrow> int prog"
    unfolding p2 by (rule opt [OF sub(1)]) (use mem in blast)
  have o3: "bindr (bindr (get_task tk_envp t) free) g (release_all p3 s) = g () (release_all p4 s)" for g :: "unit \<Rightarrow> int prog"
    unfolding p(4) by (rule opt [OF sub(3)]) (use mem in blast)
  have o4: "bindr (bindr (get_task tk_name t) free) g (release_all p4 s) = g () (release_all p5 s)" for g :: "unit \<Rightarrow> int prog"
    unfolding p(5) by (rule opt [OF sub(4)]) (use mem in blast)
  have o5: "bindr (bindr (get_task tk_dir t) free) g (release_all p5 s) = g () (release_all p6 s)" for g :: "unit \<Rightarrow> int prog"
    unfolding p(6) by (rule opt [OF sub(5)]) (use mem in blast)
  have o6: "bindr (bindr (get_task tk_log_path t) free) g (release_all p6 s) = g () (release_all ?all s)" for g :: "unit \<Rightarrow> int prog"
    unfolding all by (rule opt [OF sub(6)]) (use mem in blast)
  have b1: "bindr (free_strings (tk_args k) 0) g s = g () (release_all p1 s)" for g :: "unit \<Rightarrow> int prog"
    by (rule bindr_Ret) (rule s1)
  have b3: "bindr (whenr (tk_envp k \<noteq> NULL) (free_strings (tk_envp k) 0)) g (release_all p2 s) = g () (release_all p3 s)"
    for g :: "unit \<Rightarrow> int prog" by (rule bindr_Ret) (rule s3)
  show ?thesis
    unfolding task_close_def get_ok(1) [OF k] b1 o1 get [OF sub(2)] b3 o3 o4 o5 o6
    by (simp add: run_simps)
qed

section \<open>The property of task_close\<close>

text \<open>C21: \<open>task_close\<close> frees each block of a task exactly once: the strings of the two vectors, the vectors, the name,
  the directory and the path of the log (the path of the program is the first string of \<open>args\<close>). Of the
  memory it takes away just these blocks, and it makes no system call.\<close>

theorem task_close_correct:
  assumes "owns s t k args envp" "separate s"
  shows "returns (task_close t) (\<lambda>r s'. r = BZ_OK \<and> w_trace s' = w_trace s \<and>
    w_blocks s' = filter (\<lambda>b. fst b \<notin> set (task_blocks k args envp)) (w_blocks s) \<and>
    (\<forall>b q. within s b q \<and> b \<notin> set (task_blocks k args envp) \<longrightarrow>
       w_bytes s' q = w_bytes s q \<and> w_tasks s' q = w_tasks s q \<and> w_lists s' q = w_lists s q \<and> w_nodes s' q = w_nodes s q)) s"
  unfolding returns_def task_close_run [OF assms]
  by (auto simp: release_all_blocks release_all_keeps [OF assms(2)])

lemma ex_task_owns: "owns ex_task_world 1000 ex_task [1300, 1400] []"
  unfolding owns_def by (simp add: ex_task_objects) (auto simp: vector_at_def task_blocks_def owned_def within_def ex_task_defs deref_def)

lemma ex_task_separate: "separate ex_task_world"
  by (simp add: separate_def ex_task_defs)

theorem task_close_correct_witness:
  "returns (task_close 1000) (\<lambda>r s'. map fst (w_blocks s') = [100, 200, 300, 601, 620, 900, 1000]) ex_task_world"
proof -
  have "map fst (filter (\<lambda>b. fst b \<notin> set (task_blocks ex_task [1300, 1400] [])) (w_blocks ex_task_world)) = [100, 200, 300, 601, 620, 900, 1000]"
    by (simp add: task_blocks_def owned_def ex_task_defs)
  then show ?thesis
    by (intro returns_mono [OF task_close_correct [OF ex_task_owns ex_task_separate]]) auto
qed

end
