(* ===== verification/Rbtree_Alive.thy ===== *)
theory Rbtree_Alive
  imports Rbtree_Index
begin

text \<open>
  No operation of the tree makes a node appear or disappear: each only writes through pointers to nodes
  that are there. So a node taken out of the tree is still a node, and can be inserted again.
  \<open>nodes_in D f m\<close>: when \<open>m\<close> has a result, the heap in it (its part \<open>f\<close>) has exactly the nodes \<open>D\<close>.
\<close>

definition nodes_in :: "addr set \<Rightarrow> ('a \<Rightarrow> rbheap) \<Rightarrow> 'a option \<Rightarrow> bool" where
  "nodes_in D f m \<longleftrightarrow> (\<forall>x. m = Some x \<longrightarrow> dom (f x) = D)"

named_theorems nodes_intros \<open>the nodes of a heap through each statement\<close>

lemma nodes_in_statements [nodes_intros]:
  "dom (f x) = D \<Longrightarrow> nodes_in D f (Some x)"
  "(b \<Longrightarrow> nodes_in D f m1) \<Longrightarrow> (\<not> b \<Longrightarrow> nodes_in D f m2) \<Longrightarrow> nodes_in D f (if b then m1 else m2)"
  by (auto simp: nodes_in_def)

text \<open>A read keeps the heap; a write is followed by the statements on the heap it returns.\<close>

lemma nodes_in_bind: "(\<And>y. m = Some y \<Longrightarrow> nodes_in D f (g y)) \<Longrightarrow> nodes_in D f (Option.bind m g)"
  by (cases m) (simp_all add: nodes_in_def)

lemma nodes_in_read [nodes_intros]:
  "(\<And>x. nodes_in D f (g x)) \<Longrightarrow> nodes_in D f (Option.bind (m :: addr option) g)"
  "(\<And>x. nodes_in D f (k x)) \<Longrightarrow> nodes_in D f (Option.bind (n :: bool option) k)"
  "(\<And>a d. nodes_in D f (l (a, d))) \<Longrightarrow> nodes_in D f (Option.bind (q :: (addr \<times> side) option) l)"
  "(\<And>a b. nodes_in D f (l' (a, b))) \<Longrightarrow> nodes_in D f (Option.bind (q' :: (addr \<times> addr) option) l')"
  by (rule nodes_in_bind; auto)+

lemma nodes_in_write [nodes_intros]:
  "nodes_in D id m \<Longrightarrow> (\<And>h. dom h = D \<Longrightarrow> nodes_in D f (g h)) \<Longrightarrow> nodes_in D f (Option.bind m g)"
  "nodes_in D fst n \<Longrightarrow> (\<And>h (r :: addr). dom h = D \<Longrightarrow> nodes_in D f (k (h, r))) \<Longrightarrow> nodes_in D f (Option.bind n k)"
  "nodes_in D (\<lambda>x. fst (snd x)) q \<Longrightarrow> (\<And>(t :: addr) h (r :: addr). dom h = D \<Longrightarrow> nodes_in D f (l (t, h, r))) \<Longrightarrow>
    nodes_in D f (Option.bind q l)"
proof -
  show "nodes_in D id m \<Longrightarrow> (\<And>h. dom h = D \<Longrightarrow> nodes_in D f (g h)) \<Longrightarrow> nodes_in D f (Option.bind m g)"
    by (rule nodes_in_bind) (simp add: nodes_in_def [of D id])
  show "nodes_in D f (Option.bind n k)" if n: "nodes_in D fst n" "\<And>h r. dom h = D \<Longrightarrow> nodes_in D f (k (h, r))"
  proof (rule nodes_in_bind)
    fix y
    assume "n = Some y"
    with n show "nodes_in D f (k y)" by (cases y) (simp add: nodes_in_def [of D fst])
  qed
  show "nodes_in D f (Option.bind q l)"
    if q: "nodes_in D (\<lambda>x. fst (snd x)) q" "\<And>t h r. dom h = D \<Longrightarrow> nodes_in D f (l (t, h, r))"
  proof (rule nodes_in_bind)
    fix y
    assume "q = Some y"
    with q show "nodes_in D f (l y)" by (cases y) (simp add: nodes_in_def [of D "\<lambda>x. fst (snd x)"])
  qed
qed

lemma nodes_in_macros [nodes_intros]:
  "dom h = D \<Longrightarrow> nodes_in D id (poke h p u)" "dom h = D \<Longrightarrow> nodes_in D id (rbtree_red h p)"
  "dom h = D \<Longrightarrow> nodes_in D id (rbtree_black h p)" "dom h = D \<Longrightarrow> nodes_in D id (rbtree_copy_color h p q)"
  "dom h = D \<Longrightarrow> nodes_in D id (rbtree_node_init h p)"
  by (auto simp: nodes_in_def rbtree_red_def rbtree_black_def rbtree_copy_color_def rbtree_node_init_def poke_def deref_def
      bind_eq_Some_conv split: option.splits if_splits)

lemma nodes_in_rotate [nodes_intros]:
  "dom h = D \<Longrightarrow> nodes_in D fst (rbtree_left_rotate sentinel p h root)"
  "dom h = D \<Longrightarrow> nodes_in D fst (rbtree_right_rotate sentinel p h root)"
  unfolding rbtree_left_rotate_def rbtree_right_rotate_def
  by (intro nodes_intros | simp only: prod.case fst_conv snd_conv id_apply)+

lemma nodes_in_delete_step [nodes_intros]:
  "dom h = D \<Longrightarrow> nodes_in D (\<lambda>x. fst (snd x)) (rbtree_delete_step sentinel temp h root)"
  unfolding rbtree_delete_step_def
  by (intro nodes_intros | simp only: prod.case fst_conv snd_conv id_apply)+

lemma nodes_in_delete_fixup [nodes_intros]:
  assumes "dom h = D"
  shows "nodes_in D (\<lambda>x. fst (snd x)) (rbtree_delete_fixup sentinel temp h root)"
  unfolding nodes_in_def
proof (intro allI impI)
  fix r
  assume "rbtree_delete_fixup sentinel temp h root = Some r"
  then show "dom (fst (snd r)) = D" using assms
  proof (induction rule: rbtree_delete_fixup.raw_induct [rotated, consumes 1, case_names step])
    case (step fixup sentinel temp h root r)
    have f: "nodes_in D (\<lambda>x. fst (snd x)) (fixup s t h' rt)" if "dom h' = D" for s t h' rt
      using step.IH that by (auto simp: nodes_in_def)
    have "nodes_in D (\<lambda>x. fst (snd x)) (if temp = root then Some (temp, h, root)
      else do {
        black \<leftarrow> rbtree_is_black h temp;
        if black then do {
          (temp, h, root) \<leftarrow> rbtree_delete_step sentinel temp h root;
          fixup sentinel temp h root
        } else Some (temp, h, root)
      })"
      using step.prems(1) by (intro nodes_intros f | simp only: prod.case fst_conv snd_conv)+
    with step.hyps show ?case by (simp add: nodes_in_def)
  qed
qed

lemma nodes_in_delete_replace [nodes_intros]:
  "dom h = D \<Longrightarrow> nodes_in D fst (rbtree_delete_replace sentinel node subst temp h root)"
  unfolding rbtree_delete_replace_def
  by (intro nodes_intros | simp only: prod.case fst_conv snd_conv id_apply)+

lemma nodes_in_delete: "dom h = D \<Longrightarrow> nodes_in D fst (rbtree_delete h tree n)"
  unfolding rbtree_delete_def Let_def
  by (intro nodes_intros | simp only: prod.case fst_conv snd_conv id_apply)+

lemma nodes_in_insert_step [nodes_intros]:
  "dom h = D \<Longrightarrow> nodes_in D (\<lambda>x. fst (snd x)) (rbtree_insert_step sentinel node h root)"
  unfolding rbtree_insert_step_def
  by (intro nodes_intros | simp only: prod.case fst_conv snd_conv id_apply)+

lemma nodes_in_insert_fixup [nodes_intros]:
  assumes "dom h = D"
  shows "nodes_in D fst (rbtree_insert_fixup sentinel node h root)"
  unfolding nodes_in_def
proof (intro allI impI)
  fix r
  assume "rbtree_insert_fixup sentinel node h root = Some r"
  then show "dom (fst r) = D" using assms
  proof (induction rule: rbtree_insert_fixup.raw_induct [rotated, consumes 1, case_names step])
    case (step fixup sentinel node h root r)
    have f: "nodes_in D fst (fixup s t h' rt)" if "dom h' = D" for s t h' rt
      using step.IH that by (auto simp: nodes_in_def)
    have "nodes_in D fst (if node = root then Some (h, root)
      else do {
        p \<leftarrow> peek rb_parent h node;
        red \<leftarrow> rbtree_is_red h p;
        if red then do {
          (node, h, root) \<leftarrow> rbtree_insert_step sentinel node h root;
          fixup sentinel node h root
        } else Some (h, root)
      })"
      using step.prems(1) by (intro nodes_intros f | simp only: prod.case fst_conv snd_conv)+
    with step.hyps show ?case by (simp add: nodes_in_def)
  qed
qed

lemma nodes_in_insert: "dom h = D \<Longrightarrow> nodes_in D fst (rbtree_insert h tree n)"
  unfolding rbtree_insert_def Let_def
  by (intro nodes_intros | simp only: prod.case fst_conv snd_conv id_apply)+

text \<open>The nodes after an operation are the nodes before it.\<close>

lemma rbtree_ops_nodes:
  "rbtree_delete h tree n = Some (h', tree') \<Longrightarrow> dom h' = dom h"
  "rbtree_insert h tree n = Some (h', tree') \<Longrightarrow> dom h' = dom h"
  using nodes_in_delete [of h "dom h" tree n] nodes_in_insert [of h "dom h" tree n] by (simp_all add: nodes_in_def)

lemma same_dom_deref: "dom h' = dom h \<Longrightarrow> deref h' a = None \<longleftrightarrow> deref h a = None"
  by (metis deref_def domIff)

end
