(* ===== verification/Context.thy ===== *)
theory Context
  imports Task_Close Rbtree_Alive
begin

text \<open>
  \<open>src/context.h\<close> and \<open>src/context.c\<close> without its beginning and end (\<open>context_init\<close> and \<open>context_close\<close> are in
  \<open>Context_Life\<close>): the list of tasks of the configuration, the tree of running tasks by pid, and the loop that
  waits for signals, reaps the processes that ended and starts their tasks again.

  A function pointer is called through the parameter \<open>call\<close>. The two endless loops are partial functions;
  one pass of each is a definition of its own. \<open>&ctx->tasks_rbtree\<close> is the field \<open>cx_tree\<close>, and
  \<open>&ctx->sentinel\<close> is a node of the heap of nodes.
\<close>

section \<open>Access\<close>

definition set_ctx :: "addr \<Rightarrow> (ctx \<Rightarrow> ctx) \<Rightarrow> unit prog" where
  "set_ctx c u = modifysome (\<lambda>s. do { cs \<leftarrow> poke (w_ctxs s) c u; Some (s\<lparr>w_ctxs := cs\<rparr>) })"

text \<open>A call of \<open>rbtree_insert\<close> or \<open>rbtree_delete\<close> on \<open>&ctx->tasks_rbtree\<close>.\<close>

definition on_tree :: "(rbheap \<Rightarrow> rbtree \<Rightarrow> (rbheap \<times> rbtree) option) \<Rightarrow> addr \<Rightarrow> unit prog" where
  "on_tree f c = modifysome (\<lambda>s. do {
     tree \<leftarrow> peek cx_tree (w_ctxs s) c;
     (ns, tree) \<leftarrow> f (w_nodes s) tree;
     cs \<leftarrow> poke (w_ctxs s) c (\<lambda>x. x\<lparr>cx_tree := tree\<rparr>);
     Some (s\<lparr>w_nodes := ns, w_ctxs := cs\<rparr>) })"

section \<open>Creation\<close>

text \<open>A new block becomes a \<open>context_t\<close>: the context and its embedded sentinel, with indeterminate contents.\<close>

definition new_ctx :: "os \<Rightarrow> addr \<Rightarrow> world \<Rightarrow> world" where
  "new_ctx os c s = s\<lparr>w_ctxs := (w_ctxs s)(c \<mapsto> os_junk_ctx os (w_trace s)),
     w_nodes := (w_nodes s)(ctx_sentinel c \<mapsto> os_junk_node os (w_trace s))\<rparr>"

definition context_create :: "os \<Rightarrow> addr \<Rightarrow> addr prog" where
  "context_create os bz =
     bindr (get_inst bi_log bz) (\<lambda>log.
     bindr (bz_alloc os sizeof_ctx log) (\<lambda>ctx.
     if ctx = NULL then
       bindr (get_inst bi_log bz) (\<lambda>log.
       bindr (bz_log_error os log ''context.c'' 44 [Lit ''create context failed'']) (\<lambda>_.
       ret NULL))
     else
       bindr (modify (new_ctx os ctx)) (\<lambda>_.
       bindr (set_ctx ctx (\<lambda>x. x\<lparr>cx_instance := bz\<rparr>)) (\<lambda>_.
       bindr (get_inst bi_log bz) (\<lambda>log.
       bindr (set_ctx ctx (\<lambda>x. x\<lparr>cx_log := log\<rparr>)) (\<lambda>_.
       bindr (set_ctx ctx (\<lambda>x. x\<lparr>cx_callback := CB_NULL, cx_arg := NULL\<rparr>)) (\<lambda>_.
       bindr (set_ctx ctx (\<lambda>x. x\<lparr>cx_conf := NULL\<rparr>)) (\<lambda>_.
       bindr (on_tree (\<lambda>h tree. rbtree_init h (ctx_sentinel ctx)) ctx) (\<lambda>_.
       ret ctx)))))))))"

definition context_set_signal_callback :: "addr \<Rightarrow> callback \<Rightarrow> addr \<Rightarrow> unit prog" where
  "context_set_signal_callback ctx cb arg = set_ctx ctx (\<lambda>x. x\<lparr>cx_callback := cb, cx_arg := arg\<rparr>)"

section \<open>Signals\<close>

text \<open>The signals that are blocked but for the time of the wait, so that their handler runs there only. \<open>SIGTTIN\<close> and
  \<open>SIGTTOU\<close>, whose handler only logs, are not among them.\<close>

definition handled_signals :: "int list" where
  "handled_signals = [SIGCHLD, SIGINT, SIGNAL_SHUTDOWN, SIGNAL_TERMINATE, SIGNAL_RECONFIGURE, SIGNAL_REOPEN]"

definition context_sigmask :: "os \<Rightarrow> addr \<Rightarrow> int prog" where
  "context_sigmask os ctx =
     bindr (gets (\<lambda>s. os_oldmask os (w_trace s))) (\<lambda>old.
     bindr (syscall os (Sigprocmask SIG_BLOCK handled_signals)) (\<lambda>r.
     bindr (whenr (0 \<le> r) (set_ctx ctx (\<lambda>x. x\<lparr>cx_origmask := old\<rparr>))) (\<lambda>_.
     ret r)))"

definition EINTR :: int where "EINTR = 4"

text \<open>\<open>pselect\<close> runs the handlers of the signals that arrive while it waits, and then returns.\<close>

fun deliver :: "os \<Rightarrow> int list \<Rightarrow> unit prog" where
  "deliver os [] = ret ()"
| "deliver os (sig # sigs) = bindr (signal_handler os sig) (\<lambda>_. deliver os sigs)"

definition pselect :: "os \<Rightarrow> int list \<Rightarrow> int prog" where
  "pselect os blocked =
     bindr (gets (\<lambda>s. os_signals os (w_trace s))) (\<lambda>sigs.
     bindr (deliver os sigs) (\<lambda>_.
     syscall os (Pselect blocked)))"

section \<open>Tasks\<close>

definition context_find_task :: "addr \<Rightarrow> int \<Rightarrow> addr prog" where
  "context_find_task ctx pid =
     bindr (getsome (\<lambda>s. peek cx_tree (w_ctxs s) ctx)) (\<lambda>tree.
     bindr (getsome (\<lambda>s. context_find_loop (w_nodes s) (rbt_sentinel tree) (word_of_int pid) (rbt_root tree))) (\<lambda>node.
     ret (if node = NULL then NULL else task_of_node node)))"

text \<open>The body of the loop of \<open>context_start_tasks\<close>.\<close>

definition context_start_task :: "os \<Rightarrow> addr \<Rightarrow> addr \<Rightarrow> unit prog" where
  "context_start_task os ctx task =
     bindr (task_run os task) (\<lambda>r.
     if r = BZ_OK then
       bindr (on_tree (\<lambda>h tree. rbtree_insert h tree (task_node task)) ctx) (\<lambda>_.
       bindr (get_ctx cx_log ctx) (\<lambda>log.
       bindr (get_task tk_name task) (\<lambda>name.
       bindr (get_task tk_pid task) (\<lambda>pid.
       bz_log os log BZ_LOG_INFO ''context.c'' 205 [Lit ''starting task succeed, name: '', Str name, Lit '', pid: '', Dec pid]))))
     else
       bindr (get_ctx cx_log ctx) (\<lambda>log.
       bindr (get_task tk_name task) (\<lambda>name.
       bz_log_error os log ''context.c'' 207 [Lit ''starting task failed, name: '', Str name])))"

definition context_start_tasks :: "os \<Rightarrow> addr \<Rightarrow> int prog" where
  "context_start_tasks os ctx =
     bindr (get_ctx cx_conf ctx) (\<lambda>conf.
     bindr (getsome (\<lambda>s. list_empty (w_lists s) (conf_tasks_list conf))) (\<lambda>empty.
     if empty then ret BZ_OK else
     bindr (list_for_each w_lists (conf_tasks_list conf) (\<lambda>pos. context_start_task os ctx (task_of_list pos))) (\<lambda>_.
     ret BZ_OK)))"

definition context_restart_task :: "os \<Rightarrow> addr \<Rightarrow> addr \<Rightarrow> int prog" where
  "context_restart_task os ctx task =
     bindr (on_tree (\<lambda>h tree. rbtree_delete h tree (task_node task)) ctx) (\<lambda>_.
     bindr (task_run os task) (\<lambda>r.
     if r = BZ_OK then
       bindr (on_tree (\<lambda>h tree. rbtree_insert h tree (task_node task)) ctx) (\<lambda>_.
       bindr (get_ctx cx_log ctx) (\<lambda>log.
       bindr (get_task tk_name task) (\<lambda>name.
       bindr (get_task tk_pid task) (\<lambda>pid.
       bindr (bz_log os log BZ_LOG_INFO ''context.c'' 221 [Lit ''restarting task succeed, name: '', Str name, Lit '', pid: '', Dec pid]) (\<lambda>_.
       ret BZ_OK)))))
     else
       bindr (get_ctx cx_log ctx) (\<lambda>log.
       bindr (get_task tk_name task) (\<lambda>name.
       bindr (bz_log_error os log ''context.c'' 225 [Lit ''restarting task failed, name: '', Str name]) (\<lambda>_.
       ret BZ_ERROR)))))"

section \<open>The loops\<close>

text \<open>Lines 142 to 157: one pass of the loop that reaps; the result says whether it goes on.\<close>

definition context_reap :: "os \<Rightarrow> addr \<Rightarrow> bool prog" where
  "context_reap os ctx =
     bindr (gets (\<lambda>s. os_status os (w_trace s))) (\<lambda>status.
     bindr (syscall os Waitpid) (\<lambda>pid.
     if pid = 0 then ret False
     else if pid < 0 then
       bindr (get_ctx cx_log ctx) (\<lambda>log.
       bindr (strerror os) (\<lambda>e.
       bindr (bz_log_error os log ''context.c'' 146 [Lit ''error at waitpid: '', Txt e]) (\<lambda>_.
       ret False)))
     else
     bindr (context_find_task ctx pid) (\<lambda>task.
     if task = NULL then
       bindr (get_ctx cx_log ctx) (\<lambda>log.
       bindr (bz_log_error os log ''context.c'' 151 [Lit ''process finished but no related task found, pid: '', Dec pid]) (\<lambda>_.
       ret True))
     else
     bindr (task_exit_handler os task (word_of_int status)) (\<lambda>_.
     bindr (context_restart_task os ctx task) (\<lambda>_.
     ret True)))))"

partial_function (option) context_reap_all :: "os \<Rightarrow> addr \<Rightarrow> unit prog" where
  "context_reap_all os ctx s =
     bindr (context_reap os ctx) (\<lambda>more s. if more then context_reap_all os ctx s else ret () s) s"

definition context_event_handler :: "os \<Rightarrow> addr \<Rightarrow> int prog" where
  "context_event_handler os ctx =
     bindr (gets bz_child) (\<lambda>child.
     if \<not> child then ret BZ_OK else
     bindr (context_reap_all os ctx) (\<lambda>_. ret BZ_OK))"

text \<open>Lines 91 to 99: one pass of the loop of \<open>context_run\<close>.\<close>

definition context_wait :: "os \<Rightarrow> (callback \<Rightarrow> addr \<Rightarrow> unit prog) \<Rightarrow> addr \<Rightarrow> unit prog" where
  "context_wait os call ctx =
     bindr (get_ctx cx_origmask ctx) (\<lambda>mask.
     bindr (pselect os mask) (\<lambda>r.
     bindr (gets w_errno) (\<lambda>errno.
     if r < 0 \<and> errno = EINTR then
       bindr (context_event_handler os ctx) (\<lambda>_.
       bindr (get_ctx cx_callback ctx) (\<lambda>cb.
       whenr (cb \<noteq> CB_NULL) (bindr (get_ctx cx_arg ctx) (call cb))))
     else
       bindr (get_ctx cx_log ctx) (\<lambda>log.
       bz_log_error os log ''context.c'' 98 [Lit ''unexpected return value from pselect: '', Dec r]))))"

partial_function (option) context_loop :: "os \<Rightarrow> (callback \<Rightarrow> addr \<Rightarrow> unit prog) \<Rightarrow> addr \<Rightarrow> unit prog" where
  "context_loop os call ctx s = bindr (context_wait os call ctx) (\<lambda>_ s. context_loop os call ctx s) s"

definition context_run :: "os \<Rightarrow> (callback \<Rightarrow> addr \<Rightarrow> unit prog) \<Rightarrow> addr \<Rightarrow> unit prog" where
  "context_run os call ctx =
     bindr (context_sigmask os ctx) (\<lambda>r.
     if r < 0 then
       bindr (get_ctx cx_log ctx) (\<lambda>log.
       bindr (strerror os) (\<lambda>e.
       bz_log_error os log ''context.c'' 84 [Lit ''set signal mask failed: '', Txt e]))
     else
     bindr (context_start_tasks os ctx) (\<lambda>_.
     context_loop os call ctx))"

end
