(* ===== verification/Supervisor.thy ===== *)
theory Supervisor
  imports Context
begin

text \<open>
  The invariant of the supervisor. \<open>P\<close> maps each running task to the pid of its process. \<open>supervised\<close> says
  what the memory holds: the list has the tasks \<open>ts\<close>, the tree the running ones, by pid. \<open>tracked\<close> ties
  it to the world outside: the pids of \<open>P\<close> are the children that the trace of system calls leaves the
  process with, each task knows its state, and no two tasks share a process.
\<close>

section \<open>Children\<close>

text \<open>The children of the process that are not reaped yet, newest call first. A child of \<open>fork\<close> has none.\<close>

fun children :: "trace \<Rightarrow> int set" where
  "children [] = {}"
| "children ((c, r) # tr) =
     (case c of
        Fork \<Rightarrow> if 0 < r then insert r (children tr) else if r = 0 then {} else children tr
      | Waitpid \<Rightarrow> if 0 < r then children tr - {r} else children tr
      | _ \<Rightarrow> children tr)"

lemma children_writes: "list_all (\<lambda>e. is_write (fst e)) tr \<Longrightarrow> children (tr @ tr') = children tr'"
proof (induction tr)
  case (Cons e tr)
  then obtain fd t r where "e = (Write fd t, r)" by (cases e) (auto simp: is_write_def split: call.splits)
  with Cons show ?case by simp
qed simp

text \<open>The number of processes reaped so far.\<close>

fun reaped :: "trace \<Rightarrow> nat" where
  "reaped [] = 0"
| "reaped ((c, r) # tr) = (if c = Waitpid \<and> 0 < r then reaped tr + 1 else reaped tr)"

lemma reaped_writes: "list_all (\<lambda>e. is_write (fst e)) tr \<Longrightarrow> reaped (tr @ tr') = reaped tr'"
  by (induction tr) (auto simp: is_write_def)

lemma quiet_reaped: "quiet os s s' \<Longrightarrow> reaped (w_trace s') = reaped (w_trace s)"
  by (auto simp: quiet_def reaped_writes)

lemma quiet_children: "quiet os s s' \<Longrightarrow> children (w_trace s') = children (w_trace s)"
  by (auto simp: quiet_def children_writes)

text \<open>The kernel, as seen by the parent of every fork: a new process has a pid that no child has, and
  \<open>waitpid(-1)\<close> reaps a child.\<close>

definition is_pid :: "int \<Rightarrow> bool" where
  "is_pid p \<longleftrightarrow> 0 < p \<and> p < 2 ^ 31"

definition kernel_ok :: "os \<Rightarrow> bool" where
  "kernel_ok os \<longleftrightarrow>
     (\<forall>tr. let r = fst (os_call os tr Fork) in r = - 1 \<or> is_pid r \<and> r \<notin> children tr) \<and>
     (\<forall>tr. let r = fst (os_call os tr Waitpid) in 0 < r \<longrightarrow> r \<in> children tr)"

section \<open>Keys\<close>

definition pid_key :: "int \<Rightarrow> 64 word" where
  "pid_key p = word_of_int p"

lemma pid_key_eq: "is_pid p \<Longrightarrow> is_pid q \<Longrightarrow> pid_key p = pid_key q \<longleftrightarrow> p = q"
proof
  have u: "uint (pid_key p) = p" if "is_pid p" for p
    using that by (simp add: pid_key_def uint_word_of_int is_pid_def)
  assume "is_pid p" "is_pid q" "pid_key p = pid_key q"
  then show "p = q" using u by metis
qed simp

definition key_map :: "(addr \<rightharpoonup> int) \<Rightarrow> addr \<rightharpoonup> 64 word" where
  "key_map P n = (if task_node (task_of_node n) = n then map_option pid_key (P (task_of_node n)) else None)"

lemma key_map_node [simp]: "key_map P (task_node t) = map_option pid_key (P t)"
  by (simp add: key_map_def)

lemma key_map_SomeE:
  assumes "key_map P n = Some k"
  obtains t p where "n = task_node t" "P t = Some p" "k = pid_key p"
  using assms by (auto simp: key_map_def split: if_splits) metis

lemma dom_key_map: "dom (key_map P) = task_node ` dom P"
  by (auto simp: dom_def elim!: key_map_SomeE intro: rev_image_eqI)

lemma key_map_upd: "key_map (P(t := x)) = (key_map P)(task_node t := map_option pid_key x)"
proof (rule ext)
  fix n
  show "key_map (P(t := x)) n = ((key_map P)(task_node t := map_option pid_key x)) n"
    by (cases "n = task_node t") (auto simp: key_map_def)
qed

lemma key_map_empty [simp]: "key_map Map.empty = Map.empty"
  by (rule ext) (simp add: key_map_def)

section \<open>What the supervisor never changes\<close>

text \<open>
  While it supervises, the program allocates and frees nothing, and the parts of its objects that it set up
  stay: all of a task but its state, all of the context but the root of its tree, the set of the nodes. The
  three flags that it acts on are raised by signal handlers only.
\<close>

definition plain_task :: "task \<Rightarrow> task" where
  "plain_task k = k\<lparr>tk_pid := 0, tk_start_sec := 0, tk_start_usec := 0, tk_start_count := 0, tk_status := TASK_INIT\<rparr>"

definition plain_ctx :: "ctx \<Rightarrow> ctx" where
  "plain_ctx x = x\<lparr>cx_tree := (cx_tree x)\<lparr>rbt_root := 0\<rparr>\<rparr>"

definition steady :: "world \<Rightarrow> world \<Rightarrow> bool" where
  "steady s s' \<longleftrightarrow> w_blocks s' = w_blocks s \<and> w_bytes s' = w_bytes s \<and> w_ptrs s' = w_ptrs s \<and> w_lists s' = w_lists s \<and>
     w_confs s' = w_confs s \<and> w_insts s' = w_insts s \<and> g_context s' = g_context s \<and> bz_quit s' = bz_quit s \<and>
     bz_terminate s' = bz_terminate s \<and> bz_child s' = bz_child s \<and> same_logs (w_logs s) (w_logs s') \<and>
     map_option plain_task \<circ> w_tasks s' = map_option plain_task \<circ> w_tasks s \<and>
     map_option plain_ctx \<circ> w_ctxs s' = map_option plain_ctx \<circ> w_ctxs s \<and> dom (w_nodes s') = dom (w_nodes s)"

lemma steady_refl [simp]: "steady s s"
  by (simp add: steady_def)

lemma steady_trans [trans]: "steady s s' \<Longrightarrow> steady s' s'' \<Longrightarrow> steady s s''"
  by (simp add: steady_def) (metis same_logs_trans)

lemma quiet_steady: "quiet os s s' \<Longrightarrow> steady s s'"
  by (simp add: steady_def quiet_fields)

lemma steady_task: "w_tasks s t = Some k \<Longrightarrow> plain_task k' = plain_task k \<Longrightarrow> steady s (s\<lparr>w_tasks := (w_tasks s)(t \<mapsto> k')\<rparr>)"
  by (auto simp: steady_def)

lemma steady_ctx: "w_ctxs s c = Some x \<Longrightarrow> plain_ctx x' = plain_ctx x \<Longrightarrow> steady s (s\<lparr>w_ctxs := (w_ctxs s)(c \<mapsto> x')\<rparr>)"
  by (auto simp: steady_def)

lemma steady_free [simp]:
  "steady s (s'\<lparr>w_trace := tr\<rparr>) = steady s s'" "steady s (s'\<lparr>w_errno := e\<rparr>) = steady s s'"
  by (simp_all add: steady_def)

lemma steady_nodes: "dom h = dom (w_nodes s') \<Longrightarrow> steady s (s'\<lparr>w_nodes := h\<rparr>) = steady s s'"
  by (simp add: steady_def)

section \<open>The invariant\<close>

definition task_ok :: "world \<Rightarrow> addr \<Rightarrow> addr \<Rightarrow> bool" where
  "task_ok s c t \<longleftrightarrow> (\<exists>k. deref (w_tasks s) t = Some k \<and> tk_ctx k = c \<and> tk_name k \<noteq> NULL \<and> tk_path k \<noteq> NULL \<and>
     str_at s (tk_name k) \<noteq> None) \<and> deref (w_nodes s) (task_node t) \<noteq> None"

definition supervised :: "world \<Rightarrow> addr \<Rightarrow> addr list \<Rightarrow> (addr \<rightharpoonup> int) \<Rightarrow> world \<Rightarrow> bool" where
  "supervised w0 c ts P s \<longleftrightarrow> steady w0 s \<and> (\<exists>cx. deref (w_ctxs s) c = Some cx \<and> valid_log s (cx_log cx) \<and>
     list_holds (w_lists s) (conf_tasks_list (cx_conf cx)) (map task_list ts) \<and>
     list_all (\<lambda>t. task_node t \<noteq> rbt_sentinel (cx_tree cx)) ts \<and> list_all (task_ok s c) ts \<and>
     dom P \<subseteq> set ts \<and> index_holds (w_nodes s) (cx_tree cx) (key_map P))"

definition task_in_state :: "(addr \<rightharpoonup> int) \<Rightarrow> world \<Rightarrow> addr \<Rightarrow> bool" where
  "task_in_state P s t \<longleftrightarrow> (\<exists>k. deref (w_tasks s) t = Some k \<and>
     (case P t of Some p \<Rightarrow> tk_pid k = p \<and> tk_status k = TASK_RUNNING | None \<Rightarrow> tk_pid k = 0 \<and> tk_status k \<noteq> TASK_RUNNING))"

definition pids_ok :: "(addr \<rightharpoonup> int) \<Rightarrow> bool" where
  "pids_ok P \<longleftrightarrow> inj_on P (dom P) \<and> (\<forall>p \<in> ran P. is_pid p)"

definition tracked :: "nat \<Rightarrow> addr set \<Rightarrow> (addr \<rightharpoonup> int) \<Rightarrow> world \<Rightarrow> bool" where
  "tracked n A P s \<longleftrightarrow> reaped (w_trace s) = n \<and> ran P = children (w_trace s) \<and> pids_ok P \<and> (\<forall>t \<in> A. task_in_state P s t)"

lemma quiet_task_ok: "quiet os s s' \<Longrightarrow> task_ok s' = task_ok s"
  by (intro ext) (simp add: task_ok_def quiet_fields quiet_str_at)

lemma supervised_quiet:
  assumes "quiet os s s'"
  shows "supervised w0 c ts P s \<Longrightarrow> supervised w0 c ts P s'"
  unfolding supervised_def quiet_task_ok [OF assms] quiet_fields(5-8) [OF assms]
  using quiet_valid_log [OF assms] steady_trans [OF _ quiet_steady [OF assms]] by blast

lemma tracked_quiet:
  assumes "quiet os s s'"
  shows "tracked n A P s \<Longrightarrow> tracked n A P s'"
  using quiet_fields(4) [OF assms] quiet_children [OF assms] quiet_reaped [OF assms] by (auto simp: tracked_def task_in_state_def)

lemma supervised_task:
  assumes "supervised w0 c ts P s" "t \<in> set ts"
  obtains k cx nn where "deref (w_tasks s) t = Some k" "tk_ctx k = c" "tk_name k \<noteq> NULL" "tk_path k \<noteq> NULL"
    "str_at s (tk_name k) \<noteq> None" "deref (w_ctxs s) c = Some cx" "valid_log s (cx_log cx)"
    "deref (w_nodes s) (task_node t) = Some nn" "task_node t \<noteq> rbt_sentinel (cx_tree cx)"
proof -
  obtain cx where cx: "deref (w_ctxs s) c = Some cx" "valid_log s (cx_log cx)"
    "list_all (\<lambda>t. task_node t \<noteq> rbt_sentinel (cx_tree cx)) ts" "list_all (task_ok s c) ts"
    using assms(1) by (auto simp: supervised_def)
  have "task_ok s c t" "task_node t \<noteq> rbt_sentinel (cx_tree cx)" using cx(3,4) assms(2) by (auto simp: list_all_iff)
  then show thesis using cx(1,2) that by (auto simp: task_ok_def)
qed

lemma supervised_loggable: "supervised w0 c ts P s \<Longrightarrow> t \<in> set ts \<Longrightarrow> loggable s t"
  by (rule supervised_task, assumption+) (auto simp: loggable_def)

section \<open>Steps\<close>

text \<open>Changing the entry of a task in the heap of tasks.\<close>

lemma task_ok_upd:
  assumes "deref (w_tasks s) t = Some k" "tk_ctx k' = tk_ctx k" "tk_name k' = tk_name k" "tk_path k' = tk_path k"
  shows "task_ok (s\<lparr>w_tasks := (w_tasks s)(t \<mapsto> k')\<rparr>) c u = task_ok s c u"
  using assms by (cases "u = t") (auto simp: task_ok_def str_at_def deref_upd dest: deref_not_NULL)

lemma supervised_fields:
  assumes "supervised w0 c ts P s" and "steady s s'" and "w_ctxs s' = w_ctxs s" "w_lists s' = w_lists s" "w_nodes s' = w_nodes s" "w_logs s' = w_logs s"
    and "\<And>u. u \<in> set ts \<Longrightarrow> task_ok s c u \<Longrightarrow> task_ok s' c u"
  shows "supervised w0 c ts P s'"
proof -
  have "list_all (task_ok s' c) ts" if "list_all (task_ok s c) ts"
    using that assms(7) by (auto simp: list_all_iff)
  then show ?thesis using assms(1) steady_trans [OF _ assms(2)] unfolding supervised_def valid_log_def assms(3-6) by blast
qed

lemma task_ok_trace [simp]:
  "task_ok (s\<lparr>w_trace := tr\<rparr>) = task_ok s" "task_ok (s\<lparr>w_errno := e\<rparr>) = task_ok s"
  by (intro ext; simp add: task_ok_def str_at_def)+

text \<open>A node that is not in the tree may change its key.\<close>

lemma supervised_key:
  assumes sup: "supervised w0 c ts P s" and t: "t \<in> set ts" "P t = None" and old: "deref (w_nodes s) (task_node t) = Some old"
  shows "supervised w0 c ts P (s\<lparr>w_nodes := (w_nodes s)(task_node t \<mapsto> nn)\<rparr>)"
proof -
  let ?s = "s\<lparr>w_nodes := (w_nodes s)(task_node t \<mapsto> nn)\<rparr>"
  obtain cx where cx: "deref (w_ctxs s) c = Some cx" "valid_log s (cx_log cx)"
     "list_holds (w_lists s) (conf_tasks_list (cx_conf cx)) (map task_list ts)"
     "list_all (\<lambda>t. task_node t \<noteq> rbt_sentinel (cx_tree cx)) ts" "list_all (task_ok s c) ts"
     "dom P \<subseteq> set ts" "index_holds (w_nodes s) (cx_tree cx) (key_map P)" using sup by (auto simp: supervised_def)
  have n: "task_node t \<noteq> NULL" by (simp add: task_node_def)
  have "index_holds (w_nodes ?s) (cx_tree cx) (key_map P)"
    by (rule index_frame [OF cx(7)]) (use t cx(4) in \<open>auto simp: dom_key_map list_all_iff\<close>)
  moreover have "task_ok ?s c u" if "task_ok s c u" for u using that n by (auto simp: task_ok_def str_at_def deref_upd)
  then have "list_all (task_ok ?s c) ts" using cx(5) by (auto simp: list_all_iff)
  moreover have "dom (w_nodes ?s) = dom (w_nodes s)" using old by (auto simp: deref_def split: if_splits)
  then have "steady w0 ?s" using sup by (simp add: supervised_def steady_nodes del: dom_fun_upd)
  ultimately show ?thesis using cx unfolding supervised_def by (intro conjI exI [of _ cx]) (simp_all add: valid_log_def)
qed

lemma task_in_state_upd:
  assumes "deref (w_tasks s) t = Some k" "u \<noteq> t"
  shows "task_in_state P (s\<lparr>w_tasks := (w_tasks s)(t \<mapsto> k')\<rparr>) u = task_in_state P s u"
  using assms by (simp add: task_in_state_def)

text \<open>What a run of a task in the supervisor leaves: either a new process, or none.\<close>

definition launched :: "nat \<Rightarrow> world \<Rightarrow> addr \<Rightarrow> addr list \<Rightarrow> (addr \<rightharpoonup> int) \<Rightarrow> addr \<Rightarrow> int \<Rightarrow> world \<Rightarrow> bool" where
  "launched n w0 c ts P t p s \<longleftrightarrow> supervised w0 c ts P s \<and> is_pid p \<and> p \<notin> ran P \<and> peek rb_key (w_nodes s) (task_node t) = Some (pid_key p) \<and>
     reaped (w_trace s) = n \<and> insert p (ran P) = children (w_trace s) \<and> pids_ok P \<and> (\<forall>u \<in> set ts. task_in_state (P(t \<mapsto> p)) s u)"

lemma task_run_launches:
  assumes sup: "supervised w0 c ts P s" and tr: "tracked n (set ts - {t}) P s" and t: "t \<in> set ts" "P t = None" and os: "kernel_ok os"
  shows "returns (task_run os t) (\<lambda>r s'. if r = BZ_OK then \<exists>p. launched n w0 c ts P t p s'
    else supervised w0 c ts P s' \<and> tracked n (set ts) P s' \<and> fst (os_call os (w_trace s) Fork) = - 1) s"
proof -
  obtain k cx nn where k: "deref (w_tasks s) t = Some k" "tk_ctx k = c" "tk_name k \<noteq> NULL" "tk_path k \<noteq> NULL"
    "deref (w_nodes s) (task_node t) = Some nn" using supervised_task [OF sup t(1)] .
  note log = supervised_loggable [OF sup t(1)]
  have t0: "t \<noteq> NULL" using k(1) by (auto dest: deref_not_NULL)
  then have kt: "w_tasks s t = Some k" using k(1) by (simp add: deref_def)
  obtain p e where f: "os_call os (w_trace s) Fork = (p, e)" by (cases "os_call os (w_trace s) Fork")
  with os have p: "p = - 1 \<or> is_pid p \<and> p \<notin> children (w_trace s)" by (auto simp: kernel_ok_def dest: spec [of _ "w_trace s"])
  have pid0: "is_pid p \<Longrightarrow> 0 < p" by (simp add: is_pid_def)
  have states: "task_in_state Q s' u" if "u \<in> set ts" "u \<noteq> t" "Q u = P u" "w_tasks s' = (w_tasks s)(t \<mapsto> k')" for Q s' u k'
    using tr that by (auto simp: tracked_def task_in_state_def)
  show ?thesis
  proof (cases "p = - 1")
    case True
    let ?s1 = "s\<lparr>w_tasks := (w_tasks s)(t \<mapsto> reset_task k), w_trace := (Fork, - 1) # w_trace s, w_errno := e\<rparr>"
    have "supervised w0 c ts P ?s1"
      by (rule supervised_fields [OF sup]) (simp_all add: task_ok_upd [OF k(1)] steady_task [OF kt] reset_task_def plain_task_def)
    moreover have "task_in_state P ?s1 u" if "u \<in> set ts" for u
      using states [of u P ?s1 "reset_task k"] that t(2) t0 by (cases "u = t") (auto simp: task_in_state_def reset_task_def deref_upd)
    then have "tracked n (set ts) P ?s1" using tr by (simp add: tracked_def)
    moreover have "fst (os_call os (w_trace s) Fork) = - 1" using f True by simp
    ultimately show ?thesis
      by (intro returns_mono [OF task_run_fork_failed [OF k(1,3,4) log]])
        (use f True in \<open>auto intro: supervised_quiet tracked_quiet\<close>)
  next
    case False
    let ?k = "started_task k p (os_clock os ((Fork, p) # w_trace s))"
    let ?s1 = "s\<lparr>w_tasks := (w_tasks s)(t \<mapsto> ?k), w_trace := (Fork, p) # w_trace s\<rparr>"
    let ?s2 = "?s1\<lparr>w_nodes := (w_nodes s)(task_node t \<mapsto> nn\<lparr>rb_key := word_of_int p\<rparr>)\<rparr>"
    have run: "task_run os t s = Some (Ret BZ_OK, ?s2)"
      using task_run_started [OF k(1,3,4,5) f] False p pid0 by simp
    have "supervised w0 c ts P ?s1"
      by (rule supervised_fields [OF sup]) (simp_all add: task_ok_upd [OF k(1)] steady_task [OF kt] started_task_def plain_task_def)
    from supervised_key [OF this t, of nn] k(5) have "supervised w0 c ts P ?s2" by simp
    moreover have "task_in_state (P(t \<mapsto> p)) ?s2 u" if "u \<in> set ts" for u
      using states [of u "P(t \<mapsto> p)" ?s2 ?k] that t0 by (cases "u = t") (auto simp: task_in_state_def started_task_def deref_upd)
    moreover have "peek rb_key (w_nodes ?s2) (task_node t) = Some (pid_key p)"
      by (simp add: peek_def deref_def task_node_def pid_key_def)
    ultimately have "launched n w0 c ts P t p ?s2"
      using False p tr pid0 by (simp add: launched_def tracked_def)
    with run show ?thesis by (auto simp: returns_def)
  qed
qed

section \<open>The tree of running tasks\<close>

lemma on_tree_run:
  assumes "deref (w_ctxs s) c = Some cx" "f (w_nodes s) (cx_tree cx) = Some (h, tree)"
  shows "on_tree f c s = Some (Ret (), s\<lparr>w_nodes := h, w_ctxs := (w_ctxs s)(c \<mapsto> cx\<lparr>cx_tree := tree\<rparr>)\<rparr>)"
  using assms by (simp add: on_tree_def modifysome_def peek_def poke_def)

lemma supervised_tree:
  assumes sup: "supervised w0 c ts P s" and cx: "deref (w_ctxs s) c = Some cx"
    and h: "index_holds h tree (key_map P')" "rbt_sentinel tree = rbt_sentinel (cx_tree cx)" "dom P' \<subseteq> set ts"
      "dom h = dom (w_nodes s)"
  shows "supervised w0 c ts P' (s\<lparr>w_nodes := h, w_ctxs := (w_ctxs s)(c \<mapsto> cx\<lparr>cx_tree := tree\<rparr>)\<rparr>)"
proof -
  let ?s = "s\<lparr>w_nodes := h, w_ctxs := (w_ctxs s)(c \<mapsto> cx\<lparr>cx_tree := tree\<rparr>)\<rparr>"
  have c: "c \<noteq> NULL" using cx by (auto dest: deref_not_NULL)
  have "w_ctxs s c = Some cx" using cx c by (simp add: deref_def)
  then have "steady s ?s" using h(2,4) by (auto simp: steady_def plain_ctx_def)
  from steady_trans [OF _ this] have st: "steady w0 ?s" using sup by (simp add: supervised_def)
  have "task_ok ?s c = task_ok s c" using same_dom_deref [OF h(4)] by (intro ext) (simp add: task_ok_def str_at_def)
  then show ?thesis
    using sup cx c h(1-3) st unfolding supervised_def by (auto simp: valid_log_def deref_upd)
qed

lemma tree_insert_ok:
  assumes l: "launched n w0 c ts P t p s" and t: "t \<in> set ts" "P t = None"
  shows "returns (on_tree (\<lambda>h tree. rbtree_insert h tree (task_node t)) c)
    (\<lambda>_ s'. supervised w0 c ts (P(t \<mapsto> p)) s' \<and> tracked n (set ts) (P(t \<mapsto> p)) s') s"
proof -
  have sup: "supervised w0 c ts P s" and p: "is_pid p" "p \<notin> ran P" and key: "peek rb_key (w_nodes s) (task_node t) = Some (pid_key p)"
    and ch: "insert p (ran P) = children (w_trace s)" and states: "\<And>u. u \<in> set ts \<Longrightarrow> task_in_state (P(t \<mapsto> p)) s u"
    and ok: "pids_ok P" and n: "reaped (w_trace s) = n"
    using l by (auto simp: launched_def)
  obtain cx where cx: "deref (w_ctxs s) c = Some cx" "index_holds (w_nodes s) (cx_tree cx) (key_map P)"
    "task_node t \<noteq> rbt_sentinel (cx_tree cx)" "dom P \<subseteq> set ts"
    using sup t(1) by (auto simp: supervised_def list_all_iff)
  have "task_node t \<notin> dom (key_map P)" using t(2) by (simp add: domIff)
  from rb.ins_ok [OF cx(2) key this cx(3)] obtain h tree where h: "rbtree_insert (w_nodes s) (cx_tree cx) (task_node t) = Some (h, tree)"
    "index_holds h tree (key_map (P(t \<mapsto> p)))" "rbt_sentinel tree = rbt_sentinel (cx_tree cx)"
    by (auto simp: key_map_upd elim!: ensuresE)
  let ?s = "s\<lparr>w_nodes := h, w_ctxs := (w_ctxs s)(c \<mapsto> cx\<lparr>cx_tree := tree\<rparr>)\<rparr>"
  have "supervised w0 c ts (P(t \<mapsto> p)) ?s"
    by (rule supervised_tree [OF sup cx(1) h(2,3)]) (use cx(4) t(1) rbtree_ops_nodes(2) [OF h(1)] in auto)
  moreover have "ran (P(t \<mapsto> p)) = insert p (ran P)" using t(2) by (rule ran_map_upd)
  moreover have "inj_on (P(t \<mapsto> p)) (insert t (dom P))"
    using ok p(2) t(2) by (auto simp: pids_ok_def inj_on_def ran_def)
  then have "pids_ok (P(t \<mapsto> p))" using ok p calculation(2) by (auto simp: pids_ok_def)
  ultimately have "supervised w0 c ts (P(t \<mapsto> p)) ?s \<and> tracked n (set ts) (P(t \<mapsto> p)) ?s"
    using states ch n by (auto simp: tracked_def task_in_state_def)
  then show ?thesis
    by (simp add: returns_def on_tree_run [where f = "\<lambda>h tree. rbtree_insert h tree (task_node t)", OF cx(1) h(1)])
qed

lemma tree_delete_ok:
  assumes sup: "supervised w0 c ts P s" and t: "P t = Some p"
  shows "returns (on_tree (\<lambda>h tree. rbtree_delete h tree (task_node t)) c)
    (\<lambda>_ s'. supervised w0 c ts (P(t := None)) s' \<and> w_tasks s' = w_tasks s \<and> w_trace s' = w_trace s) s"
proof -
  obtain cx where cx: "deref (w_ctxs s) c = Some cx" "index_holds (w_nodes s) (cx_tree cx) (key_map P)" "dom P \<subseteq> set ts"
    using sup by (auto simp: supervised_def)
  have "task_node t \<in> dom (key_map P)" using t by (simp add: domIff)
  from rb.del_ok [OF cx(2) this] obtain h tree where h: "rbtree_delete (w_nodes s) (cx_tree cx) (task_node t) = Some (h, tree)"
    "index_holds h tree (key_map (P(t := None)))" "rbt_sentinel tree = rbt_sentinel (cx_tree cx)"
    by (auto simp: key_map_upd elim!: ensuresE)
  have "supervised w0 c ts (P(t := None)) (s\<lparr>w_nodes := h, w_ctxs := (w_ctxs s)(c \<mapsto> cx\<lparr>cx_tree := tree\<rparr>)\<rparr>)"
    by (rule supervised_tree [OF sup cx(1) h(2,3)]) (use cx(3) rbtree_ops_nodes(1) [OF h(1)] in auto)
  then show ?thesis
    by (simp add: returns_def on_tree_run [where f = "\<lambda>h tree. rbtree_delete h tree (task_node t)", OF cx(1) h(1)])
qed

lemma find_task_run:
  assumes cx: "deref (w_ctxs s) c = Some cx" and look: "rbtree_find (w_nodes s) (cx_tree cx) (pid_key p) = Some n"
  shows "context_find_task c p s = Some (Ret (if n = NULL then NULL else task_of_node n), s)"
  using assms by (simp add: context_find_task_def run_simps peek_def rbtree_find_def pid_key_def)

lemma find_task_ok:
  assumes sup: "supervised w0 c ts P s" and ok: "pids_ok P" and t: "P t = Some p"
  shows "context_find_task c p s = Some (Ret t, s)"
proof -
  obtain cx where cx: "deref (w_ctxs s) c = Some cx" "index_holds (w_nodes s) (cx_tree cx) (key_map P)"
    using sup by (auto simp: supervised_def)
  have "inj_on (key_map P) (dom (key_map P))"
  proof (rule inj_onI)
    fix a b
    assume "a \<in> dom (key_map P)" "b \<in> dom (key_map P)" and e: "key_map P a = key_map P b"
    then obtain u v q r where u: "a = task_node u" "P u = Some q" "b = task_node v" "P v = Some r"
      by (auto simp: dom_key_map)
    with e ok have "q = r" using pid_key_eq [of q r] by (auto simp: pids_ok_def intro: ranI)
    with u ok have "u = v" by (auto simp: pids_ok_def dest!: inj_onD [of P "dom P" u v])
    with u show "a = b" by simp
  qed
  from rb.look_exact [OF cx(2) this, of "task_node t" "pid_key p"] t
  have "rbtree_find (w_nodes s) (cx_tree cx) (pid_key p) = Some (task_node t)" by simp
  from find_task_run [OF cx(1) this] show ?thesis by (simp add: task_node_def task_of_node_def)
qed

lemma find_task_none:
  assumes sup: "supervised w0 c ts P s" and ok: "pids_ok P" and p: "is_pid p" "p \<notin> ran P"
  shows "context_find_task c p s = Some (Ret NULL, s)"
proof -
  obtain cx where cx: "deref (w_ctxs s) c = Some cx" "index_holds (w_nodes s) (cx_tree cx) (key_map P)"
    using sup by (auto simp: supervised_def)
  have "pid_key p \<notin> ran (key_map P)"
  proof
    assume "pid_key p \<in> ran (key_map P)"
    then obtain n where "key_map P n = Some (pid_key p)" by (auto simp: ran_def)
    then obtain t q where "P t = Some q" "pid_key p = pid_key q" by (rule key_map_SomeE)
    with ok p show False using pid_key_eq [of p q] by (auto simp: pids_ok_def intro: ranI)
  qed
  from rb.look_none [OF cx(2) this] find_task_run [OF cx(1)] show ?thesis by simp
qed

section \<open>Starting and restarting\<close>

text \<open>The kernel grants a process for each task.\<close>

definition always_forks :: "os \<Rightarrow> addr list \<Rightarrow> bool" where
  "always_forks os ts \<longleftrightarrow> (\<forall>tr. card (children tr) < length ts \<longrightarrow> fst (os_call os tr Fork) \<noteq> - 1)"

definition sound :: "nat \<Rightarrow> world \<Rightarrow> addr \<Rightarrow> addr list \<Rightarrow> (addr \<rightharpoonup> int) \<Rightarrow> world \<Rightarrow> bool" where
  "sound n w0 c ts P s \<longleftrightarrow> supervised w0 c ts P s \<and> tracked n (set ts) P s"

lemma sound_quiet: "quiet os s s' \<Longrightarrow> sound n w0 c ts P s \<Longrightarrow> sound n w0 c ts P s'"
  by (simp add: sound_def supervised_quiet tracked_quiet)

text \<open>After a start of \<open>t\<close>, which had no process: it has one, or \<open>fork\<close> failed.\<close>

definition settled :: "os \<Rightarrow> nat \<Rightarrow> world \<Rightarrow> addr \<Rightarrow> addr list \<Rightarrow> (addr \<rightharpoonup> int) \<Rightarrow> addr \<Rightarrow> world \<Rightarrow> bool" where
  "settled os n w0 c ts P t s \<longleftrightarrow> (\<exists>p. sound n w0 c ts (P(t \<mapsto> p)) s) \<or> sound n w0 c ts P s \<and> \<not> always_forks os ts"

lemma settled_quiet: "quiet os s s' \<Longrightarrow> settled os n w0 c ts P t s \<Longrightarrow> settled os n w0 c ts P t s'"
  by (auto simp: settled_def intro: sound_quiet)

text \<open>The log entries of a start; \<open>m\<close> is what comes after them.\<close>

lemma log_outcome:
  assumes sup: "supervised w0 c ts P s" "t \<in> set ts" and m: "\<And>s'. quiet os s s' \<Longrightarrow> returns m Q s'"
  shows "returns (bindr (get_ctx cx_log c) (\<lambda>log. bindr (get_task tk_name t) (\<lambda>name. bindr (get_task tk_pid t) (\<lambda>pid.
      bindr (bz_log os log BZ_LOG_INFO f line [Lit a, Str name, Lit b, Dec pid]) (\<lambda>_. m))))) Q s"
    "returns (bindr (get_ctx cx_log c) (\<lambda>log. bindr (get_task tk_name t) (\<lambda>name.
      bindr (bz_log_error os log f line [Lit a, Str name]) (\<lambda>_. m)))) Q s"
proof -
  obtain k cx where g: "deref (w_ctxs s) c = Some cx" "valid_log s (cx_log cx)" "deref (w_tasks s) t = Some k"
    "str_at s (tk_name k) \<noteq> None" using sup by (rule supervised_task)
  have r: "render s [Lit a, Str (tk_name k), Lit b, Dec (tk_pid k)] \<noteq> None" "render s [Lit a, Str (tk_name k)] \<noteq> None"
    using g(4) by auto
  have "returns (bindr (bz_log os (cx_log cx) BZ_LOG_INFO f line [Lit a, Str (tk_name k), Lit b, Dec (tk_pid k)]) (\<lambda>_. m)) Q s"
    by (rule returns_bindr, rule returns_mono [OF bz_log_quiet(1) [OF g(2) r(1) known_levels(4)]], rule m)
  then show "returns (bindr (get_ctx cx_log c) (\<lambda>log. bindr (get_task tk_name t) (\<lambda>name. bindr (get_task tk_pid t) (\<lambda>pid.
      bindr (bz_log os log BZ_LOG_INFO f line [Lit a, Str name, Lit b, Dec pid]) (\<lambda>_. m))))) Q s"
    by (simp add: returns_def get_ok(1) [OF g(3)] get_ok(2) [OF g(1)])
  have "returns (bindr (bz_log_error os (cx_log cx) f line [Lit a, Str (tk_name k)]) (\<lambda>_. m)) Q s"
    by (rule returns_bindr, rule returns_mono [OF bz_log_quiet(2) [OF g(2) r(2)]], rule m)
  then show "returns (bindr (get_ctx cx_log c) (\<lambda>log. bindr (get_task tk_name t) (\<lambda>name.
      bindr (bz_log_error os log f line [Lit a, Str name]) (\<lambda>_. m)))) Q s"
    by (simp add: returns_def get_ok(1) [OF g(3)] get_ok(2) [OF g(1)])
qed

lemma few_children:
  assumes sup: "supervised w0 c ts P s" and tr: "tracked n A P s" and t: "t \<in> set ts" "P t = None"
  shows "card (children (w_trace s)) < length ts"
proof -
  have d: "dom P \<subset> set ts" using sup t by (auto simp: supervised_def)
  then have fin: "finite (dom P)" using finite_subset by blast
  have "ran P = (\<lambda>t. the (P t)) ` dom P" by (force simp: ran_def)
  then have "card (children (w_trace s)) \<le> card (dom P)" using tr card_image_le [OF fin] by (metis tracked_def)
  also have "\<dots> < card (set ts)" using d by (simp add: psubset_card_mono)
  also have "\<dots> \<le> length ts" by (rule card_length)
  finally show ?thesis .
qed

lemma launch_settles:
  assumes sup: "supervised w0 c ts P s" and tr: "tracked n (set ts - {t}) P s" and t: "t \<in> set ts" "P t = None" and os: "kernel_ok os"
  shows "returns (bindr (task_run os t) (\<lambda>r.
     if r = BZ_OK then
       bindr (on_tree (\<lambda>h tree. rbtree_insert h tree (task_node t)) c) (\<lambda>_.
       bindr (get_ctx cx_log c) (\<lambda>log. bindr (get_task tk_name t) (\<lambda>name. bindr (get_task tk_pid t) (\<lambda>pid.
       bindr (bz_log os log BZ_LOG_INFO f line [Lit a, Str name, Lit b, Dec pid]) (\<lambda>_. ret x)))))
     else
       bindr (get_ctx cx_log c) (\<lambda>log. bindr (get_task tk_name t) (\<lambda>name.
       bindr (bz_log_error os log f' line' [Lit a', Str name]) (\<lambda>_. ret y)))))
    (\<lambda>z s'. settled os n w0 c ts P t s' \<and> (z = x \<or> z = y)) s"
proof (rule returns_bindr, rule returns_mono [OF task_run_launches [OF assms]])
  fix r s1
  assume r: "if r = BZ_OK then \<exists>p. launched n w0 c ts P t p s1
    else supervised w0 c ts P s1 \<and> tracked n (set ts) P s1 \<and> fst (os_call os (w_trace s) Fork) = - 1"
  show "returns (if r = BZ_OK then
       bindr (on_tree (\<lambda>h tree. rbtree_insert h tree (task_node t)) c) (\<lambda>_.
       bindr (get_ctx cx_log c) (\<lambda>log. bindr (get_task tk_name t) (\<lambda>name. bindr (get_task tk_pid t) (\<lambda>pid.
       bindr (bz_log os log BZ_LOG_INFO f line [Lit a, Str name, Lit b, Dec pid]) (\<lambda>_. ret x)))))
     else
       bindr (get_ctx cx_log c) (\<lambda>log. bindr (get_task tk_name t) (\<lambda>name.
       bindr (bz_log_error os log f' line' [Lit a', Str name]) (\<lambda>_. ret y))))
    (\<lambda>z s'. settled os n w0 c ts P t s' \<and> (z = x \<or> z = y)) s1"
  proof (cases "r = BZ_OK")
    case True
    then obtain p where "launched n w0 c ts P t p s1" using r by auto
    from tree_insert_ok [OF this t] obtain s2 where
      run: "on_tree (\<lambda>h tree. rbtree_insert h tree (task_node t)) c s1 = Some (Ret (), s2)" and
      s2: "supervised w0 c ts (P(t \<mapsto> p)) s2" "tracked n (set ts) (P(t \<mapsto> p)) s2" by (auto elim!: returnsE)
    have set2: "settled os n w0 c ts P t s2" using s2 by (auto simp: settled_def sound_def)
    show ?thesis unfolding if_P [OF True]
      by (rule returns_bindr, unfold returns_def [of "on_tree _ _"], intro exI conjI, rule run, rule log_outcome(1) [OF s2(1) t(1)])
        (simp add: settled_quiet [OF _ set2])
  next
    case False
    then have s1: "supervised w0 c ts P s1" "tracked n (set ts) P s1" "fst (os_call os (w_trace s) Fork) = - 1" using r by auto
    moreover have "card (children (w_trace s)) < length ts" using few_children [OF sup tr t] .
    ultimately have s1: "supervised w0 c ts P s1" "settled os n w0 c ts P t s1" by (auto simp: settled_def sound_def always_forks_def)
    show ?thesis unfolding if_not_P [OF False]
      by (rule log_outcome(2) [OF s1(1) t(1)]) (simp add: settled_quiet [OF _ s1(2)])
  qed
qed

lemma bindr_unit [simp]: "bindr m (\<lambda>_. ret ()) = m"
proof (rule ext)
  fix s
  show "bindr m (\<lambda>_. ret ()) s = m s"
  proof (cases "m s")
    case (Some p)
    then show ?thesis by (cases p; cases "fst p") (simp_all add: bindr_def ret_def)
  qed (simp add: bindr_def)
qed

lemma start_task_settles:
  assumes "supervised w0 c ts P s" "tracked n (set ts - {t}) P s" "t \<in> set ts" "P t = None" "kernel_ok os"
  shows "returns (context_start_task os c t) (\<lambda>_ s'. settled os n w0 c ts P t s') s"
  using launch_settles [OF assms, of _ _ _ _ "()" _ _ _ "()"]
  unfolding context_start_task_def bindr_unit by (rule returns_mono) simp

lemma steady_conf:
  assumes "steady s s'" "deref (w_ctxs s) c = Some x" "deref (w_ctxs s') c = Some x'"
  shows "plain_ctx x' = plain_ctx x"
proof -
  have "map_option plain_ctx (w_ctxs s' c) = map_option plain_ctx (w_ctxs s c)"
    using assms(1) by (simp add: steady_def) (metis comp_apply)
  with assms(2,3) show ?thesis by (simp add: deref_def split: if_splits)
qed

lemma plain_ctx_sel:
  "cx_conf (plain_ctx x) = cx_conf x" "cx_log (plain_ctx x) = cx_log x" "cx_instance (plain_ctx x) = cx_instance x"
  "cx_callback (plain_ctx x) = cx_callback x" "cx_arg (plain_ctx x) = cx_arg x" "cx_origmask (plain_ctx x) = cx_origmask x"
  "rbt_sentinel (cx_tree (plain_ctx x)) = rbt_sentinel (cx_tree x)"
  by (simp_all add: plain_ctx_def)

lemma plain_ctx_fields:
  assumes "plain_ctx x' = plain_ctx x"
  shows "cx_conf x' = cx_conf x" "cx_log x' = cx_log x" "cx_instance x' = cx_instance x" "cx_callback x' = cx_callback x"
    "cx_arg x' = cx_arg x" "cx_origmask x' = cx_origmask x" "rbt_sentinel (cx_tree x') = rbt_sentinel (cx_tree x)"
  using assms plain_ctx_sel by metis+

lemma same_logs_sym: "same_logs L M \<Longrightarrow> same_logs M L"
  by (simp add: same_logs_def)

lemma steady_sym: "steady s s' \<Longrightarrow> steady s' s"
  unfolding steady_def by (elim conjE, intro conjI) (rule sym, assumption | rule same_logs_sym, assumption)+

lemma task_list_inj: "inj task_list"
  by (simp add: inj_def)

text \<open>All of the tasks are started in turn.\<close>

lemma start_tasks_sound:
  assumes s: "sound n w0 c ts Map.empty s" and os: "kernel_ok os"
  shows "returns (context_start_tasks os c) (\<lambda>r s'. r = BZ_OK \<and>
    (\<exists>P. sound n w0 c ts P s' \<and> (always_forks os ts \<longrightarrow> dom P = set ts))) s"
proof -
  obtain cx where cx: "deref (w_ctxs s) c = Some cx" "list_holds (w_lists s) (conf_tasks_list (cx_conf cx)) (map task_list ts)"
    using s by (auto simp: sound_def supervised_def)
  define head where "head = conf_tasks_list (cx_conf cx)"
  have dist: "distinct ts" using cx(2) by (auto simp: list_holds_def distinct_map)
  have ring: "list_holds (w_lists s') head (map task_list ts)" if so: "sound n w0 c ts P s'" for P s'
  proof -
    have "steady w0 s'" "steady w0 s" using s so by (auto simp: sound_def supervised_def)
    then have "steady s s'" by (blast intro: steady_sym steady_trans)
    with cx(2) show ?thesis by (simp add: head_def steady_def)
  qed
  let ?I = "\<lambda>ds s'. \<exists>d P. ds = map task_list d \<and> sound n w0 c ts P s' \<and> dom P \<subseteq> set d \<and> (always_forks os ts \<longrightarrow> dom P = set d)"
  have loop: "returns (list_for_each w_lists head (\<lambda>pos. context_start_task os c (task_of_list pos))) (\<lambda>_ s'. ?I (map task_list ts) s') s"
  proof (rule list_for_each_returns [where I = ?I])
    show "?I [] s" using s by (intro exI [of _ "[]"] exI [of _ Map.empty]) simp
  next
    fix ds x rest s1
    assume xs: "map task_list ts = ds @ x # rest" and "?I ds s1"
    then obtain d P where d: "ds = map task_list d" "sound n w0 c ts P s1" "dom P \<subseteq> set d" "always_forks os ts \<longrightarrow> dom P = set d" by blast
    obtain d' t r' where ts: "ts = d' @ t # r'" "ds = map task_list d'" "x = task_list t"
      using xs by (auto simp: map_eq_append_conv map_eq_Cons_conv)
    have dd: "d' = d" using ts(2) d(1) by (simp add: inj_map_eq_map [OF task_list_inj])
    have "t \<notin> set d" using dist ts(1) dd by auto
    then have t: "P t = None" "t \<in> set ts" using d(3) ts(1) by auto
    have "returns (context_start_task os c t) (\<lambda>_ s'. settled os n w0 c ts P t s') s1"
      by (rule start_task_settles) (use d(2) t os in \<open>auto simp: sound_def tracked_def\<close>)
    then show "returns (context_start_task os c (task_of_list x)) (\<lambda>_ s'. ?I (ds @ [x]) s') s1"
    proof (simp only: ts(3) task_offsets, elim returns_mono)
      fix u s2
      assume "settled os n w0 c ts P t s2"
      then consider (new) p where "sound n w0 c ts (P(t \<mapsto> p)) s2" | (none) "sound n w0 c ts P s2" "\<not> always_forks os ts"
        by (auto simp: settled_def)
      then show "?I (ds @ [task_list t]) s2"
      proof cases
        case new
        then show ?thesis using d by (intro exI [of _ "d @ [t]"] exI [of _ "P(t \<mapsto> p)"]) auto
      next
        case none
        then show ?thesis using d by (intro exI [of _ "d @ [t]"] exI [of _ P]) auto
      qed
    qed
  next
    fix ds s' assume "?I ds s'" then show "list_holds (w_lists s') head (map task_list ts)" using ring by blast
  qed
  have empty: "list_empty (w_lists s) head = Some (ts = [])"
    using list_empty_holds [OF cx(2)] by (simp add: head_def)
  show ?thesis
  proof (cases "ts = []")
    case True
    then show ?thesis using s empty
      by (auto simp: context_start_tasks_def returns_def get_ok(2) [OF cx(1)] run_simps head_def sound_def supervised_def)
  next
    case False
    have "context_start_tasks os c s = bindr (list_for_each w_lists head (\<lambda>pos. context_start_task os c (task_of_list pos))) (\<lambda>_. ret BZ_OK) s"
      using empty False by (simp add: context_start_tasks_def get_ok(2) [OF cx(1)] run_simps head_def)
    moreover have "returns (bindr (list_for_each w_lists head (\<lambda>pos. context_start_task os c (task_of_list pos))) (\<lambda>_. ret BZ_OK))
      (\<lambda>r s'. r = BZ_OK \<and> (\<exists>P. sound n w0 c ts P s' \<and> (always_forks os ts \<longrightarrow> dom P = set ts))) s"
      by (rule returns_bindr, rule returns_mono [OF loop]) (auto dest!: map_injective [OF _ task_list_inj])
    ultimately show ?thesis by (simp add: returns_def)
  qed
qed

section \<open>Reaping\<close>

lemma restart_settles:
  assumes sup: "supervised w0 c ts P s" and t: "t \<in> set ts" "P t = Some p" and os: "kernel_ok os"
    and tr: "tracked n (set ts - {t}) (P(t := None)) s"
  shows "returns (context_restart_task os c t) (\<lambda>r s'. settled os n w0 c ts (P(t := None)) t s') s"
  unfolding context_restart_task_def
proof (rule returns_bindr, rule returns_mono [OF tree_delete_ok [OF sup t(2)]])
  fix u s1
  assume s1: "supervised w0 c ts (P(t := None)) s1 \<and> w_tasks s1 = w_tasks s \<and> w_trace s1 = w_trace s"
  then have "tracked n (set ts - {t}) (P(t := None)) s1" using tr by (auto simp: tracked_def task_in_state_def)
  with s1 have "supervised w0 c ts (P(t := None)) s1" "tracked n (set ts - {t}) (P(t := None)) s1" "(P(t := None)) t = None"
    by simp_all
  from launch_settles [OF this(1,2) t(1) this(3) os]
  show "returns (bindr (task_run os t) (\<lambda>r.
     if r = BZ_OK then
       bindr (on_tree (\<lambda>h tree. rbtree_insert h tree (task_node t)) c) (\<lambda>_.
       bindr (get_ctx cx_log c) (\<lambda>log.
       bindr (get_task tk_name t) (\<lambda>name.
       bindr (get_task tk_pid t) (\<lambda>pid.
       bindr (bz_log os log BZ_LOG_INFO ''context.c'' 221 [Lit ''restarting task succeed, name: '', Str name, Lit '', pid: '', Dec pid]) (\<lambda>_.
       ret BZ_OK)))))
     else
       bindr (get_ctx cx_log c) (\<lambda>log.
       bindr (get_task tk_name t) (\<lambda>name.
       bindr (bz_log_error os log ''context.c'' 225 [Lit ''restarting task failed, name: '', Str name]) (\<lambda>_.
       ret BZ_ERROR))))) (\<lambda>r s'. settled os n w0 c ts (P(t := None)) t s') s1"
    by (rule returns_mono) (erule conjunct1)
qed

lemma task_exit_handler_quiet:
  assumes sup: "supervised w0 c ts P s" "t \<in> set ts"
  shows "returns (task_exit_handler os t status) (\<lambda>r s'. r = BZ_OK \<and> quiet os s s') s"
proof -
  obtain k cx where g: "deref (w_tasks s) t = Some k" "tk_ctx k = c" "str_at s (tk_name k) \<noteq> None" "deref (w_ctxs s) c = Some cx"
    "valid_log s (cx_log cx)" using sup by (rule supervised_task)
  have r: "render s [Lit a, Str (tk_name k), Lit b, Dec v] \<noteq> None" for a b v using g(3) by auto
  have run: "returns (bindr (task_log t) (\<lambda>log. bindr (get_task tk_name t) (\<lambda>name.
      bindr (bz_log os log BZ_LOG_INFO f line [Lit a, Str name, Lit b, Dec v]) (\<lambda>_. ret BZ_OK)))) (\<lambda>r s'. r = BZ_OK \<and> quiet os s s') s"
    for f line a b v
  proof -
    have "returns (bindr (bz_log os (cx_log cx) BZ_LOG_INFO f line [Lit a, Str (tk_name k), Lit b, Dec v]) (\<lambda>_. ret BZ_OK))
      (\<lambda>r s'. r = BZ_OK \<and> quiet os s s') s"
      by (rule returns_bindr, rule returns_mono [OF bz_log_quiet(1) [OF g(5) r known_levels(4)]]) simp
    then show ?thesis using g(2,4) by (simp add: returns_def task_log_ok [OF g(1)] get_ok(1) [OF g(1)])
  qed
  show ?thesis unfolding task_exit_handler_def by (simp add: run)
qed

lemma ran_without:
  assumes "inj_on P (dom P)" "P t = Some p"
  shows "ran (P(t := None)) = ran P - {p}"
proof
  show "ran (P(t := None)) \<subseteq> ran P - {p}"
  proof
    fix q
    assume "q \<in> ran (P(t := None))"
    then obtain u where u: "P u = Some q" "u \<noteq> t" by (auto simp: ran_def split: if_splits)
    with assms have "q \<noteq> p" by (metis domI inj_onD)
    with u show "q \<in> ran P - {p}" by (auto intro: ranI)
  qed
  show "ran P - {p} \<subseteq> ran (P(t := None))"
  proof
    fix q
    assume "q \<in> ran P - {p}"
    then obtain u where "P u = Some q" "q \<noteq> p" by (auto simp: ran_def)
    with assms(2) have "(P(t := None)) u = Some q" by auto
    then show "q \<in> ran (P(t := None))" by (rule ranI)
  qed
qed

text \<open>
  The abstract supervisor: its state is the map from tasks to pids, its only step replaces the process of a
  task by a new one, or, when the system has no process to give (\<open>\<not> granted\<close>), by none.
\<close>

inductive abs_step :: "bool \<Rightarrow> (addr \<rightharpoonup> int) \<Rightarrow> (addr \<rightharpoonup> int) \<Rightarrow> bool" for granted where
  respawn: "P t = Some p \<Longrightarrow> abs_step granted P (P(t \<mapsto> q))"
| lose: "P t = Some p \<Longrightarrow> \<not> granted \<Longrightarrow> abs_step granted P (P(t := None))"

inductive_cases abs_stepE: "abs_step granted P P'"

lemma abs_step_dom: "abs_step granted P P' \<Longrightarrow> dom P' \<subseteq> dom P \<and> (granted \<longrightarrow> dom P' = dom P)"
  by (erule abs_stepE) auto

lemma abs_steps_dom: "(abs_step granted)\<^sup>*\<^sup>* P P' \<Longrightarrow> dom P' \<subseteq> dom P \<and> (granted \<longrightarrow> dom P' = dom P)"
  by (induction rule: rtranclp_induct) (use abs_step_dom in blast)+

text \<open>One pass: with a process that ended, an abstract step.\<close>

definition reap_result :: "os \<Rightarrow> nat \<Rightarrow> world \<Rightarrow> addr \<Rightarrow> addr list \<Rightarrow> (addr \<rightharpoonup> int) \<Rightarrow> bool \<Rightarrow> world \<Rightarrow> bool" where
  "reap_result os n w0 c ts P again s' \<longleftrightarrow>
     (if again then \<exists>P'. sound (n + 1) w0 c ts P' s' \<and> abs_step (always_forks os ts) P P' else sound n w0 c ts P s')"

lemma reap_sound:
  assumes s: "sound n w0 c ts P s" and os: "kernel_ok os"
  shows "returns (context_reap os c) (\<lambda>again s'. reap_result os n w0 c ts P again s' \<and>
    again = (0 < fst (os_call os (w_trace s) Waitpid))) s"
proof -
  have sup: "supervised w0 c ts P s" and tr: "tracked n (set ts) P s" using s by (simp_all add: sound_def)
  obtain cx where cx: "deref (w_ctxs s) c = Some cx" "valid_log s (cx_log cx)" "dom P \<subseteq> set ts" using sup by (auto simp: supervised_def)
  obtain p e where w: "os_call os (w_trace s) Waitpid = (p, e)" by (cases "os_call os (w_trace s) Waitpid")
  define s1 where "s1 = s\<lparr>w_trace := (Waitpid, p) # w_trace s, w_errno := (if p < 0 then e else w_errno s)\<rparr>"
  have sup1: "supervised w0 c ts P s1"
    by (rule supervised_fields [OF sup]) (simp_all add: s1_def)
  show ?thesis
  proof (cases "0 < p")
    case True
    then have "p \<in> ran P" using os w tr by (auto simp: kernel_ok_def tracked_def dest: spec [of _ "w_trace s"])
    then obtain t where t: "P t = Some p" "t \<in> set ts" using cx(3) by (auto simp: ran_def)
    have find: "context_find_task c p s1 = Some (Ret t, s1)" using find_task_ok [OF sup1 _ t(1)] tr by (simp add: tracked_def)
    have t0: "t \<noteq> NULL" using supervised_task [OF sup t(2)] deref_not_NULL by metis
    have ran: "ran (P(t := None)) = ran P - {p}"
      by (rule ran_without) (use tr t(1) in \<open>simp_all add: tracked_def pids_ok_def\<close>)
    have "inj_on (P(t := None)) (dom P - {t})" using tr by (auto simp: tracked_def pids_ok_def inj_on_def)
    then have ok: "pids_ok (P(t := None))" using tr ran by (auto simp: tracked_def pids_ok_def)
    have tr1: "tracked (n + 1) (set ts - {t}) (P(t := None)) s1"
      using tr ran ok True by (auto simp: tracked_def s1_def task_in_state_def)
    have settled: "settled os (n + 1) w0 c ts (P(t := None)) t s' \<Longrightarrow> reap_result os n w0 c ts P True s'" for s'
    proof -
      assume "settled os (n + 1) w0 c ts (P(t := None)) t s'"
      then consider (new) q where "sound (n + 1) w0 c ts (P(t \<mapsto> q)) s'" | (none) "sound (n + 1) w0 c ts (P(t := None)) s'" "\<not> always_forks os ts"
        by (auto simp: settled_def)
      then show ?thesis
      proof cases
        case new
        with abs_step.respawn [of P t p, OF t(1)] show ?thesis by (auto simp: reap_result_def)
      next
        case none
        with abs_step.lose [of P t p, OF t(1)] show ?thesis by (auto simp: reap_result_def)
      qed
    qed
    have "returns (bindr (task_exit_handler os t st) (\<lambda>_. bindr (context_restart_task os c t) (\<lambda>_. ret True)))
      (\<lambda>again s'. reap_result os n w0 c ts P again s' \<and> again) s1" for st
    proof (rule returns_bindr, rule returns_mono [OF task_exit_handler_quiet [OF sup1 t(2)]], elim conjE)
      fix x s2
      assume q: "quiet os s1 s2"
      have "supervised w0 c ts P s2" "tracked (n + 1) (set ts - {t}) (P(t := None)) s2"
        using supervised_quiet [OF q sup1] tracked_quiet [OF q tr1] by auto
      from restart_settles [OF this(1) t(2,1) os this(2)]
      show "returns (bindr (context_restart_task os c t) (\<lambda>_. ret True)) (\<lambda>again s'. reap_result os n w0 c ts P again s' \<and> again) s2"
        by (intro returns_bindr) (auto elim!: returns_mono intro: settled)
    qed
    then show ?thesis using w True find t0
      by (simp add: returns_def context_reap_def run_simps s1_def)
  next
    case False
    have "children (w_trace s1) = children (w_trace s)" "reaped (w_trace s1) = reaped (w_trace s)" using False by (simp_all add: s1_def)
    then have s1: "sound n w0 c ts P s1" using sup1 tr by (simp add: sound_def tracked_def task_in_state_def s1_def)
    have done1: "reap_result os n w0 c ts P False s'" if "quiet os s1 s'" for s'
      using sound_quiet [OF that s1] by (auto simp: reap_result_def)
    show ?thesis
    proof (cases "p = 0")
      case True
      then show ?thesis using w done1 [OF quiet_refl]
        by (auto simp: returns_def context_reap_def run_simps s1_def intro!: exI [of _ False])
    next
      case p: False
      let ?msg = "[Lit ''error at waitpid: '', Txt (os_strerror os (w_errno s1))]"
      have "returns (bindr (bz_log_error os (cx_log cx) ''context.c'' 146 ?msg) (\<lambda>_. ret False))
        (\<lambda>again s'. reap_result os n w0 c ts P again s' \<and> \<not> again) s1"
        by (rule returns_bindr, rule returns_mono [OF bz_log_quiet(2)]) (use cx(2) done1 in \<open>auto simp: s1_def valid_log_def\<close>)
      moreover have "deref (w_ctxs s1) c = Some cx" using cx(1) by (simp add: s1_def)
      moreover have s1e: "s\<lparr>w_trace := (Waitpid, p) # w_trace s, w_errno := e\<rparr> = s1" using p False by (simp add: s1_def)
      ultimately show ?thesis using w p False
        by (auto simp: returns_def context_reap_def run_simps s1e get_ok(2) strerror_def)
    qed
  qed
qed

section \<open>Between two waits\<close>

text \<open>
  What a statement does that returns before the next wait: it makes calls, none of them \<open>pselect\<close>. \<open>calm\<close> is
  preserved by every construct, and every statement that reaping consists of is calm. The child of \<open>fork\<close> does not
  return.
\<close>

definition is_wait :: "call \<Rightarrow> bool" where
  "is_wait a = (case a of Pselect m \<Rightarrow> True | _ \<Rightarrow> False)"

definition no_wait :: "trace \<Rightarrow> bool" where
  "no_wait tr \<longleftrightarrow> list_all (\<lambda>e. \<not> is_wait (fst e)) tr"

lemma no_wait_append [simp]: "no_wait (tr @ tr') \<longleftrightarrow> no_wait tr \<and> no_wait tr'"
  by (simp add: no_wait_def)

lemma no_wait_Nil [simp]: "no_wait []"
  by (simp add: no_wait_def)

definition calm :: "'a prog \<Rightarrow> bool" where
  "calm m \<longleftrightarrow> (\<forall>s x s'. m s = Some (Ret x, s') \<longrightarrow> (\<exists>tr. w_trace s' = tr @ w_trace s \<and> no_wait tr))"

named_theorems calm_rules \<open>statements that make no wait\<close>

lemma calm_run: "calm m \<Longrightarrow> m s = Some (Ret x, s') \<Longrightarrow> \<exists>tr. w_trace s' = tr @ w_trace s \<and> no_wait tr"
  by (simp add: calm_def)

lemma bindr_returned:
  assumes "bindr m f s = Some (Ret y, s')"
  obtains x s1 where "m s = Some (Ret x, s1)" "f x s1 = Some (Ret y, s')"
proof -
  obtain o1 s1 where "m s = Some (o1, s1)" using assms by (cases "m s") (auto simp: bindr_def)
  then show thesis using assms that by (cases o1) (simp_all add: bindr_def)
qed

lemma calm_bindr [calm_rules]:
  assumes "calm m" "\<And>x. calm (f x)"
  shows "calm (bindr m f)"
  unfolding calm_def
proof (intro allI impI)
  fix s y s'
  assume "bindr m f s = Some (Ret y, s')"
  then obtain x s1 where run: "m s = Some (Ret x, s1)" "f x s1 = Some (Ret y, s')" by (rule bindr_returned)
  obtain tr tr' where "w_trace s1 = tr @ w_trace s" "no_wait tr" "w_trace s' = tr' @ w_trace s1" "no_wait tr'"
    using calm_run [OF assms(1) run(1)] calm_run [OF assms(2) run(2)] by blast
  then show "\<exists>tr. w_trace s' = tr @ w_trace s \<and> no_wait tr" by (intro exI [of _ "tr' @ tr"]) simp
qed

lemma calm_same: "(\<And>s x s'. m s = Some (Ret x, s') \<Longrightarrow> w_trace s' = w_trace s) \<Longrightarrow> calm m"
  unfolding calm_def by (metis append_Nil no_wait_Nil)

lemma calm_basic [calm_rules]: "calm (ret x)" "calm (gets f)" "calm (getsome g)" "calm (exit_with c)" "calm stuck"
  by (rule calm_same, auto simp: ret_def gets_def getsome_def exit_with_def stuck_def)+

lemma calm_modify: "(\<And>s. w_trace (f s) = w_trace s) \<Longrightarrow> calm (modify f)"
  by (rule calm_same) (auto simp: modify_def)

lemma calm_modifysome: "(\<And>s s'. f s = Some s' \<Longrightarrow> w_trace s' = w_trace s) \<Longrightarrow> calm (modifysome f)"
  by (rule calm_same) (auto simp: modifysome_def)

lemma calm_branch [calm_rules]: "calm m \<Longrightarrow> calm k \<Longrightarrow> calm (if b then m else k)" "calm n \<Longrightarrow> calm (whenr b n)"
  by (auto simp: whenr_def calm_basic(1))

lemma calm_let [calm_rules]: "(\<And>x. calm (f x)) \<Longrightarrow> calm (let x = v in f x)" "(\<And>x y. calm (g x y)) \<Longrightarrow> calm (case p of (x, y) \<Rightarrow> g x y)"
  by (simp_all add: split_beta)

lemma calm_syscall: "\<not> is_wait a \<Longrightarrow> calm (syscall os a)"
  unfolding calm_def syscall_def no_wait_def by (auto simp: Let_def split: prod.splits)

lemma calm_calls [calm_rules]: "calm (syscall os Fork)" "calm (syscall os Waitpid)" "calm (syscall os (Write fd text))"
  by (rule calm_syscall, simp add: is_wait_def)+

lemma calm_access [calm_rules]:
  "calm (get_task f t)" "calm (get_ctx g c)" "calm (strerror os)" "calm (set_task t u)" "calm (on_tree h c)"
  by (auto simp: get_task_def get_ctx_def strerror_def set_task_def on_tree_def bind_eq_Some_conv
    intro!: calm_basic calm_modifysome)

lemma calm_log [calm_rules]:
  "calm (bz_log os log level file line fmt)" "calm (bz_log_error os log file line fmt)"
proof -
  have "calm (log_record os log file line level fmt)" for level
    unfolding log_record_def by (intro calm_rules calm_modify calm_modifysome) (auto simp: bind_eq_Some_conv)
  then show "calm (bz_log os log level file line fmt)" "calm (bz_log_error os log file line fmt)"
    unfolding bz_log_def bz_log_error_def by (intro calm_rules; assumption)+
qed

lemma calm_task_log [calm_rules]: "calm (task_log t)" "calm (task_failed os t line what)"
  unfolding task_log_def task_failed_def by (intro calm_rules)+

text \<open>The child ends or becomes another program.\<close>

definition never_returns :: "'a prog \<Rightarrow> bool" where
  "never_returns m \<longleftrightarrow> (\<forall>s x s'. m s \<noteq> Some (Ret x, s'))"

lemma never_calm: "never_returns m \<Longrightarrow> calm m"
  by (simp add: never_returns_def calm_def)

lemma never_bindr:
  assumes "\<And>s x s'. m s = Some (Ret x, s') \<Longrightarrow> never_returns (f x)"
  shows "never_returns (bindr m f)"
  using assms unfolding never_returns_def by (metis bindr_returned)

lemma never_exit: "never_returns (exit_with c)"
  by (simp add: never_returns_def exit_with_def)

lemma execv_fails: "execv os path args s = Some (Ret r, s') \<Longrightarrow> r < 0"
  by (auto simp: execv_def bindr_syscall ret_def Let_def split: prod.splits if_splits)

lemma calm_task_run [calm_rules]: "calm (task_run os t)"
proof -
  have child: "calm (bindr (task_pre_run os t) (\<lambda>r.
       if r \<noteq> BZ_OK then exit_with BZ_ERROR else
       bindr (bindr (get_task tk_path t) get_str) (\<lambda>path.
       bindr (bindr (get_task tk_args t) (\<lambda>p. getsome (\<lambda>s. argv_at s p))) (\<lambda>args.
       bindr (execv os path args) (\<lambda>r.
       if r < 0 then
         bindr (task_failed os t 179 ''call execv failed'') (\<lambda>_. exit_with BZ_ERROR)
       else task_started os t pid)))))" for pid
  proof (rule never_calm, rule never_bindr)
    fix r
    have "never_returns (bindr (execv os path args) (\<lambda>r. if r < 0 then
         bindr (task_failed os t 179 ''call execv failed'') (\<lambda>_. exit_with BZ_ERROR) else task_started os t pid))" for path args
      by (rule never_bindr) (auto dest: execv_fails intro: never_bindr never_exit)
    then show "never_returns (if r \<noteq> BZ_OK then exit_with BZ_ERROR else
       bindr (bindr (get_task tk_path t) get_str) (\<lambda>path.
       bindr (bindr (get_task tk_args t) (\<lambda>p. getsome (\<lambda>s. argv_at s p))) (\<lambda>args.
       bindr (execv os path args) (\<lambda>r.
       if r < 0 then
         bindr (task_failed os t 179 ''call execv failed'') (\<lambda>_. exit_with BZ_ERROR)
       else task_started os t pid))))" by (auto intro: never_exit never_bindr)
  qed
  have started: "calm (task_started os t pid)" for pid
    unfolding task_started_def by (intro calm_rules calm_modifysome) (auto simp: bind_eq_Some_conv)
  show ?thesis unfolding task_run_def task_reset_def by (intro calm_rules child started)
qed

lemma calm_reaping [calm_rules]:
  "calm (context_find_task c pid)" "calm (task_exit_handler os t status)" "calm (context_restart_task os c t)"
  unfolding context_find_task_def task_exit_handler_def context_restart_task_def by (intro calm_rules)+

text \<open>A pass of the reaping loop that goes on has found one process that ended, and has made no wait.\<close>

lemma reap_calm:
  assumes "context_reap os c s = Some (Ret True, s')"
  obtains tr p where "os_call os (w_trace s) Waitpid = (p, snd (os_call os (w_trace s) Waitpid))" "0 < p"
    "w_trace s' = tr @ (Waitpid, p) # w_trace s" "no_wait tr"
proof -
  obtain p e where p: "os_call os (w_trace s) Waitpid = (p, e)" by (cases "os_call os (w_trace s) Waitpid")
  let ?s1 = "s\<lparr>w_trace := (Waitpid, p) # w_trace s, w_errno := (if p < 0 then e else w_errno s)\<rparr>"
  let ?rest = "\<lambda>status. bindr (context_find_task c p) (\<lambda>task.
     if task = NULL then
       bindr (get_ctx cx_log c) (\<lambda>log.
       bindr (bz_log_error os log ''context.c'' 151 [Lit ''process finished but no related task found, pid: '', Dec p]) (\<lambda>_.
       ret True))
     else
     bindr (task_exit_handler os task (word_of_int status)) (\<lambda>_.
     bindr (context_restart_task os c task) (\<lambda>_.
     ret True)))"
  let ?error = "bindr (get_ctx cx_log c) (\<lambda>log. bindr (strerror os) (\<lambda>e.
       bindr (bz_log_error os log ''context.c'' 146 [Lit ''error at waitpid: '', Txt e]) (\<lambda>_. ret False)))"
  have run: "context_reap os c s = (if p = 0 then Some (Ret False, ?s1) else if p < 0 then ?error ?s1 else ?rest (os_status os (w_trace s)) ?s1)"
    by (simp add: context_reap_def run_simps p)
  have error: "?error s1 \<noteq> Some (Ret True, s2)" for s1 s2
    by (auto simp: ret_def elim!: bindr_returned)
  have pos: "0 < p"
  proof (rule ccontr)
    assume "\<not> 0 < p"
    then consider "p = 0" | "p \<noteq> 0" "p < 0" by linarith
    then show False
    proof cases
      case 1
      with run assms show False by simp
    next
      case 2
      then have "context_reap os c s = ?error ?s1" unfolding run by simp
      with assms have "?error ?s1 = Some (Ret True, s')" by (rule trans [OF sym, rotated -1])
      with error show False by blast
    qed
  qed
  then have rest: "?rest (os_status os (w_trace s)) ?s1 = Some (Ret True, s')" using run assms by simp
  have "calm (?rest status)" for status by (intro calm_rules)
  from calm_run [OF this rest] obtain tr where "w_trace s' = tr @ (Waitpid, p) # w_trace s" "no_wait tr" by auto
  with pos p show thesis by (intro that) simp_all
qed

section \<open>The reaping loop\<close>

text \<open>
  The loop ends once no process is left that ended. A task that fails at once can keep it going: its process ends before
  the next \<open>waitpid\<close>. \<open>patient\<close> says that this is not the case: after any history, only finitely many processes end before
  the program waits again. Over time any number of them may.
\<close>

definition patient :: "os \<Rightarrow> bool" where
  "patient os \<longleftrightarrow> (\<forall>tr. \<exists>N. \<forall>tr'. no_wait tr' \<longrightarrow> N \<le> reaped tr' \<longrightarrow> fst (os_call os (tr' @ tr) Waitpid) \<le> 0)"

text \<open>The loop goes on for ever, each of its passes with a process that ended.\<close>

definition reaps_forever :: "os \<Rightarrow> addr \<Rightarrow> world \<Rightarrow> bool" where
  "reaps_forever os c s \<longleftrightarrow> (\<exists>f. f 0 = s \<and> (\<forall>i. context_reap os c (f i) = Some (Ret True, f (Suc i))))"

lemma reaped_append: "reaped (tr @ tr') = reaped tr + reaped tr'"
  by (induction tr rule: reaped.induct) auto

lemma patient_ends:
  assumes "patient os"
  shows "\<not> reaps_forever os c s"
proof
  assume "reaps_forever os c s"
  then obtain f where f: "f 0 = s" "\<And>i. context_reap os c (f i) = Some (Ret True, f (Suc i))" by (auto simp: reaps_forever_def)
  have path: "\<exists>tr. w_trace (f i) = tr @ w_trace s \<and> no_wait tr \<and> i \<le> reaped tr" for i
  proof (induction i)
    case 0
    then show ?case by (simp add: f(1) no_wait_def)
  next
    case (Suc i)
    then obtain tr where tr: "w_trace (f i) = tr @ w_trace s" "no_wait tr" "i \<le> reaped tr" by blast
    obtain tr' p where "0 < p" "w_trace (f (Suc i)) = tr' @ (Waitpid, p) # w_trace (f i)" "no_wait tr'"
      using reap_calm [OF f(2) [of i]] by metis
    with tr show ?case
      by (intro exI [of _ "tr' @ (Waitpid, p) # tr"]) (simp add: reaped_append no_wait_def is_wait_def)
  qed
  obtain N where N: "\<And>tr'. no_wait tr' \<Longrightarrow> N \<le> reaped tr' \<Longrightarrow> fst (os_call os (tr' @ w_trace s) Waitpid) \<le> 0"
    using assms unfolding patient_def by metis
  obtain tr where tr: "w_trace (f N) = tr @ w_trace s" "no_wait tr" "N \<le> reaped tr" using path by blast
  obtain p where "os_call os (w_trace (f N)) Waitpid = (p, snd (os_call os (w_trace (f N)) Waitpid))" "0 < p"
    using reap_calm [OF f(2) [of N]] by metis
  then have "0 < fst (os_call os (tr @ w_trace s) Waitpid)" using tr(1) by (metis fst_conv)
  with N [OF tr(2,3)] show False by simp
qed

definition handled :: "os \<Rightarrow> world \<Rightarrow> addr \<Rightarrow> addr list \<Rightarrow> (addr \<rightharpoonup> int) \<Rightarrow> world \<Rightarrow> bool" where
  "handled os w0 c ts P s \<longleftrightarrow> (\<exists>n P'. sound n w0 c ts P' s \<and> (abs_step (always_forks os ts))\<^sup>*\<^sup>* P P')"

lemma handled_step: "abs_step (always_forks os ts) P P' \<Longrightarrow> handled os w0 c ts P' s \<Longrightarrow> handled os w0 c ts P s"
  unfolding handled_def by (blast intro: converse_rtranclp_into_rtranclp)

lemma handled_here: "sound n w0 c ts P s \<Longrightarrow> handled os w0 c ts P s"
  unfolding handled_def by blast

lemma reap_all_step:
  "context_reap os c s = Some (Ret again, s1) \<Longrightarrow> context_reap_all os c s = (if again then context_reap_all os c s1 else Some (Ret (), s1))"
  by (subst context_reap_all.simps) (simp add: bindr_Ret ret_def)

text \<open>The loop ends, and has dealt with every process, or it goes on for ever.\<close>

lemma reap_all_ends:
  assumes s: "sound n w0 c ts P s" and os: "kernel_ok os"
    and stop: "context_reap os c ((succ_of ^^ i) s) \<noteq> Some (Ret True, (succ_of ^^ Suc i) s)"
    and nxt: "\<And>s r s'. context_reap os c s = Some (r, s') \<Longrightarrow> succ_of s = s'"
  shows "returns (context_reap_all os c) (\<lambda>_ s'. handled os w0 c ts P s') s"
  using s stop
proof (induction i arbitrary: n P s)
  case (0 n P s)
  obtain again s1 where run: "context_reap os c s = Some (Ret again, s1)" and r: "reap_result os n w0 c ts P again s1"
    using reap_sound [OF 0(1) os] by (auto elim!: returnsE)
  have "\<not> again" using 0(2) run nxt [OF run] by auto
  then show ?case using reap_all_step [OF run] r handled_here by (auto simp: returns_def reap_result_def)
next
  case (Suc i)
  obtain again s1 where run: "context_reap os c s = Some (Ret again, s1)" and r: "reap_result os n w0 c ts P again s1"
    using reap_sound [OF Suc.prems(1) os] by (auto elim!: returnsE)
  show ?case
  proof (cases again)
    case True
    obtain P' where P': "sound (n + 1) w0 c ts P' s1" "abs_step (always_forks os ts) P P'"
      using r True by (auto simp: reap_result_def)
    have "(succ_of ^^ Suc k) s = (succ_of ^^ k) s1" for k using nxt [OF run] by (simp add: funpow_Suc_right del: funpow.simps)
    with Suc.prems(2) have "context_reap os c ((succ_of ^^ i) s1) \<noteq> Some (Ret True, (succ_of ^^ Suc i) s1)" by metis
    from Suc.IH [OF P'(1) this] show ?thesis using reap_all_step [OF run] True handled_step [OF P'(2)] by (auto simp: returns_def)
  next
    case False
    then show ?thesis using reap_all_step [OF run] r handled_here by (auto simp: returns_def reap_result_def)
  qed
qed

lemma reap_all_outcome:
  assumes "sound n w0 c ts P s" "kernel_ok os"
  shows "returns (context_reap_all os c) (\<lambda>_ s'. handled os w0 c ts P s') s \<or> reaps_forever os c s"
proof -
  define succ_of where "succ_of = (\<lambda>s. snd (the (context_reap os c s)))"
  have nxt: "context_reap os c s = Some (r, s') \<Longrightarrow> succ_of s = s'" for s r s' by (simp add: succ_of_def)
  show ?thesis
  proof (cases "\<exists>i. context_reap os c ((succ_of ^^ i) s) \<noteq> Some (Ret True, (succ_of ^^ Suc i) s)")
    case True
    then obtain i where i: "context_reap os c ((succ_of ^^ i) s) \<noteq> Some (Ret True, (succ_of ^^ Suc i) s)" by blast
    have "returns (context_reap_all os c) (\<lambda>_ s'. handled os w0 c ts P s') s" by (rule reap_all_ends [OF assms i]) (rule nxt)
    then show ?thesis by blast
  next
    case False
    then show ?thesis unfolding reaps_forever_def by (intro disjI2 exI [of _ "\<lambda>i. (succ_of ^^ i) s"]) auto
  qed
qed

text \<open>Whenever the loop ends, it has dealt with every process.\<close>

lemma reap_all_ended:
  assumes "context_reap_all os c s = Some (r, s')" "sound n w0 c ts P s" "kernel_ok os"
  shows "r = Ret () \<and> handled os w0 c ts P s'"
proof -
  let ?Q = "\<lambda>os c s y. \<forall>n P. sound n w0 c ts P s \<longrightarrow> kernel_ok os \<longrightarrow> fst y = Ret () \<and> handled os w0 c ts P (snd y)"
  have "?Q os c s y" if "context_reap_all os c s = Some y" for y
  proof (rule context_reap_all.raw_induct [where P = ?Q, OF _ that])
    fix all os c s y
    assume IH: "\<And>os c s y. all os c s = Some y \<Longrightarrow> ?Q os c s y"
      and body: "bindr (context_reap os c) (\<lambda>more s. if more then all os c s else ret () s) s = Some y"
    show "?Q os c s y"
    proof (intro allI impI)
      fix n P
      assume s: "sound n w0 c ts P s" and os: "kernel_ok os"
      obtain again s1 where run: "context_reap os c s = Some (Ret again, s1)" and r: "reap_result os n w0 c ts P again s1"
        using reap_sound [OF s os] by (auto elim!: returnsE)
      show "fst y = Ret () \<and> handled os w0 c ts P (snd y)"
      proof (cases again)
        case True
        obtain P' where P': "sound (n + 1) w0 c ts P' s1" "abs_step (always_forks os ts) P P'"
          using r True by (auto simp: reap_result_def)
        have "all os c s1 = Some y" using body run True by (simp add: bindr_Ret)
        from IH [OF this] P'(1) os have "fst y = Ret () \<and> handled os w0 c ts P' (snd y)" by blast
        with handled_step [OF P'(2)] show ?thesis by blast
      next
        case False
        then have "y = (Ret (), s1)" using body run by (simp add: bindr_Ret ret_def)
        with False r handled_here show ?thesis by (auto simp: reap_result_def)
      qed
    qed
  qed
  with assms show ?thesis by fastforce
qed

lemma event_handler_outcome:
  assumes s: "sound n w0 c ts P s" and os: "kernel_ok os"
  shows "(\<exists>s'. context_event_handler os c s = Some (Ret BZ_OK, s') \<and> handled os w0 c ts P s') \<or>
    context_event_handler os c s = None \<and> reaps_forever os c s"
proof (cases "bz_child s")
  case True
  then have run: "context_event_handler os c s = bindr (context_reap_all os c) (\<lambda>_. ret BZ_OK) s"
    by (simp add: context_event_handler_def run_simps)
  show ?thesis
  proof (cases "context_reap_all os c s")
    case None
    then have "reaps_forever os c s" using reap_all_outcome [OF s os] by (auto simp: returns_def)
    with None run show ?thesis by (simp add: bindr_def)
  next
    case (Some y)
    then obtain s' where "context_reap_all os c s = Some (Ret (), s')" "handled os w0 c ts P s'"
      using reap_all_ended [OF _ s os] by (cases y) auto
    then show ?thesis using run by (simp add: bindr_Ret ret_def)
  qed
next
  case False
  then show ?thesis using handled_here [OF s] by (auto simp: context_event_handler_def run_simps)
qed

lemma event_handler_sound:
  assumes "sound n w0 c ts P s" "kernel_ok os" "patient os"
  shows "returns (context_event_handler os c) (\<lambda>r s'. r = BZ_OK \<and> handled os w0 c ts P s') s"
  using event_handler_outcome [OF assms(1,2)] patient_ends [OF assms(3)] by (auto simp: returns_def)

section \<open>Waiting for signals\<close>

definition with_flags :: "world \<Rightarrow> int list \<Rightarrow> world" where
  "with_flags w sigs = w\<lparr>bz_quit := bz_quit w \<or> SIGQUIT \<in> set sigs,
     bz_terminate := bz_terminate w \<or> SIGTERM \<in> set sigs \<or> SIGINT \<in> set sigs,
     bz_child := bz_child w \<or> SIGCHLD \<in> set sigs\<rparr>"

lemma with_flags_Cons: "with_flags w (sig # sigs) = with_flags (with_flags w [sig]) sigs"
  by (simp add: with_flags_def eq_commute [of _ sig] disj_ac)

lemma steady_flags: "steady w s \<Longrightarrow> steady (with_flags w [sig]) (snd (signal_action sig s))"
  by (auto simp: steady_def with_flags_def signal_action_def signal_roles signal_numbers)

lemma sound_flags:
  "sound n w0 c ts P s \<Longrightarrow> sound n (with_flags w0 [sig]) c ts P (snd (signal_action sig s))"
proof -
  have "task_ok (snd (signal_action sig s)) = task_ok s" by (intro ext) (simp add: task_ok_def str_at_def)
  then show "sound n w0 c ts P s \<Longrightarrow> sound n (with_flags w0 [sig]) c ts P (snd (signal_action sig s))"
    using steady_flags by (simp add: sound_def supervised_def tracked_def task_in_state_def [abs_def] valid_log_def)
qed

lemma sound_log:
  assumes "sound n w0 c ts P s" "g_context w0 = c"
  obtains cx where "deref (w_ctxs s) c = Some cx" "g_context s = c" "valid_log s (cx_log cx)" "steady w0 s"
  using assms by (auto simp: sound_def supervised_def steady_def)

lemma deliver_sound:
  assumes "sound n w0 c ts P s" "g_context w0 = c"
  shows "returns (deliver os sigs) (\<lambda>_ s'. sound n (with_flags w0 sigs) c ts P s') s"
  using assms
proof (induction sigs arbitrary: s w0)
  case Nil
  then show ?case by (simp add: with_flags_def)
next
  case (Cons sig sigs)
  obtain cx where cx: "deref (w_ctxs s) c = Some cx" "g_context s = c" "valid_log s (cx_log cx)"
    using sound_log [OF Cons.prems] .
  have "peek cx_log (w_ctxs s) (g_context s) = Some (cx_log cx)" using cx by (simp add: peek_def)
  from signal_handler_returns [OF this cx(3), of os sig]
  obtain s1 where run: "signal_handler os sig s = Some (Ret (), s1)" and q: "quiet os (snd (signal_action sig s)) s1"
    by (rule returnsE) simp
  have "sound n (with_flags w0 [sig]) c ts P s1" using sound_quiet [OF q sound_flags [OF Cons.prems(1)]] .
  moreover have "g_context (with_flags w0 [sig]) = c" using Cons.prems(2) by (simp add: with_flags_def)
  ultimately have "returns (deliver os sigs) (\<lambda>_ s'. sound n (with_flags (with_flags w0 [sig]) sigs) c ts P s') s1" by (rule Cons.IH)
  then have "returns (deliver os sigs) (\<lambda>_ s'. sound n (with_flags w0 (sig # sigs)) c ts P s') s1"
    by (simp only: with_flags_Cons [of w0 sig sigs])
  then show ?case using run by (simp add: returns_def bindr_Ret)
qed

lemma sound_call:
  assumes "sound n w0 c ts P s" "a \<noteq> Fork" "a \<noteq> Waitpid"
  shows "sound n w0 c ts P (s\<lparr>w_trace := (a, r) # w_trace s, w_errno := e\<rparr>)"
proof -
  have "children ((a, r) # w_trace s) = children (w_trace s)" "reaped ((a, r) # w_trace s) = reaped (w_trace s)"
    using assms(2,3) by (cases a; simp)+
  moreover have "supervised w0 c ts P (s\<lparr>w_trace := (a, r) # w_trace s, w_errno := e\<rparr>)"
    by (rule supervised_fields) (use assms(1) in \<open>simp_all add: sound_def\<close>)
  ultimately show ?thesis using assms(1) by (simp add: sound_def tracked_def task_in_state_def)
qed

text \<open>One pass of the loop of \<open>context_run\<close>: the handlers of the signals have run, every process that ended was
  dealt with; what is left is the callback.\<close>

definition signals_at :: "os \<Rightarrow> world \<Rightarrow> int list" where
  "signals_at os s = os_signals os (w_trace s)"

text \<open>A \<open>pselect\<close> without descriptors and without a timeout only returns because of a signal.\<close>

definition interrupted :: "os \<Rightarrow> bool" where
  "interrupted os \<longleftrightarrow> (\<forall>tr m. os_call os tr (Pselect m) = (- 1, EINTR))"

text \<open>After the wait, the reaping loop does not end.\<close>

definition reaps_after_wait :: "os \<Rightarrow> addr \<Rightarrow> world \<Rightarrow> bool" where
  "reaps_after_wait os c s \<longleftrightarrow> (\<exists>r s1. bindr (get_ctx cx_origmask c) (pselect os) s = Some (Ret r, s1) \<and> reaps_forever os c s1)"

lemma patient_wait: "patient os \<Longrightarrow> \<not> reaps_after_wait os c s"
  using patient_ends by (auto simp: reaps_after_wait_def)

lemma wait_run:
  assumes snd: "sound n w0 c ts P s" and c: "g_context w0 = c" and os: "kernel_ok os"
    and cx: "deref (w_ctxs w0) c = Some cx"
  shows "(\<exists>s1. handled os (with_flags w0 (signals_at os s)) c ts P s1 \<and>
    (context_wait os call c s = whenr (cx_callback cx \<noteq> CB_NULL) (call (cx_callback cx) (cx_arg cx)) s1 \<or>
     context_wait os call c s = Some (Ret (), s1) \<and> \<not> interrupted os)) \<or>
    context_wait os call c s = None \<and> reaps_after_wait os c s"
proof -
  let ?w = "with_flags w0 (signals_at os s)"
  obtain x where x: "deref (w_ctxs s) c = Some x" "steady w0 s" using sound_log [OF snd c] .
  obtain s1 where d: "deliver os (signals_at os s) s = Some (Ret (), s1)" "sound n ?w c ts P s1"
    using deliver_sound [OF snd c, of os "signals_at os s"] by (rule returnsE) simp
  let ?call = "Pselect (cx_origmask x)"
  obtain r e where r: "os_call os (w_trace s1) ?call = (r, e)" by (cases "os_call os (w_trace s1) ?call")
  define s2 where "s2 = s1\<lparr>w_trace := (?call, r) # w_trace s1, w_errno := (if r < 0 then e else w_errno s1)\<rparr>"
  have s2: "sound n ?w c ts P s2" unfolding s2_def by (rule sound_call [OF d(2)]) simp_all
  have cw: "g_context ?w = c" using c by (simp add: with_flags_def)
  have at: "deref (w_ctxs s') c = Some y \<Longrightarrow> cx_callback y = cx_callback cx \<and> cx_arg y = cx_arg cx" if "sound m ?w c ts P' s'" for m P' s' y
  proof -
    have "steady ?w s'" "deref (w_ctxs ?w) c = Some cx" using that cx by (auto simp: sound_def supervised_def with_flags_def)
    then show "deref (w_ctxs s') c = Some y \<Longrightarrow> cx_callback y = cx_callback cx \<and> cx_arg y = cx_arg cx"
      using steady_conf plain_ctx_fields by blast
  qed
  have run: "context_wait os call c s = (if r < 0 \<and> w_errno s2 = EINTR then
       bindr (context_event_handler os c) (\<lambda>_.
       bindr (get_ctx cx_callback c) (\<lambda>cb.
       whenr (cb \<noteq> CB_NULL) (bindr (get_ctx cx_arg c) (call cb)))) s2
     else
       bindr (get_ctx cx_log c) (\<lambda>log.
       bz_log_error os log ''context.c'' 98 [Lit ''unexpected return value from pselect: '', Dec r]) s2)"
    using x(1) d(1) r
    by (simp add: context_wait_def get_ok(2) pselect_def bindr_assoc run_simps bindr_Ret signals_at_def s2_def Let_def)
  show ?thesis
  proof (cases "r < 0 \<and> w_errno s2 = EINTR")
    case True
    show ?thesis
    proof (cases "context_event_handler os c s2")
      case None
      then have "reaps_forever os c s2" using event_handler_outcome [OF s2 os] by auto
      moreover have "bindr (get_ctx cx_origmask c) (pselect os) s = Some (Ret r, s2)"
        using x(1) d(1) r by (simp add: get_ok(2) pselect_def run_simps bindr_Ret signals_at_def s2_def Let_def syscall_def)
      ultimately show ?thesis using run True None by (auto simp: reaps_after_wait_def bindr_def)
    next
      case (Some q)
    then obtain s3 where h: "context_event_handler os c s2 = Some (Ret BZ_OK, s3)" "handled os ?w c ts P s3"
      using event_handler_outcome [OF s2 os] by auto
    then obtain m P' where m: "sound m ?w c ts P' s3" by (auto simp: handled_def)
    obtain y where y: "deref (w_ctxs s3) c = Some y" using sound_log [OF m cw] .
    then have "context_wait os call c s = whenr (cx_callback cx \<noteq> CB_NULL) (call (cx_callback cx) (cx_arg cx)) s3"
      using run True h(1) at [OF m y] by (simp add: bindr_Ret get_ok(2) [OF y] whenr_def run_simps)
    with h(2) show ?thesis by blast
    qed
  next
    case False
    obtain y where y: "deref (w_ctxs s2) c = Some y" "valid_log s2 (cx_log y)" using sound_log [OF s2 cw] .
    from bz_log_quiet(2) [OF y(2), of "[Lit ''unexpected return value from pselect: '', Dec r]" os "''context.c''" 98]
    obtain s3 where l: "bz_log_error os (cx_log y) ''context.c'' 98 [Lit ''unexpected return value from pselect: '', Dec r] s2 = Some (Ret (), s3)"
      "quiet os s2 s3" by (auto elim!: returnsE)
    have "context_wait os call c s = Some (Ret (), s3)" using run False l(1) by (simp add: get_ok(2) [OF y(1)])
    moreover have "handled os ?w c ts P s3" using sound_quiet [OF l(2) s2] by (rule handled_here)
    moreover have "\<not> interrupted os"
    proof
      assume "interrupted os"
      then have "r = - 1 \<and> e = EINTR" using r by (simp add: interrupted_def)
      with False show False by (simp add: s2_def)
    qed
    ultimately show ?thesis by blast
  qed
qed

end
