(* ===== verification/Conf.thy ===== *)
theory Conf
  imports Task
begin

text \<open>
  \<open>src/conf.h\<close> and \<open>src/conf.c\<close>: the configuration object, and loading it from a file. The scanner and the
  parser are generated code: the calls of the scanner library are calls of \<open>os\<close>, and \<open>yyparse\<close>, called with
  the configuration and the bytes that the scanner reads, is a parameter (theory \<open>Conf_Parse\<close> has the one of the program).
\<close>

section \<open>Creation\<close>

text \<open>A new block becomes a \<open>conf_t\<close> with its context; the list head in it has indeterminate contents.\<close>

definition new_conf :: "os \<Rightarrow> addr \<Rightarrow> addr \<Rightarrow> world \<Rightarrow> world" where
  "new_conf os ctx c s = s\<lparr>w_confs := (w_confs s)(c \<mapsto> \<lparr>cf_ctx = ctx\<rparr>),
     w_lists := (w_lists s)(conf_tasks_list c \<mapsto> os_junk_list os (w_trace s))\<rparr>"

definition conf_create :: "os \<Rightarrow> addr \<Rightarrow> addr prog" where
  "conf_create os ctx =
     bindr (get_ctx cx_log ctx) (\<lambda>log.
     bindr (bz_alloc os sizeof_conf log) (\<lambda>cnf.
     bindr (whenr (cnf \<noteq> NULL)
       (bindr (modify (new_conf os ctx cnf)) (\<lambda>_.
        modifysome (\<lambda>s. do {
          ls \<leftarrow> INIT_LIST_HEAD (w_lists s) (conf_tasks_list cnf);
          Some (s\<lparr>w_lists := ls\<rparr>) })))) (\<lambda>_.
     ret cnf)))"

definition conf_close :: "addr \<Rightarrow> int prog" where
  "conf_close cnf = bindr (whenr (cnf \<noteq> NULL) (free cnf)) (\<lambda>_. ret BZ_OK)"

section \<open>Loading\<close>

text \<open>The pointer that \<open>mmap\<close> returns when it fails.\<close>

definition MAP_FAILED :: int where "MAP_FAILED = - 1"

text \<open>The result is the mapping and its length, 0 when there is none.\<close>

definition conf_mmap :: "os \<Rightarrow> addr \<Rightarrow> (int \<times> nat) prog" where
  "conf_mmap os path =
     bindr (get_str path) (\<lambda>name.
     bindr (syscall os (Open name [O_RDONLY] None)) (\<lambda>fd.
     if fd < 0 then
       bindr (strerror os) (\<lambda>e.
       bindr (bz_log_stderr os [Lit ''open conf file '', Chr (CHR 0x27), Str path, Chr (CHR 0x27), Lit '' failed: '', Txt e]) (\<lambda>_.
       ret (0, 0)))
     else
     bindr (gets (\<lambda>s. length (os_file os (w_trace s)))) (\<lambda>len.
     bindr (syscall os (Fstat fd)) (\<lambda>r.
     bindr (if r < 0 then ret 0 else syscall os (Mmap len fd)) (\<lambda>p.
     bindr (syscall os (Close fd)) (\<lambda>_.
     ret (if p = MAP_FAILED then 0 else p, len)))))))"

text \<open>Reading a mapping past the end of its file is an error of the machine. \<open>yy_scan_bytes\<close> ends the process with
  status 2 when it has no memory for its copy.\<close>

definition conf_load :: "os \<Rightarrow> (addr \<Rightarrow> string \<Rightarrow> int prog) \<Rightarrow> addr \<Rightarrow> addr \<Rightarrow> int prog" where
  "conf_load os yyparse cnf path =
     bindr (syscall os Flex_init) (\<lambda>r.
     if r \<noteq> 0 then ret BZ_ERROR else
     bindr (conf_mmap os path) (\<lambda>(confstr, len).
     if confstr = 0 then ret BZ_ERROR else
     bindr (gets (\<lambda>s. os_file os (w_trace s))) (\<lambda>bytes.
     if length bytes < len then stuck else
     bindr (syscall os (Flex_scan (take len bytes))) (\<lambda>r.
     if r < 0 then exit_with 2 else
     bindr (yyparse cnf (take len bytes)) (\<lambda>r.
     bindr (syscall os (Munmap len)) (\<lambda>_.
     bindr (syscall os Flex_delete) (\<lambda>_.
     bindr (syscall os Flex_destroy) (\<lambda>_.
     ret (if r = 0 then BZ_OK else BZ_ERROR)))))))))"

end
