(* ===== verification/Context_Life.thy ===== *)
theory Context_Life
  imports Supervisor Conf
begin

text \<open>
  The beginning and the end of a context: \<open>context_init\<close> creates the configuration and loads it, \<open>context_close\<close>
  gives back what the tasks own, the configuration and the context. (The blocks of the tasks themselves
  are not given back by the program.)
\<close>

definition context_init :: "os \<Rightarrow> (addr \<Rightarrow> string \<Rightarrow> int prog) \<Rightarrow> addr \<Rightarrow> int prog" where
  "context_init os yyparse ctx =
     bindr (conf_create os ctx) (\<lambda>cnf.
     bindr (set_ctx ctx (\<lambda>x. x\<lparr>cx_conf := cnf\<rparr>)) (\<lambda>_.
     bindr (get_ctx cx_conf ctx) (\<lambda>cnf.
     if cnf = NULL then ret BZ_ERROR else
     bindr (bindr (get_ctx cx_instance ctx) (get_inst bi_conf_file)) (\<lambda>path.
     conf_load os yyparse cnf path))))"

definition context_close :: "addr \<Rightarrow> unit prog" where
  "context_close ctx =
     bindr (get_ctx cx_conf ctx) (\<lambda>cnf.
     bindr (whenr (cnf \<noteq> NULL)
       (list_for_each w_lists (conf_tasks_list cnf) (\<lambda>pos. bindr (task_close (task_of_list pos)) (\<lambda>_. ret ())))) (\<lambda>_.
     bindr (bindr (get_ctx cx_conf ctx) conf_close) (\<lambda>_.
     free ctx)))"

end
