(* ===== verification/Getopt.thy ===== *)
theory Getopt
  imports Strutil
begin

text \<open>
  The options of \<open>src/main.c\<close>, and what the program uses of the C library to read them: \<open>getopt_long\<close> of the
  GNU C library (without \<open>POSIXLY_CORRECT\<close>), and \<open>atoi\<close>. A position in the arguments is the index of an
  argument and an offset in it.
\<close>

section \<open>The tables\<close>

record long_option =
  lo_name :: string
  lo_has_arg :: bool
  lo_val :: char

definition long_options :: "long_option list" where
  "long_options =
     [\<lparr>lo_name = ''help'', lo_has_arg = False, lo_val = CHR ''h''\<rparr>,
      \<lparr>lo_name = ''version'', lo_has_arg = False, lo_val = CHR ''v''\<rparr>,
      \<lparr>lo_name = ''test-conf'', lo_has_arg = False, lo_val = CHR ''t''\<rparr>,
      \<lparr>lo_name = ''not-daemonize'', lo_has_arg = False, lo_val = CHR ''D''\<rparr>,
      \<lparr>lo_name = ''prefix'', lo_has_arg = True, lo_val = CHR ''p''\<rparr>,
      \<lparr>lo_name = ''verbose'', lo_has_arg = True, lo_val = CHR ''l''\<rparr>,
      \<lparr>lo_name = ''conf-file'', lo_has_arg = True, lo_val = CHR ''c''\<rparr>,
      \<lparr>lo_name = ''log-file'', lo_has_arg = True, lo_val = CHR ''L''\<rparr>,
      \<lparr>lo_name = ''pid-file'', lo_has_arg = True, lo_val = CHR ''P''\<rparr>]"

definition short_options :: string where
  "short_options = ''hvtDp:l:c:L:P:''"

section \<open>One option\<close>

text \<open>An option with the position of its argument; \<open>?\<close> with the value of \<open>optopt\<close>; the end of the options.\<close>

datatype opt = Opt char "(nat \<times> nat) option" | Bad char | End_opts

text \<open>Whether a letter is an option, and whether it takes an argument.\<close>

fun short_has_arg :: "string \<Rightarrow> char \<Rightarrow> bool option" where
  "short_has_arg [] c = None"
| "short_has_arg (o1 # os) c =
     (if o1 = c \<and> c \<noteq> CHR '':'' then Some (case os of [] \<Rightarrow> False | o2 # _ \<Rightarrow> o2 = CHR '':'') else short_has_arg os c)"

text \<open>An exact name, or an abbreviation of only one.\<close>

definition find_long :: "long_option list \<Rightarrow> string \<Rightarrow> long_option option" where
  "find_long tbl name =
     (case filter (\<lambda>lo. lo_name lo = name) tbl of
        lo # _ \<Rightarrow> Some lo
      | [] \<Rightarrow> (case filter (\<lambda>lo. take (length name) (lo_name lo) = name) tbl of
          [] \<Rightarrow> None
        | lo # los \<Rightarrow> if list_all (\<lambda>lo'. lo_has_arg lo' = lo_has_arg lo \<and> lo_val lo' = lo_val lo) los then Some lo else None))"

definition is_option :: "string \<Rightarrow> bool" where
  "is_option a \<longleftrightarrow> a \<noteq> ''-'' \<and> take 1 a = ''-''"

text \<open>The next argument that is an option; the others are passed over.\<close>

definition next_option :: "string list \<Rightarrow> nat \<Rightarrow> nat" where
  "next_option args i = i + length (takeWhile (\<lambda>a. \<not> is_option a) (drop i args))"

definition getopt_short :: "string \<Rightarrow> string list \<Rightarrow> nat \<Rightarrow> nat \<Rightarrow> opt \<times> nat \<times> nat" where
  "getopt_short shorts args i j =
     (let c = args ! i ! j; rest = (j + 1 < length (args ! i)); next = (if rest then (i, j + 1) else (i + 1, 0)) in
      case short_has_arg shorts c of
        None \<Rightarrow> (Bad c, next)
      | Some False \<Rightarrow> (Opt c None, next)
      | Some True \<Rightarrow>
          if rest then (Opt c (Some (i, j + 1)), i + 1, 0)
          else if i + 1 < length args then (Opt c (Some (i + 1, 0)), i + 2, 0)
          else (Bad c, i + 1, 0))"

definition getopt_name :: "long_option list \<Rightarrow> string list \<Rightarrow> nat \<Rightarrow> opt \<times> nat \<times> nat" where
  "getopt_name longs args i =
     (let a = drop 2 (args ! i); name = takeWhile (\<lambda>c. c \<noteq> CHR ''='') a; value = (name \<noteq> a) in
      case find_long longs name of
        None \<Rightarrow> (Bad (CHR 0x00), i + 1, 0)
      | Some lo \<Rightarrow>
          if value then
            if lo_has_arg lo then (Opt (lo_val lo) (Some (i, length name + 3)), i + 1, 0)
            else (Bad (lo_val lo), i + 1, 0)
          else if lo_has_arg lo then
            if i + 1 < length args then (Opt (lo_val lo) (Some (i + 1, 0)), i + 2, 0)
            else (Bad (lo_val lo), i + 1, 0)
          else (Opt (lo_val lo) None, i + 1, 0))"

text \<open>From the position \<open>(i, j)\<close>: \<open>j\<close> is not 0 inside a group of letters.\<close>

definition getopt_long :: "string \<Rightarrow> long_option list \<Rightarrow> string list \<Rightarrow> nat \<times> nat \<Rightarrow> opt \<times> nat \<times> nat" where
  "getopt_long shorts longs args pos =
     (if snd pos \<noteq> 0 then getopt_short shorts args (fst pos) (snd pos) else
      let i = next_option args (fst pos) in
      if length args \<le> i \<or> args ! i = ''--'' then (End_opts, i, 0)
      else if take 2 (args ! i) = ''--'' then getopt_name longs args i
      else getopt_short shorts args i 1)"

section \<open>\<open>atoi\<close>\<close>

text \<open>Undefined for a number that an \<open>int\<close> does not hold.\<close>

definition is_space :: "char \<Rightarrow> bool" where
  "is_space c \<longleftrightarrow> c = CHR '' '' \<or> (9 \<le> (of_char c :: nat) \<and> (of_char c :: nat) \<le> 13)"

definition is_digit :: "char \<Rightarrow> bool" where
  "is_digit c \<longleftrightarrow> 48 \<le> (of_char c :: nat) \<and> (of_char c :: nat) \<le> 57"

definition atoi :: "string \<Rightarrow> int option" where
  "atoi t =
     (let t = dropWhile is_space t;
          neg = (take 1 t = ''-'');
          ds = takeWhile is_digit (if neg \<or> take 1 t = ''+'' then tl t else t);
          v = (if neg then - int (digits_value ds) else int (digits_value ds))
      in if - (2 ^ 31) \<le> v \<and> v < 2 ^ 31 then Some v else None)"

end
