(* ===== verification/Bitzer_Main.thy ===== *)
theory Bitzer_Main
  imports Context_Life Getopt
begin

text \<open>
  \<open>src/main.c\<close>. \<open>image\<close> is where the loader put the program: the addresses of its string literals, of the
  characters of its arguments, and of the variable \<open>bz\<close> of \<open>main\<close>.
\<close>

record image =
  im_install_prefix :: string
  im_prefix :: addr
  im_log_path :: addr
  im_conf_path :: addr
  im_pid_path :: addr
  im_args :: "string list"
  im_arg :: "nat \<Rightarrow> nat \<Rightarrow> addr"
  im_bz :: addr

definition BZ_LOG_DEFAULT :: int where "BZ_LOG_DEFAULT = BZ_LOG_INFO"
definition BZ_LOG_PATH :: string where "BZ_LOG_PATH = ''log/bitzer.log''"
definition BZ_PID_PATH :: string where "BZ_PID_PATH = ''log/bitzer.pid''"
definition BZ_CONF_PATH :: string where "BZ_CONF_PATH = ''conf/bitzer.conf''"
definition BZ_PROCTITLE :: string where "BZ_PROCTITLE = ''bitzer''"
definition BITZER_NAME :: string where "BITZER_NAME = ''bitzer''"
definition BITZER_VERSION :: string where "BITZER_VERSION = ''0.0.1''"
definition BZ_MAXHOSTNAMELEN :: nat where "BZ_MAXHOSTNAMELEN = 256"
definition BZ_INT64_LEN :: nat where "BZ_INT64_LEN = length ''-9223372036854775808''"
definition BZ_PATHSEP :: char where "BZ_PATHSEP = CHR ''/''"
definition BZ_LINEFEED :: string where "BZ_LINEFEED = [CHR 0x0A]"

definition set_inst :: "addr \<Rightarrow> (bitzer \<Rightarrow> bitzer) \<Rightarrow> unit prog" where
  "set_inst b u = modifysome (\<lambda>s. do { is \<leftarrow> poke (w_insts s) b u; Some (s\<lparr>w_insts := is\<rparr>) })"

section \<open>Options\<close>

definition quoted_option :: "char \<Rightarrow> piece list" where
  "quoted_option c = [Lit BITZER_NAME, Lit '': invalid option '', Chr (CHR 0x27), Chr (CHR ''-''), Chr c, Chr (CHR 0x27)]"

text \<open>Lines 127 to 148: the message for an option that \<open>getopt_long\<close> refuses.\<close>

definition bad_option :: "char \<Rightarrow> piece list" where
  "bad_option c =
     (if c = CHR ''p'' then [Lit BITZER_NAME, Lit '': option -'', Chr c, Lit '' requires a directory name'']
      else if c = CHR ''c'' \<or> c = CHR ''L'' \<or> c = CHR ''P'' then [Lit BITZER_NAME, Lit '': option -'', Chr c, Lit '' requires a file name'']
      else if c = CHR ''l'' then [Lit BITZER_NAME, Lit '': option -'', Chr c, Lit '' requires a number'']
      else quoted_option c)"

text \<open>Lines 78 to 154: the switch; the result says whether the loop goes on.\<close>

definition bz_option :: "os \<Rightarrow> addr \<Rightarrow> char \<Rightarrow> addr \<Rightarrow> bool prog" where
  "bz_option os bz c optarg =
     (if c = CHR ''h'' then bindr (modify (\<lambda>s. s\<lparr>show_version := True, show_help := True\<rparr>)) (\<lambda>_. ret True)
      else if c = CHR ''v'' then bindr (modify (\<lambda>s. s\<lparr>show_version := True\<rparr>)) (\<lambda>_. ret True)
      else if c = CHR ''t'' then bindr (modify (\<lambda>s. s\<lparr>test_conf := True\<rparr>)) (\<lambda>_. ret True)
      else if c = CHR ''D'' then bindr (modify (\<lambda>s. s\<lparr>daemonize := False\<rparr>)) (\<lambda>_. ret True)
      else if c = CHR ''p'' then
        bindr (set_inst bz (\<lambda>b. b\<lparr>bi_prefix := optarg\<rparr>)) (\<lambda>_.
        bindr (bindr (get_inst bi_prefix bz) get_str) (\<lambda>dir.
        bindr (syscall os (Access_X dir)) (\<lambda>r.
        if r < 0 then
          bindr (get_inst bi_prefix bz) (\<lambda>prefix.
          bindr (strerror os) (\<lambda>e.
          bindr (bz_log_stderr os [Lit ''access prefix directory ('', Str prefix, Lit '') failed: '', Txt e]) (\<lambda>_.
          ret False)))
        else ret True)))
      else if c = CHR ''l'' then
        bindr (bindr (get_str optarg) (\<lambda>t. getsome (\<lambda>_. atoi t))) (\<lambda>value.
        if value < 0 then
          bindr (bz_log_stderr os [Lit BITZER_NAME, Lit '': option -l requires a number'']) (\<lambda>_. ret False)
        else bindr (set_inst bz (\<lambda>b. b\<lparr>bi_log_level := value\<rparr>)) (\<lambda>_. ret True))
      else if c = CHR ''c'' then bindr (set_inst bz (\<lambda>b. b\<lparr>bi_conf_file := optarg\<rparr>)) (\<lambda>_. ret True)
      else if c = CHR ''L'' then bindr (set_inst bz (\<lambda>b. b\<lparr>bi_log_file := optarg\<rparr>)) (\<lambda>_. ret True)
      else if c = CHR ''P'' then bindr (set_inst bz (\<lambda>b. b\<lparr>bi_pid_file := optarg\<rparr>)) (\<lambda>_. ret True)
      else bindr (bz_log_stderr os (quoted_option (CHR 0x00))) (\<lambda>_. ret False))"

partial_function (option) bz_get_options_from :: "os \<Rightarrow> image \<Rightarrow> addr \<Rightarrow> nat \<times> nat \<Rightarrow> int prog" where
  "bz_get_options_from os img bz pos s =
     (case getopt_long short_options long_options (im_args img) pos of (r, pos') \<Rightarrow>
      case r of
        End_opts \<Rightarrow> Some (Ret BZ_OK, s)
      | Bad c \<Rightarrow> bindr (bz_log_stderr os (bad_option c)) (\<lambda>_. ret BZ_ERROR) s
      | Opt c arg \<Rightarrow>
          bindr (bz_option os bz c (case arg of None \<Rightarrow> NULL | Some (i, j) \<Rightarrow> im_arg img i j))
            (\<lambda>go s. if go then bz_get_options_from os img bz pos' s else Some (Ret BZ_ERROR, s)) s)"

definition bz_get_options :: "os \<Rightarrow> image \<Rightarrow> addr \<Rightarrow> int prog" where
  "bz_get_options os img bz =
     bindr (modify (\<lambda>s. s\<lparr>daemonize := True\<rparr>)) (\<lambda>_.
     bz_get_options_from os img bz (1, 0))"

definition bz_usage :: "image \<Rightarrow> piece list" where
  "bz_usage img =
     [Lit ''Options:'', Lit BZ_LINEFEED,
      Lit ''  -h, --help              : this help'', Lit BZ_LINEFEED,
      Lit ''  -v, --version           : show version and exit'', Lit BZ_LINEFEED,
      Lit ''  -t, --test-conf         : test configuration and exit'', Lit BZ_LINEFEED,
      Lit ''  -D, --not-daemonize     : do not daemonize'', Lit BZ_LINEFEED,
      Lit ''  -p, --prefix            : set prefix path (default: '', Lit (im_install_prefix img), Lit '')'', Lit BZ_LINEFEED,
      Lit ''  -l, --verbose           : set log level (default: '', Dec BZ_LOG_DEFAULT, Lit '', min: '', Dec BZ_LOG_EMERG,
      Lit '' (less verbose), max: '', Dec BZ_LOG_VERB, Lit '' (more verbose))'', Lit BZ_LINEFEED,
      Lit ''  -c, --conf-file         : set configuration file (default: '', Lit BZ_CONF_PATH, Lit '')'', Lit BZ_LINEFEED,
      Lit ''  -L, --log-file          : set log file (default: '', Lit BZ_LOG_PATH, Lit '')'', Lit BZ_LINEFEED,
      Lit ''  -P, --pid-file          : set pid file (default: '', Lit BZ_PID_PATH, Lit '')'']"

definition bz_show_usage :: "os \<Rightarrow> image \<Rightarrow> unit prog" where
  "bz_show_usage os img =
     bindr (bz_log_stderr os [Lit ''Usage: '', Lit BITZER_NAME, Lit '' [-hvtD] [-p prefix] [-l log_level] [-L log_file] [-P pid_file]'',
       Lit BZ_LINEFEED]) (\<lambda>_.
     bz_log_stderr os (bz_usage img))"

section \<open>The daemon\<close>

definition bz_daemonize :: "os \<Rightarrow> addr \<Rightarrow> int prog" where
  "bz_daemonize os log =
     (let failed = (\<lambda>line msg. bindr (strerror os) (\<lambda>e.
        bindr (bz_log_error os log ''main.c'' line [Lit msg, Lit '' failed: '', Txt e]) (\<lambda>_. ret BZ_ERROR))) in
      bindr (syscall os Fork) (\<lambda>pid.
      if pid = - 1 then failed 196 ''fork()'' else if pid \<noteq> 0 then exit_with 0 else
      bindr (syscall os Setsid) (\<lambda>r.
      if r < 0 then failed 204 ''setsid()'' else
      bindr (syscall os Fork) (\<lambda>pid.
      if pid = - 1 then failed 214 ''fork() again'' else if pid \<noteq> 0 then exit_with 0 else
      ret BZ_OK))))"

text \<open>The three calls of \<open>dup2\<close> are those of \<open>task_redirect_io\<close>.\<close>

definition bz_redirect_io :: "os \<Rightarrow> addr \<Rightarrow> int prog" where
  "bz_redirect_io os bz =
     bindr (syscall os (Umask 0)) (\<lambda>_.
     bindr (bindr (get_inst bi_log_file bz) get_str) (\<lambda>path.
     bindr (syscall os (Open path [O_RDWR, O_APPEND] None)) (\<lambda>fd.
     bindr (get_inst bi_log bz) (\<lambda>log.
     bindr (get_inst bi_log_file bz) (\<lambda>lf.
     if fd < 0 then
       bindr (strerror os) (\<lambda>e.
       bindr (bz_log_error os log ''main.c'' 232 [Lit ''open('', Chr (CHR 0x22), Str lf, Chr (CHR 0x22), Lit '') failed: '', Txt e]) (\<lambda>_.
       ret BZ_ERROR))
     else
     bindr (dup2_std os fd) (\<lambda>failed.
     case failed of
       Some std \<Rightarrow>
         bindr (strerror os) (\<lambda>e.
         bindr (bz_log_error os log ''main.c'' 260 [Lit ''dup2('', Dec fd, Lit '', '', Chr (CHR 0x22), Txt std, Chr (CHR 0x22),
           Lit '') failed: '', Txt e]) (\<lambda>_.
         bindr (syscall os (Close fd)) (\<lambda>_.
         ret BZ_ERROR)))
     | None \<Rightarrow>
         bindr (syscall os (Close fd)) (\<lambda>r.
         if r = - 1 then
           bindr (strerror os) (\<lambda>e.
           bindr (bz_log_error os log ''main.c'' 250 [Lit ''close('', Chr (CHR 0x22), Str lf, Chr (CHR 0x22), Lit '') failed: '', Txt e]) (\<lambda>_.
           ret BZ_ERROR))
         else ret BZ_OK)))))))"

section \<open>The pid file\<close>

definition bz_write_pidfile :: "os \<Rightarrow> addr \<Rightarrow> int prog" where
  "bz_write_pidfile os bz =
     bindr (get_inst bi_pid_file bz) (\<lambda>pf.
     bindr (get_inst bi_log bz) (\<lambda>log.
     bindr (get_str pf) (\<lambda>path.
     bindr (syscall os (Open path [O_WRONLY, O_CREAT, O_TRUNC] (Some mode_0644))) (\<lambda>fd.
     if fd < 0 then
       bindr (strerror os) (\<lambda>e.
       bindr (bz_log_error os log ''main.c'' 272 [Lit ''open pid file '', Chr (CHR 0x27), Str pf, Chr (CHR 0x27), Lit '' failed: '', Txt e]) (\<lambda>_.
       ret BZ_ERROR))
     else
     bindr (get_inst bi_pid bz) (\<lambda>pid.
     let (len, buf) = vsnprintf (word_of_nat (BZ_INT64_LEN + 1)) (int_digits pid) in
     if len < 0 then bindr (syscall os (Close fd)) (\<lambda>_. ret BZ_ERROR)
     else if int (BZ_INT64_LEN + 1) \<le> len then stuck
     else
     bindr (syscall os (Write fd (take (nat len) buf @ [CHR 0x0A]))) (\<lambda>r.
     if r < 0 then
       bindr (strerror os) (\<lambda>e.
       bindr (bz_log_error os log ''main.c'' 285 [Lit ''write pid file '', Chr (CHR 0x27), Str pf, Chr (CHR 0x27), Lit '' failed: '', Txt e]) (\<lambda>_.
       bindr (syscall os (Close fd)) (\<lambda>_.
       ret BZ_ERROR)))
     else bindr (syscall os (Close fd)) (\<lambda>_. ret BZ_OK)))))))"

definition bz_remove_pidfile :: "os \<Rightarrow> addr \<Rightarrow> int prog" where
  "bz_remove_pidfile os bz =
     bindr (bindr (get_inst bi_pid_file bz) get_str) (\<lambda>path.
     bindr (syscall os (Unlink path)) (\<lambda>r.
     ret (if r < 0 then BZ_ERROR else BZ_OK)))"

section \<open>The instance\<close>

text \<open>The buffer of the name holds at most \<open>BZ_MAXHOSTNAMELEN\<close> - 1 characters and a NUL.\<close>

definition bz_set_default_instance :: "os \<Rightarrow> image \<Rightarrow> addr \<Rightarrow> unit prog" where
  "bz_set_default_instance os img bz =
     bindr (set_inst bz (\<lambda>b. b\<lparr>bi_prefix := im_prefix img, bi_log_level := BZ_LOG_DEFAULT, bi_log_file := im_log_path img,
       bi_conf_file := im_conf_path img\<rparr>)) (\<lambda>_.
     bindr (gets (\<lambda>s. os_hostname os (w_trace s))) (\<lambda>name.
     bindr (syscall os Gethostname) (\<lambda>r.
     bindr (if r \<noteq> 0 then
         bindr (get_inst bi_log bz) (\<lambda>log.
         bindr (strerror os) (\<lambda>e.
         bindr (bz_log_warn os log ''main.c'' 309 [Lit ''gethostname() failed: '', Txt e]) (\<lambda>_.
         set_inst bz (\<lambda>b. b\<lparr>bi_hostname := ''unknown''\<rparr>))))
       else set_inst bz (\<lambda>b. b\<lparr>bi_hostname := name\<rparr>)) (\<lambda>_.
     set_inst bz (\<lambda>b. b\<lparr>bi_hostname := take (BZ_MAXHOSTNAMELEN - 1) (bi_hostname b), bi_pid := - 1, bi_pid_file := im_pid_path img,
       bi_log_file_alloc := False, bi_conf_file_alloc := False, bi_pid_file_alloc := False\<rparr>)))))"

definition bz_print_sysinfo :: "os \<Rightarrow> addr \<Rightarrow> unit prog" where
  "bz_print_sysinfo os bz =
     bindr (get_inst bi_log bz) (\<lambda>log.
     bindr (bz_log os log BZ_LOG_INFO ''main.c'' 326 [Lit ''bitzer version: '', Lit BITZER_VERSION]) (\<lambda>_.
     bindr (gets (\<lambda>s. os_uname os (w_trace s))) (\<lambda>(sysname, release, machine).
     bindr (syscall os Uname) (\<lambda>r.
     if r < 0 then ret ()
     else bz_log os log BZ_LOG_INFO ''main.c'' 331 [Lit ''OS: '', Txt sysname, Lit '' '', Txt release, Lit '' '', Txt machine]))))"

text \<open>The two loops of \<open>bz_setproctitle\<close>, on the characters of \<open>argv[0]\<close> and those of the title.\<close>

fun overwrite :: "string \<Rightarrow> string \<Rightarrow> string" where
  "overwrite [] ts = []"
| "overwrite (c # cs) (t # ts) = t # overwrite cs ts"
| "overwrite (c # cs) [] = CHR '' '' # overwrite cs []"

definition bz_setproctitle :: "image \<Rightarrow> string \<Rightarrow> unit prog" where
  "bz_setproctitle img title =
     (let a = im_arg img 0 0 in
      if im_args img = [] then stuck else
      bindr (get_str a) (\<lambda>arg.
      modifysome (\<lambda>s. do {
        bs \<leftarrow> deref (w_bytes s) a;
        Some (s\<lparr>w_bytes := (w_bytes s)(a \<mapsto> map Some (overwrite arg title) @ drop (length arg) bs)\<rparr>) })))"

text \<open>\<open>memcpy\<close> to the offset \<open>i\<close> of a buffer.\<close>

definition put_bytes :: "addr \<Rightarrow> nat \<Rightarrow> char option list \<Rightarrow> unit prog" where
  "put_bytes p i bs = modifysome (\<lambda>s. do {
     d \<leftarrow> deref (w_bytes s) p;
     if i + length bs \<le> length d
     then Some (s\<lparr>w_bytes := (w_bytes s)(p \<mapsto> take i d @ bs @ drop (i + length bs) d)\<rparr>) else None })"

text \<open>\<open>BZ_STRCAT_IF_RELATIVE\<close> for the member that \<open>get\<close> reads and \<open>upd\<close> assigns (with its flag); the result says
  whether the function goes on. Reading \<open>*(p - 1)\<close> is undefined when the prefix is empty.\<close>

definition bz_strcat_if_relative :: "os \<Rightarrow> addr \<Rightarrow> (bitzer \<Rightarrow> addr) \<Rightarrow> (addr \<Rightarrow> bitzer \<Rightarrow> bitzer) \<Rightarrow> bool prog" where
  "bz_strcat_if_relative os bz get upd =
     bindr (bindr (get_inst get bz) get_str) (\<lambda>path.
     if take 1 path = [BZ_PATHSEP] then ret True else
     bindr (bindr (get_inst bi_prefix bz) get_str) (\<lambda>prefix.
     let plen = length prefix; n = plen + length path + 2 in
     bindr (malloc os n) (\<lambda>name.
     if name = NULL then ret False else
     bindr (modify (new_bytes name n)) (\<lambda>_.
     bindr (put_bytes name 0 (map Some prefix)) (\<lambda>_.
     if plen = 0 then stuck else
     bindr (if last prefix \<noteq> BZ_PATHSEP then bindr (put_bytes name plen [Some BZ_PATHSEP]) (\<lambda>_. ret (plen + 1)) else ret plen) (\<lambda>p.
     bindr (put_bytes name p (cstr path)) (\<lambda>_.
     bindr (set_inst bz (upd name)) (\<lambda>_.
     ret True))))))))"

definition bz_init_instance :: "os \<Rightarrow> addr \<Rightarrow> int prog" where
  "bz_init_instance os bz =
     bindr (bz_strcat_if_relative os bz bi_log_file (\<lambda>p b. b\<lparr>bi_log_file := p, bi_log_file_alloc := True\<rparr>)) (\<lambda>ok. if \<not> ok then ret BZ_ERROR else
     bindr (bz_strcat_if_relative os bz bi_conf_file (\<lambda>p b. b\<lparr>bi_conf_file := p, bi_conf_file_alloc := True\<rparr>)) (\<lambda>ok. if \<not> ok then ret BZ_ERROR else
     bindr (bz_strcat_if_relative os bz bi_pid_file (\<lambda>p b. b\<lparr>bi_pid_file := p, bi_pid_file_alloc := True\<rparr>)) (\<lambda>ok. if \<not> ok then ret BZ_ERROR else
     bindr (bindr (get_inst bi_log_level bz) (\<lambda>level. bindr (get_inst bi_log_file bz) (bz_log_create os level))) (\<lambda>log.
     bindr (set_inst bz (\<lambda>b. b\<lparr>bi_log := log\<rparr>)) (\<lambda>_.
     if log = NULL then ret BZ_ERROR else
     bindr (bz_print_sysinfo os bz) (\<lambda>_.
     bindr (gets daemonize) (\<lambda>daemon.
     bindr (if daemon then bz_daemonize os log else ret BZ_OK) (\<lambda>r. if r \<noteq> BZ_OK then ret BZ_ERROR else
     bindr (if daemon then bz_redirect_io os bz else ret BZ_OK) (\<lambda>r. if r \<noteq> BZ_OK then ret BZ_ERROR else
     bindr (signal_init os log) (\<lambda>r. if r \<noteq> BZ_OK then ret BZ_ERROR else
     bindr (syscall os Getpid) (\<lambda>pid.
     bindr (set_inst bz (\<lambda>b. b\<lparr>bi_pid := pid\<rparr>)) (\<lambda>_.
     bindr (bz_write_pidfile os bz) (\<lambda>r.
     ret (if r \<noteq> BZ_OK then BZ_ERROR else BZ_OK))))))))))))))"

definition bz_free_if_alloc :: "addr \<Rightarrow> (bitzer \<Rightarrow> bool) \<Rightarrow> (bitzer \<Rightarrow> addr) \<Rightarrow> (bitzer \<Rightarrow> bitzer) \<Rightarrow> unit prog" where
  "bz_free_if_alloc bz alloc get clear =
     bindr (get_inst alloc bz) (\<lambda>b.
     whenr b (bindr (bindr (get_inst get bz) free) (\<lambda>_. set_inst bz clear)))"

definition bz_post_run :: "os \<Rightarrow> addr \<Rightarrow> unit prog" where
  "bz_post_run os bz =
     bindr (bindr (get_inst bi_log bz) signal_close) (\<lambda>_.
     bindr (bz_remove_pidfile os bz) (\<lambda>r.
     bindr (get_inst bi_log bz) (\<lambda>log.
     bindr (whenr (r \<noteq> BZ_OK \<and> log \<noteq> NULL)
       (bindr (get_inst bi_pid_file bz) (\<lambda>pf.
        bindr (strerror os) (\<lambda>e.
        bz_log_error os log ''main.c'' 418 [Lit ''remove pid file '', Chr (CHR 0x27), Str pf, Chr (CHR 0x27), Lit '' failed: '', Txt e])))) (\<lambda>_.
     bindr (whenr (log \<noteq> NULL)
       (bindr (bz_log os log BZ_LOG_INFO ''main.c'' 423 [Lit ''exit'']) (\<lambda>_.
        bz_log_close os log))) (\<lambda>_.
     bindr (bz_free_if_alloc bz bi_log_file_alloc bi_log_file (\<lambda>b. b\<lparr>bi_log_file := NULL\<rparr>)) (\<lambda>_.
     bindr (bz_free_if_alloc bz bi_conf_file_alloc bi_conf_file (\<lambda>b. b\<lparr>bi_conf_file := NULL\<rparr>)) (\<lambda>_.
     bz_free_if_alloc bz bi_pid_file_alloc bi_pid_file (\<lambda>b. b\<lparr>bi_pid_file := NULL\<rparr>))))))))"

section \<open>Running\<close>

definition bz_signal_callback :: "os \<Rightarrow> addr \<Rightarrow> unit prog" where
  "bz_signal_callback os arg =
     bindr (gets bz_quit) (\<lambda>quit.
     if quit then exit_with 2 else
     bindr (gets bz_terminate) (\<lambda>terminate.
     if terminate then
       bindr (bindr (gets g_context) context_close) (\<lambda>_.
       bindr (bz_post_run os arg) (\<lambda>_.
       exit_with 1))
     else ret ()))"

text \<open>A call through a pointer to a function.\<close>

definition call_pointer :: "os \<Rightarrow> callback \<Rightarrow> addr \<Rightarrow> unit prog" where
  "call_pointer os cb arg = (case cb of CB_NULL \<Rightarrow> stuck | CB_bz_signal \<Rightarrow> bz_signal_callback os arg)"

definition bz_run :: "os \<Rightarrow> (addr \<Rightarrow> string \<Rightarrow> int prog) \<Rightarrow> addr \<Rightarrow> unit prog" where
  "bz_run os yyparse bz =
     bindr (context_create os bz) (\<lambda>ctx.
     if ctx = NULL then ret () else
     bindr (context_init os yyparse ctx) (\<lambda>r.
     if r \<noteq> BZ_OK then context_close ctx else
     bindr (modify (\<lambda>s. s\<lparr>g_context := ctx\<rparr>)) (\<lambda>_.
     bindr (context_set_signal_callback ctx CB_bz_signal bz) (\<lambda>_.
     bindr (context_run os (call_pointer os) ctx) (\<lambda>_.
     context_close ctx)))))"

text \<open>\<open>main\<close>. The variable \<open>bz\<close> has indeterminate contents first.\<close>

definition bitzer_main :: "os \<Rightarrow> (addr \<Rightarrow> string \<Rightarrow> int prog) \<Rightarrow> image \<Rightarrow> unit prog" where
  "bitzer_main os yyparse img =
     (let bz = im_bz img in
      bindr (modify (\<lambda>s. s\<lparr>w_insts := (w_insts s)(bz \<mapsto> os_junk_inst os (w_trace s))\<rparr>)) (\<lambda>_.
      bindr (bz_set_default_instance os img bz) (\<lambda>_.
      bindr (bz_get_options os img bz) (\<lambda>r.
      if r \<noteq> BZ_OK then bindr (bz_show_usage os img) (\<lambda>_. exit_with 1) else
      bindr (gets show_version) (\<lambda>version.
      if version then
        bindr (bz_log_stderr os [Lit BITZER_NAME, Lit '': '', Lit BITZER_VERSION]) (\<lambda>_.
        bindr (gets show_help) (\<lambda>help.
        bindr (whenr help (bz_show_usage os img)) (\<lambda>_.
        exit_with 0)))
      else
      bindr (bz_init_instance os bz) (\<lambda>status.
      if status \<noteq> BZ_OK then bindr (bz_post_run os bz) (\<lambda>_. exit_with 1) else
      bindr (bz_setproctitle img BZ_PROCTITLE) (\<lambda>_.
      bindr (bz_run os yyparse bz) (\<lambda>_.
      bindr (bz_post_run os bz) (\<lambda>_.
      exit_with 1)))))))))"

end
