(* ===== verification/Shutdown.thy ===== *)
theory Shutdown
  imports Bitzer_Main
begin

text \<open>
  The end of the program. \<open>holdings\<close> says which blocks the context, its configuration and the tasks own,
  \<open>instance_ready\<close> which ones the instance does. \<open>context_close\<close> and \<open>bz_post_run\<close> release exactly these, each once.
\<close>

section \<open>Closing the context\<close>

text \<open>\<open>B\<close> gives the blocks that a task owns beside its own.\<close>

definition task_holds :: "world \<Rightarrow> (addr \<Rightarrow> addr list) \<Rightarrow> addr \<Rightarrow> bool" where
  "task_holds s B t \<longleftrightarrow> within s t (task_list t) \<and> (\<exists>k args envp. owns s t k args envp \<and> B t = task_blocks k args envp)"

definition all_blocks :: "(addr \<Rightarrow> addr list) \<Rightarrow> addr list \<Rightarrow> addr list" where
  "all_blocks B ts = concat (map B ts)"

definition holdings :: "world \<Rightarrow> addr \<Rightarrow> addr \<Rightarrow> addr list \<Rightarrow> (addr \<Rightarrow> addr list) \<Rightarrow> bool" where
  "holdings s c cnf ts B \<longleftrightarrow> separate s \<and> (\<exists>cx. deref (w_ctxs s) c = Some cx \<and> cx_conf cx = cnf) \<and> cnf \<noteq> NULL \<and>
     within s c c \<and> within s cnf cnf \<and> within s cnf (conf_tasks_list cnf) \<and>
     list_holds (w_lists s) (conf_tasks_list cnf) (map task_list ts) \<and> (\<forall>t \<in> set ts. task_holds s B t) \<and>
     distinct (c # cnf # ts @ all_blocks B ts)"

lemma all_blocks_append: "all_blocks B (ts @ us) = all_blocks B ts @ all_blocks B us"
  by (simp add: all_blocks_def)

lemma all_blocks_Cons: "all_blocks B (t # ts) = B t @ all_blocks B ts"
  by (simp add: all_blocks_def)

lemma queue_links_cong:
  assumes "\<And>q. q \<in> set (a # xs @ [b]) \<Longrightarrow> h' q = h q"
  shows "links h' a xs b = links h a xs b"
  by (rule links_cong) (use assms in \<open>auto simp: peek_def deref_def\<close>)

lemma list_holds_cong: "(\<And>q. q \<in> set (head # xs) \<Longrightarrow> h' q = h q) \<Longrightarrow> list_holds h' head xs = list_holds h head xs"
  unfolding list_holds_def by (rule conj_cong [OF refl], rule queue_links_cong) auto

text \<open>Releasing blocks that a task does not own leaves it alone.\<close>

lemma owns_release:
  assumes own: "owns s t k args envp" and sep: "separate s" and ps: "set ps \<inter> set (t # task_blocks k args envp) = {}"
  shows "owns (release_all ps s) t k args envp"
proof -
  have wi: "within s p p" "p \<notin> set ps" if "p \<in> set (t # task_blocks k args envp)" for p
    using own ps that by (auto simp: owns_def)
  note keep = release_all_keeps [OF sep wi]
  have v: "vector_at (release_all ps s) p qs" if "vector_at s p qs" "p \<in> set (t # task_blocks k args envp)" for p qs
    using that(1) keep(4) [OF that(2,2)] by (auto simp: vector_at_def deref_def split: if_splits)
  have e: "tk_args k \<in> set (task_blocks k args envp)" "tk_envp k \<noteq> NULL \<Longrightarrow> tk_envp k \<in> set (task_blocks k args envp)"
    by (auto simp: task_blocks_def owned_def)
  have "deref (w_tasks (release_all ps s)) t = Some k"
    using own keep(5) [of t] by (auto simp: owns_def deref_def split: if_splits)
  with own v e keep(2) show ?thesis unfolding owns_def by auto
qed

lemma context_close_run:
  assumes h: "holdings s c cnf ts B"
  shows "context_close c s = Some (Ret (), release_all (all_blocks B ts @ [cnf, c]) s)"
proof -
  obtain cx where sep: "separate s" and cx: "deref (w_ctxs s) c = Some cx" "cx_conf cx = cnf" and cnf: "cnf \<noteq> NULL"
    and w: "within s c c" "within s cnf cnf" "within s cnf (conf_tasks_list cnf)"
    and ls: "list_holds (w_lists s) (conf_tasks_list cnf) (map task_list ts)" and hold: "\<And>t. t \<in> set ts \<Longrightarrow> task_holds s B t"
    and dist: "distinct (c # cnf # ts @ all_blocks B ts)" using h by (auto simp: holdings_def)
  have c: "c \<noteq> NULL" using cx(1) by (auto dest: deref_not_NULL)
  let ?I = "\<lambda>ps s'. \<exists>us. ps = map task_list us \<and> s' = release_all (all_blocks B us) s \<and> set us \<subseteq> set ts"
  have sub: "set (all_blocks B us) \<subseteq> set (all_blocks B ts)" if "set us \<subseteq> set ts" for us
    using that by (auto simp: all_blocks_def)
  have "returns (list_for_each w_lists (conf_tasks_list cnf) (\<lambda>pos. bindr (task_close (task_of_list pos)) (\<lambda>_. ret ())))
      (\<lambda>_. ?I (map task_list ts)) s"
  proof (rule list_for_each_returns [where I = ?I])
    show "?I [] s" by (intro exI [of _ "[]"]) (simp add: all_blocks_def)
  next
    fix ps s'
    assume "?I ps s'"
    then obtain us where us: "s' = release_all (all_blocks B us) s" "set us \<subseteq> set ts" by auto
    have "w_lists s' q = w_lists s q" if q: "q \<in> set (conf_tasks_list cnf # map task_list ts)" for q
    proof -
      from q consider "q = conf_tasks_list cnf" | t where "t \<in> set ts" "q = task_list t" by auto
      then obtain b where "within s b q" "b \<in> set (c # cnf # ts)"
        using w hold by (cases, force) (force simp: task_holds_def)
      moreover from this(2) have "b \<notin> set (all_blocks B us)" using dist sub [OF us(2)] by auto
      ultimately show ?thesis using release_all_keeps(6) [OF sep] us(1) by auto
    qed
    then show "list_holds (w_lists s') (conf_tasks_list cnf) (map task_list ts)" using ls list_holds_cong by metis
  next
    fix ps x rest s'
    assume split: "map task_list ts = ps @ x # rest" and "?I ps s'"
    then obtain us where us: "ps = map task_list us" "s' = release_all (all_blocks B us) s" by auto
    obtain t vs where t: "ts = us @ t # vs" "x = task_list t"
    proof -
      obtain us' vs' where a: "ts = us' @ vs'" "map task_list us' = ps" "map task_list vs' = x # rest"
        using split by (metis map_eq_append_conv)
      moreover have "us' = us" using a(2) us(1) inj_map_eq_map [OF task_list_inj] by metis
      ultimately show thesis using that by auto
    qed
    obtain k args envp where own: "owns s t k args envp" "B t = task_blocks k args envp"
      using hold [of t] t(1) by (auto simp: task_holds_def)
    have d: "set (all_blocks B us) \<inter> set (t # task_blocks k args envp) = {}"
      using dist unfolding t(1) all_blocks_append all_blocks_Cons own(2) by auto
    have "task_close t s' = Some (Ret BZ_OK, release_all (B t) s')"
      unfolding us(2) own(2) by (rule task_close_run [OF owns_release [OF own(1) sep d]]) (use sep in simp)
    then have "bindr (task_close (task_of_list x)) (\<lambda>_. ret ()) s' = Some (Ret (), release_all (B t) s')"
      by (simp add: t(2) bindr_Ret run_simps)
    moreover have "?I (ps @ [x]) (release_all (B t) s')"
      by (intro exI [of _ "us @ [t]"]) (use us t in \<open>auto simp: all_blocks_def\<close>)
    ultimately show "returns (bindr (task_close (task_of_list x)) (\<lambda>_. ret ())) (\<lambda>_. ?I (ps @ [x])) s'"
      by (simp add: returns_def)
  qed
  then obtain us where run: "list_for_each w_lists (conf_tasks_list cnf) (\<lambda>pos. bindr (task_close (task_of_list pos)) (\<lambda>_. ret ())) s
      = Some (Ret (), release_all (all_blocks B us) s)" "map task_list ts = map task_list us" by (auto elim!: returnsE)
  have us: "us = ts" using run(2) inj_map_eq_map [OF task_list_inj] by metis
  let ?s = "release_all (all_blocks B ts) s"
  have keep: "w_ctxs ?s c = w_ctxs s c" using release_all_keeps(10) [OF sep w(1)] dist by auto
  have cx': "deref (w_ctxs ?s) c = Some cx" using cx(1) keep by (auto simp: deref_def split: if_splits)
  have live: "cnf \<in> live ?s" "c \<in> live (release cnf ?s)" using within_live w dist by auto
  show ?thesis
    unfolding context_close_def get_ok(2) [OF cx(1)] cx(2)
    using cnf c live run(1) cx(2) us
    by (simp add: bindr_Ret bindr_assoc get_ok(2) [OF cx'] conf_close_def free_live)
qed

section \<open>Closing the instance\<close>

text \<open>The file names that the instance allocated, in the order in which they are freed.\<close>

definition file_blocks :: "bitzer \<Rightarrow> addr list" where
  "file_blocks b = (if bi_log_file_alloc b then [bi_log_file b] else []) @
     (if bi_conf_file_alloc b then [bi_conf_file b] else []) @ (if bi_pid_file_alloc b then [bi_pid_file b] else [])"

text \<open>The instance lies in the block \<open>home\<close>, with the names that were not allocated.\<close>

definition instance_ready :: "world \<Rightarrow> addr \<Rightarrow> bitzer \<Rightarrow> addr \<Rightarrow> bool" where
  "instance_ready s bz b home \<longleftrightarrow> separate s \<and> deref (w_insts s) bz = Some b \<and> within s home bz \<and>
     str_at s (bi_pid_file b) \<noteq> None \<and> within s (if bi_pid_file_alloc b then bi_pid_file b else home) (bi_pid_file b) \<and>
     valid_log s (bi_log b) \<and>
     distinct (home # bi_log b # file_blocks b) \<and> (\<forall>p \<in> set (bi_log b # file_blocks b). p \<noteq> NULL \<and> within s p p)"

text \<open>What the steps of \<open>bz_post_run\<close> leave: the blocks \<open>ps\<close> are gone, the instance is as \<open>b'\<close>, and since the removal
  of the pid file only writes and one \<open>close\<close> were made.\<close>

definition closing_call :: "call \<times> int \<Rightarrow> bool" where
  "closing_call e \<longleftrightarrow> is_write (fst e) \<or> (\<exists>fd. fst e = Close fd)"

definition winding :: "world \<Rightarrow> addr \<Rightarrow> addr \<Rightarrow> string \<Rightarrow> addr list \<Rightarrow> bitzer \<Rightarrow> world \<Rightarrow> bool" where
  "winding s bz home path ps b s' \<longleftrightarrow> separate s' \<and> deref (w_insts s') bz = Some b \<and> within s' home bz \<and>
     w_blocks s' = filter (\<lambda>e. fst e \<notin> set ps) (w_blocks s) \<and>
     (\<exists>tr r. w_trace s' = tr @ (Unlink path, r) # w_trace s \<and> list_all closing_call tr)"

lemma memory_upd [simp]:
  "separate (s\<lparr>w_insts := h\<rparr>) = separate s" "separate (s\<lparr>w_trace := tr\<rparr>) = separate s" "separate (s\<lparr>w_errno := e\<rparr>) = separate s"
  "within (s\<lparr>w_insts := h\<rparr>) = within s" "within (s\<lparr>w_trace := tr\<rparr>) = within s" "within (s\<lparr>w_errno := e\<rparr>) = within s"
  by (simp_all add: separate_def within_def fun_eq_iff)

lemma live_winding: "winding s bz home path ps b s' \<Longrightarrow> live s' = live s - set ps"
  by (auto simp: winding_def live_def)

lemma winding_quiet:
  assumes "quiet os s' s''" "winding s bz home path ps b s'"
  shows "winding s bz home path ps b s''"
proof -
  obtain tr where tr: "w_trace s'' = tr @ w_trace s'" "list_all (\<lambda>e. is_write (fst e)) tr" using assms(1) by (auto simp: quiet_def)
  then have "list_all closing_call tr" by (auto simp: closing_call_def list_all_iff)
  with tr(1) assms(2) quiet_fields(1,9) [OF assms(1)] show ?thesis
    by (auto simp: winding_def separate_def within_def) (metis append.assoc list_all_append)
qed

lemma release_closes:
  assumes "winding s bz home path ps b s'" "p \<noteq> home" "p \<in> live s'"
  shows "winding s bz home path (p # ps) b (release p s')"
proof -
  have "w_insts (release p s') bz = w_insts s' bz" using assms release_same(9) [of s' home bz p] by (auto simp: winding_def)
  then have "deref (w_insts (release p s')) bz = Some b" using assms(1) by (auto simp: winding_def deref_def split: if_splits)
  with assms show ?thesis
    by (auto simp: winding_def within_release release_blocks intro: filter_cong)
qed

lemma close_step:
  assumes "winding s bz home path ps b s'"
  shows "winding s bz home path ps b (s'\<lparr>w_trace := (Close fd, r) # w_trace s', w_errno := e\<rparr>)"
proof -
  obtain tr x where "w_trace s' = tr @ (Unlink path, x) # w_trace s" "list_all closing_call tr" using assms by (auto simp: winding_def)
  then have "(Close fd, r) # w_trace s' = ((Close fd, r) # tr) @ (Unlink path, x) # w_trace s \<and> list_all closing_call ((Close fd, r) # tr)"
    by (simp add: closing_call_def)
  then show ?thesis using assms unfolding winding_def by fastforce
qed

lemma log_close_winds:
  assumes w: "winding s bz home path ps b s'" and log: "valid_log s' log" "log \<in> live s'" "log \<noteq> home" "log \<noteq> NULL"
  shows "returns (bz_log_close os log) (\<lambda>_ s''. winding s bz home path (log # ps) b s'') s'"
proof -
  obtain l where l: "deref (w_logs s') log = Some l" using log by (auto simp: valid_log_def)
  have fd: "peek lg_fd (w_logs s') log = Some (lg_fd l)" using l by (simp add: peek_def)
  obtain r e where r: "os_call os (w_trace s') (Close (lg_fd l)) = (r, e)" by (cases "os_call os (w_trace s') (Close (lg_fd l))")
  let ?s1 = "s'\<lparr>w_trace := (Close (lg_fd l), r) # w_trace s', w_errno := (if r < 0 then e else w_errno s')\<rparr>"
  have "log \<in> live ?s1" using log(2) by (simp add: live_def)
  then have f: "free log ?s1 = Some (Ret (), release log ?s1)" "free log s' = Some (Ret (), release log s')"
    using log free_live by simp_all
  have "winding s bz home path (log # ps) b (release log ?s1)"
    by (rule release_closes [OF close_step [OF w]]) (use log in \<open>simp_all add: live_def\<close>)
  moreover have "winding s bz home path (log # ps) b (release log s')" by (rule release_closes [OF w]) (use log in simp_all)
  ultimately show ?thesis using log(4) f r
    by (cases "lg_fd l > 0 \<and> lg_fd l \<noteq> STDERR_FILENO") (auto simp: returns_def bz_log_close_def run_simps fd bindr_assoc)
qed

lemma free_if_alloc_winds:
  assumes w: "winding s bz home path ps b s'" and F: "F = (if alloc b then [get b] else [])" "set F \<subseteq> live s' - {NULL, home}"
  shows "\<exists>s''. bz_free_if_alloc bz alloc get clear s' = Some (Ret (), s'') \<and>
    winding s bz home path (F @ ps) (if alloc b then clear b else b) s''"
proof (cases "alloc b")
  case True
  then have p: "get b \<noteq> NULL" "get b \<noteq> home" "get b \<in> live s'" and F: "F = [get b]" using F by auto
  have b: "deref (w_insts s') bz = Some b" using w by (simp add: winding_def)
  let ?s1 = "release (get b) s'"
  have w1: "winding s bz home path (get b # ps) b ?s1" by (rule release_closes [OF w]) (use p in simp_all)
  then have b1: "deref (w_insts ?s1) bz = Some b" by (simp add: winding_def)
  have "winding s bz home path (get b # ps) (clear b) (?s1\<lparr>w_insts := (w_insts ?s1)(bz \<mapsto> clear b)\<rparr>)"
    using w1 deref_not_NULL [OF b1] by (simp add: winding_def deref_upd)
  moreover have "set_inst bz clear ?s1 = Some (Ret (), ?s1\<lparr>w_insts := (w_insts ?s1)(bz \<mapsto> clear b)\<rparr>)"
    using b1 by (simp add: set_inst_def modifysome_def poke_def)
  ultimately show ?thesis using True p b F
    by (simp add: bz_free_if_alloc_def get_ok(3) [OF b] bindr_assoc bindr_Ret free_live)
next
  case False
  have "deref (w_insts s') bz = Some b" using w by (simp add: winding_def)
  with False w F show ?thesis by (simp add: bz_free_if_alloc_def get_ok(3) run_simps)
qed

lemma post_run_winds:
  assumes ready: "instance_ready s bz b home" and path: "str_at s (bi_pid_file b) = Some path"
  shows "returns (bz_post_run os bz) (\<lambda>_ s'. \<exists>b'. winding s bz home path (bi_log b # file_blocks b) b' s') s"
proof -
  let ?log = "bi_log b"
  have b: "deref (w_insts s) bz = Some b" and sep: "separate s" and home: "within s home bz" and log: "valid_log s ?log"
    and dist: "distinct (home # ?log # file_blocks b)" and blk: "\<And>p. p \<in> set (?log # file_blocks b) \<Longrightarrow> p \<noteq> NULL \<and> p \<in> live s"
    using ready within_live by (auto simp: instance_ready_def)
  obtain r e where r: "os_call os (w_trace s) (Unlink path) = (r, e)" by (cases "os_call os (w_trace s) (Unlink path)")
  define s1 where "s1 = s\<lparr>w_trace := (Unlink path, r) # w_trace s, w_errno := (if r < 0 then e else w_errno s)\<rparr>"
  have w1: "winding s bz home path [] b s1"
    using sep b home unfolding winding_def s1_def by auto
  have bs1: "deref (w_insts s1) bz = Some b" using w1 by (simp add: winding_def)
  have lg: "?log \<noteq> NULL" using blk by auto
  have log1: "valid_log s1 ?log" using log by (simp add: s1_def valid_log_def)
  let ?msg = "[Lit ''remove pid file '', Chr (CHR 0x27), Str (bi_pid_file b), Chr (CHR 0x27), Lit '' failed: '', Txt (os_strerror os (w_errno s1))]"
  let ?err = "whenr (r < 0 \<and> ?log \<noteq> NULL) (bz_log_error os ?log ''main.c'' 418 ?msg)"
  have ex_quiet: "\<exists>s2. ?err s1 = Some (Ret (), s2) \<and> quiet os s1 s2"
  proof (cases "r < 0 \<and> ?log \<noteq> NULL")
    case True
    have "render s1 ?msg \<noteq> None" using path by (auto simp: s1_def str_at_def)
    from bz_log_quiet(2) [OF log1 this] True show ?thesis by (auto simp: returns_def)
  next
    case False
    then have "?err s1 = ret () s1" using lg by simp
    then show ?thesis by (auto simp: run_simps intro: exI [of _ s1])
  qed
  then obtain s2 where s2: "?err s1 = Some (Ret (), s2)" "quiet os s1 s2" by auto
  have log2: "valid_log s2 ?log" using quiet_valid_log [OF s2(2) log1] .
  obtain s3 where s3: "bz_log os ?log BZ_LOG_INFO ''main.c'' 423 [Lit ''exit''] s2 = Some (Ret (), s3)" "quiet os s2 s3"
    using bz_log_quiet(1) [OF log2, of "[Lit ''exit'']" BZ_LOG_INFO os "''main.c''" 423] by (auto elim!: returnsE)
  have w3: "winding s bz home path [] b s3" using winding_quiet [OF s3(2) winding_quiet [OF s2(2) w1]] .
  obtain s4 where s4: "bz_log_close os ?log s3 = Some (Ret (), s4)" "winding s bz home path [?log] b s4"
    using log_close_winds [OF w3 quiet_valid_log [OF s3(2) log2], of os] blk [of ?log] dist live_winding [OF w3] by (auto elim!: returnsE)
  define f1 f2 f3 where f: "f1 = (if bi_log_file_alloc b then [bi_log_file b] else [])"
    "f2 = (if bi_conf_file_alloc b then [bi_conf_file b] else [])" "f3 = (if bi_pid_file_alloc b then [bi_pid_file b] else [])"
  have fb: "file_blocks b = f1 @ f2 @ f3" by (simp add: file_blocks_def f)
  have free: "set f1 \<subseteq> live s - {NULL, home, ?log}" "set f2 \<subseteq> live s - {NULL, home, ?log} - set f1"
    "set f3 \<subseteq> live s - {NULL, home, ?log} - set f1 - set f2"
    using dist blk unfolding fb by auto
  define b1 where "b1 = (if bi_log_file_alloc b then b\<lparr>bi_log_file := NULL\<rparr> else b)"
  have "set f1 \<subseteq> live s4 - {NULL, home}" using free live_winding [OF s4(2)] by auto
  from free_if_alloc_winds [where alloc = bi_log_file_alloc and get = bi_log_file and F = f1 and clear = "\<lambda>b. b\<lparr>bi_log_file := NULL\<rparr>", OF s4(2) f(1) this]
  obtain s5 where s5: "bz_free_if_alloc bz bi_log_file_alloc bi_log_file (\<lambda>b. b\<lparr>bi_log_file := NULL\<rparr>) s4 = Some (Ret (), s5)"
    "winding s bz home path (f1 @ [?log]) b1 s5" by (auto simp: b1_def)
  define b2 where "b2 = (if bi_conf_file_alloc b1 then b1\<lparr>bi_conf_file := NULL\<rparr> else b1)"
  have "f2 = (if bi_conf_file_alloc b1 then [bi_conf_file b1] else [])" "set f2 \<subseteq> live s5 - {NULL, home}"
    using free live_winding [OF s5(2)] by (auto simp: f(2) b1_def)
  from free_if_alloc_winds [where alloc = bi_conf_file_alloc and get = bi_conf_file and F = f2 and clear = "\<lambda>b. b\<lparr>bi_conf_file := NULL\<rparr>", OF s5(2) this]
  obtain s6 where s6: "bz_free_if_alloc bz bi_conf_file_alloc bi_conf_file (\<lambda>b. b\<lparr>bi_conf_file := NULL\<rparr>) s5 = Some (Ret (), s6)"
    "winding s bz home path (f2 @ f1 @ [?log]) b2 s6" by (auto simp: b2_def)
  have "f3 = (if bi_pid_file_alloc b2 then [bi_pid_file b2] else [])" "set f3 \<subseteq> live s6 - {NULL, home}"
    using free live_winding [OF s6(2)] by (auto simp: f(3) b2_def b1_def)
  from free_if_alloc_winds [where alloc = bi_pid_file_alloc and get = bi_pid_file and F = f3 and clear = "\<lambda>b. b\<lparr>bi_pid_file := NULL\<rparr>", OF s6(2) this]
  obtain s7 b3 where s7: "bz_free_if_alloc bz bi_pid_file_alloc bi_pid_file (\<lambda>b. b\<lparr>bi_pid_file := NULL\<rparr>) s6 = Some (Ret (), s7)"
    "winding s bz home path (f3 @ f2 @ f1 @ [?log]) b3 s7" by auto
  have w7: "winding s bz home path (?log # file_blocks b) b3 s7" using s7(2) unfolding winding_def fb by (simp add: disj_ac conj_ac)
  have run1: "bz_remove_pidfile os bz s = Some (Ret (if r < 0 then BZ_ERROR else BZ_OK), s1)"
    using r by (simp add: bz_remove_pidfile_def bindr_assoc get_ok(3) [OF b] get_ok(4) [OF path] run_simps s1_def)
  have run2: "whenr (r < 0)
       (bindr (get_inst bi_pid_file bz) (\<lambda>pf. bindr (strerror os) (\<lambda>e.
        bz_log_error os ?log ''main.c'' 418 [Lit ''remove pid file '', Chr (CHR 0x27), Str pf, Chr (CHR 0x27), Lit '' failed: '', Txt e]))) s1
      = Some (Ret (), s2)"
    using s2(1) lg by (cases "r < 0") (simp_all add: get_ok(3) [OF bs1] strerror_def run_simps)
  have run3: "bindr (bz_log os ?log BZ_LOG_INFO ''main.c'' 423 [Lit ''exit'']) (\<lambda>_. bz_log_close os ?log) s2 = Some (Ret (), s4)"
    using s3(1) s4(1) by (simp add: bindr_Ret)
  have ok: "((if r < 0 then BZ_ERROR else BZ_OK) \<noteq> BZ_OK) = (r < 0)" by simp
  have "bz_post_run os bz s = Some (Ret (), s7)"
    unfolding bz_post_run_def bindr_assoc signal_close_def get_ok(3) [OF b] bindr_ret
    using run1 lg run2 run3 s5(1) s6(1) s7(1) by (simp add: bindr_Ret get_ok(3) [OF bs1] ok)
  then show ?thesis using w7 by (auto simp: returns_def)
qed

section \<open>The signal callback\<close>

text \<open>What the program gives back when it ends: what the tasks own, the configuration, the context, the log, the file names.
  The structures of the tasks are not among it: \<open>context_close\<close> does not free them.\<close>

definition estate :: "addr \<Rightarrow> addr \<Rightarrow> addr list \<Rightarrow> (addr \<Rightarrow> addr list) \<Rightarrow> bitzer \<Rightarrow> addr list" where
  "estate c cnf ts B b = all_blocks B ts @ [cnf, c] @ bi_log b # file_blocks b"

lemma instance_release:
  assumes r: "instance_ready s bz b home" and ps: "set ps \<inter> set (home # bi_log b # file_blocks b) = {}"
  shows "instance_ready (release_all ps s) bz b home"
    "str_at (release_all ps s) (bi_pid_file b) = str_at s (bi_pid_file b)"
proof -
  let ?home = "if bi_pid_file_alloc b then bi_pid_file b else home"
  have sep: "separate s" and home: "within s home bz" "within s ?home (bi_pid_file b)" and inst: "deref (w_insts s) bz = Some b"
    and log: "valid_log s (bi_log b)" and blk: "\<And>p. p \<in> set (bi_log b # file_blocks b) \<Longrightarrow> p \<noteq> NULL \<and> within s p p"
    using r by (auto simp: instance_ready_def)
  have h: "home \<notin> set ps" "bi_log b \<notin> set ps" "?home \<notin> set ps"
    using ps by (auto simp: file_blocks_def)
  show str: "str_at (release_all ps s) (bi_pid_file b) = str_at s (bi_pid_file b)"
    using release_all_keeps(3) [OF sep home(2) h(3)] by (simp add: str_at_def deref_def)
  have "deref (w_insts (release_all ps s)) bz = Some b"
    using inst release_all_keeps(11) [OF sep home(1) h(1)] by (auto simp: deref_def split: if_splits)
  moreover have "valid_log (release_all ps s) (bi_log b)"
    using log release_all_keeps(8) [OF sep _ h(2)] blk by (auto simp: valid_log_def deref_def)
  moreover have "within (release_all ps s) p p" if "p \<in> set (bi_log b # file_blocks b)" for p
  proof -
    have "p \<notin> set ps" "within s p p" using that ps blk by auto
    then show ?thesis using release_all_keeps(2) [OF sep] by blast
  qed
  ultimately show "instance_ready (release_all ps s) bz b home"
    using r sep str release_all_keeps(2) [OF sep home(1) h(1)] release_all_keeps(2) [OF sep home(2) h(3)]
    by (simp add: instance_ready_def)
qed

lemma terminate_run:
  assumes h: "holdings s c cnf ts B" and r: "instance_ready s bz b home" and c: "g_context s = c"
    and apart: "set (all_blocks B ts @ [cnf, c]) \<inter> set (home # bi_log b # file_blocks b) = {}"
    and path: "str_at s (bi_pid_file b) = Some path" and f: "\<not> bz_quit s" "bz_terminate s"
  shows "ends (bz_signal_callback os bz) (\<lambda>x s'. x = Exit 1 \<and>
    w_blocks s' = filter (\<lambda>e. fst e \<notin> set (estate c cnf ts B b)) (w_blocks s) \<and>
    (\<exists>tr r. w_trace s' = tr @ (Unlink path, r) # w_trace s \<and> list_all closing_call tr)) s"
proof -
  let ?s1 = "release_all (all_blocks B ts @ [cnf, c]) s"
  have "instance_ready ?s1 bz b home" "str_at ?s1 (bi_pid_file b) = Some path"
    using instance_release [OF r apart] path by simp_all
  from post_run_winds [OF this, of os] obtain b' s2 where
    s2: "bz_post_run os bz ?s1 = Some (Ret (), s2)" "winding ?s1 bz home path (bi_log b # file_blocks b) b' s2"
    by (auto elim!: returnsE)
  have "bz_signal_callback os bz s = Some (Exit 1, s2)"
    using f context_close_run [OF h] s2(1) c
    by (simp add: bz_signal_callback_def bindr_assoc run_simps bindr_Ret exit_with_def)
  moreover have "(\<lambda>e. fst e \<notin> set (all_blocks B ts @ [cnf, c]) \<and> fst e \<notin> set (bi_log b # file_blocks b)) =
      (\<lambda>e :: addr \<times> nat. fst e \<notin> set (estate c cnf ts B b))" by (auto simp: estate_def fun_eq_iff)
  then have "w_blocks s2 = filter (\<lambda>e. fst e \<notin> set (estate c cnf ts B b)) (w_blocks s)"
    using s2(2) by (simp only: winding_def release_all_blocks filter_filter simp_thms)
  ultimately show ?thesis using s2(2) by (simp add: ends_def winding_def)
qed

text \<open>Supervising keeps all of this.\<close>

lemma plain_task_blocks: "plain_task k' = plain_task k \<Longrightarrow> task_blocks k' = task_blocks k \<and> tk_args k' = tk_args k \<and> tk_envp k' = tk_envp k"
proof -
  have f: "tk_args (plain_task k) = tk_args k" "tk_envp (plain_task k) = tk_envp k" "tk_name (plain_task k) = tk_name k"
    "tk_dir (plain_task k) = tk_dir k" "tk_log_path (plain_task k) = tk_log_path k" for k by (simp_all add: plain_task_def)
  assume "plain_task k' = plain_task k"
  then have "tk_args k' = tk_args k" "tk_envp k' = tk_envp k" "tk_name k' = tk_name k" "tk_dir k' = tk_dir k" "tk_log_path k' = tk_log_path k"
    using f by metis+
  then show ?thesis by (simp add: task_blocks_def fun_eq_iff)
qed

lemma steady_blocks: "steady s s' \<Longrightarrow> separate s' = separate s \<and> within s' = within s \<and> str_at s' = str_at s"
  by (simp add: steady_def separate_def within_def [abs_def] str_at_def [abs_def])

lemma steady_holds:
  assumes "steady s s'" "task_holds s B t"
  shows "task_holds s' B t"
proof -
  obtain k args envp where own: "owns s t k args envp" "B t = task_blocks k args envp" and w: "within s t (task_list t)"
    using assms(2) by (auto simp: task_holds_def)
  have t: "deref (w_tasks s) t = Some k" using own(1) by (simp add: owns_def)
  have "map_option plain_task (w_tasks s' t) = map_option plain_task (w_tasks s t)"
    using assms(1) by (simp add: steady_def) (metis comp_apply)
  then obtain k' where k': "deref (w_tasks s') t = Some k'" "plain_task k' = plain_task k"
    using t by (auto simp: deref_def split: if_splits)
  have v: "vector_at s' = vector_at s" 
  proof -
    have "w_ptrs s' = w_ptrs s" using assms(1) by (simp only: steady_def)
    then show ?thesis by (intro ext) (simp add: vector_at_def)
  qed
  have "owns s' t k' args envp" "B t = task_blocks k' args envp"
    using own t k' plain_task_blocks [OF k'(2)] steady_blocks [OF assms(1)] by (simp_all add: owns_def v)
  then show ?thesis using w steady_blocks [OF assms(1)] by (auto simp: task_holds_def)
qed

lemma steady_holdings: "steady s s' \<Longrightarrow> holdings s c cnf ts B \<Longrightarrow> holdings s' c cnf ts B"
proof -
  assume st: "steady s s'" and h: "holdings s c cnf ts B"
  obtain x where x: "deref (w_ctxs s) c = Some x" "cx_conf x = cnf" using h by (auto simp: holdings_def)
  have "map_option plain_ctx (w_ctxs s' c) = map_option plain_ctx (w_ctxs s c)"
    using st by (simp add: steady_def) (metis comp_apply)
  then obtain x' where x': "deref (w_ctxs s') c = Some x'" "plain_ctx x' = plain_ctx x"
    using x(1) by (auto simp: deref_def split: if_splits)
  have "cx_conf x' = cnf" using plain_ctx_fields(1) [OF x'(2)] x(2) by simp
  with h x'(1) steady_blocks [OF st] steady_holds [OF st] st show ?thesis
    by (auto simp: holdings_def) (simp add: steady_def)
qed

lemma steady_instance: "steady s s' \<Longrightarrow> instance_ready s bz b home \<Longrightarrow> instance_ready s' bz b home"
  using steady_blocks [of s s'] by (auto simp: instance_ready_def steady_def valid_log_def elim: same_logs_deref)

section \<open>An example\<close>

text \<open>The example supervisor with the names of its log and of its pid file in allocated blocks.\<close>

definition ex_serving_inst :: bitzer where
  "ex_serving_inst = ex_instance\<lparr>bi_pid_file := 700, bi_pid_file_alloc := True\<rparr>"

definition ex_serving_world :: world where
  "ex_serving_world = ex_task_world\<lparr>w_blocks := (700, 20) # w_blocks ex_task_world,
     w_bytes := (w_bytes ex_task_world)(700 \<mapsto> cstr ''/run/b.pid''), w_insts := [601 \<mapsto> ex_serving_inst]\<rparr>"

lemmas ex_serving_defs = ex_serving_world_def ex_serving_inst_def ex_task_defs

lemma ex_serving_separate: "separate ex_serving_world"
  by (simp add: separate_def ex_serving_defs)

lemma ex_serving_within: "within ex_serving_world b q = (\<exists>n. (b, n) \<in> set ((700, 20) # w_blocks ex_task_world) \<and> b \<le> q \<and> q < b + n)"
  by (simp add: within_def ex_serving_world_def)

lemma ex_serving_owns: "owns ex_serving_world 1000 ex_task [1300, 1400] []"
proof -
  have "within ex_task_world b q \<Longrightarrow> within ex_serving_world b q" for b q by (auto simp: within_def ex_serving_world_def)
  moreover have "vector_at ex_serving_world = vector_at ex_task_world" "w_tasks ex_serving_world = w_tasks ex_task_world"
    by (simp_all add: vector_at_def [abs_def] ex_serving_world_def)
  ultimately show ?thesis using ex_task_owns by (simp add: owns_def)
qed

lemma ex_serving_strings: "str_at ex_serving_world 700 = Some ''/run/b.pid''" "str_at ex_serving_world 1200 = Some ''tea''"
  by (simp_all add: str_at_def ex_serving_defs deref_def cstr_def)

lemma ex_serving_objects:
  "deref (w_tasks ex_serving_world) 1000 = Some ex_task" "deref (w_ctxs ex_serving_world) 300 = Some ex_ctx"
  "deref (w_insts ex_serving_world) 601 = Some ex_serving_inst" "valid_log ex_serving_world 100"
  "list_holds (w_lists ex_serving_world) 908 (map task_list [1000])"
  using ex_task_objects by (simp_all add: ex_serving_world_def valid_log_def deref_def)
    (simp add: list_holds_def ex_task_defs task_list_def peek_def deref_def)

definition ex_holdings :: "addr \<Rightarrow> addr list" where
  "ex_holdings t = task_blocks ex_task [1300, 1400] []"

lemma ex_stopping_holds: "task_holds ex_serving_world ex_holdings 1000"
  using ex_serving_owns by (auto simp: task_holds_def ex_holdings_def ex_serving_within task_list_def ex_task_defs)

lemma ex_ctx_conf: "cx_conf ex_ctx = 900"
  by (simp add: ex_ctx_def)

lemma ex_serving_holdings: "holdings ex_serving_world 300 900 [1000] ex_holdings"
proof -
  have "distinct (300 # 900 # [1000] @ all_blocks ex_holdings [1000])"
    by (simp add: all_blocks_def ex_holdings_def task_blocks_def owned_def ex_task_def)
  moreover have "within ex_serving_world 300 300" "within ex_serving_world 900 900" "within ex_serving_world 900 (conf_tasks_list 900)"
    by (auto simp: ex_serving_within ex_task_defs conf_tasks_list_def)
  ultimately show ?thesis
    using ex_serving_separate ex_serving_objects ex_stopping_holds ex_ctx_conf by (simp add: holdings_def conf_tasks_list_def)
qed

lemma ex_serving_ready: "instance_ready ex_serving_world 601 ex_serving_inst 601"
proof -
  have "bi_log ex_serving_inst = 100" "file_blocks ex_serving_inst = [200, 700]" "bi_pid_file ex_serving_inst = 700" "bi_pid_file_alloc ex_serving_inst"
    by (simp_all add: file_blocks_def ex_serving_inst_def ex_instance_def)
  moreover have "within ex_serving_world 601 601" "within ex_serving_world 100 100" "within ex_serving_world 200 200" "within ex_serving_world 700 700"
    by (auto simp: ex_serving_within ex_task_world_def)
  ultimately show ?thesis
    using ex_serving_separate ex_serving_objects(3,4) ex_serving_strings(1) by (simp add: instance_ready_def)
qed

section \<open>The properties\<close>

text \<open>C28: \<open>context_close\<close> gives back each block that its tasks own once, then the configuration and the context; it
  makes no system call and touches no other block. (The blocks of the tasks themselves stay allocated.)\<close>

theorem context_close_correct:
  assumes "holdings s c cnf ts B"
  shows "returns (context_close c) (\<lambda>_ s'. w_trace s' = w_trace s \<and>
    w_blocks s' = filter (\<lambda>e. fst e \<notin> set (all_blocks B ts @ [cnf, c])) (w_blocks s) \<and>
    (\<forall>b q. within s b q \<and> b \<notin> set (all_blocks B ts @ [cnf, c]) \<longrightarrow>
       w_bytes s' q = w_bytes s q \<and> w_tasks s' q = w_tasks s q \<and> w_logs s' q = w_logs s q \<and> w_insts s' q = w_insts s q)) s"
proof -
  let ?ps = "all_blocks B ts @ [cnf, c]"
  have "separate s" using assms by (simp add: holdings_def)
  note keeps = release_all_keeps [OF this]
  have "w_trace (release_all ?ps s) = w_trace s" "w_blocks (release_all ?ps s) = filter (\<lambda>e. fst e \<notin> set ?ps) (w_blocks s)"
    by (rule release_all_state, rule release_all_blocks)
  moreover have "\<forall>b q. within s b q \<and> b \<notin> set ?ps \<longrightarrow>
      w_bytes (release_all ?ps s) q = w_bytes s q \<and> w_tasks (release_all ?ps s) q = w_tasks s q \<and>
      w_logs (release_all ?ps s) q = w_logs s q \<and> w_insts (release_all ?ps s) q = w_insts s q"
    by (intro allI impI conjI; elim conjE; rule keeps; assumption)
  ultimately show ?thesis unfolding returns_def context_close_run [OF assms] by blast
qed

theorem context_close_correct_witness:
  "returns (context_close 300) (\<lambda>_ s'. map fst (w_blocks s') = [700, 100, 200, 601, 620, 1000]) ex_serving_world"
proof -
  have "map fst (filter (\<lambda>e. fst e \<notin> set (all_blocks ex_holdings [1000] @ [900, 300])) (w_blocks ex_serving_world)) =
      [700, 100, 200, 601, 620, 1000]"
    by (simp add: all_blocks_def ex_holdings_def task_blocks_def owned_def ex_serving_defs)
  then show ?thesis by (intro returns_mono [OF context_close_correct [OF ex_serving_holdings]]) auto
qed

text \<open>C29: \<open>bz_post_run\<close> removes the pid file first, and gives back the log and the file names that were allocated, each
  once. After the removal it only writes to the log and closes it.\<close>

theorem bz_post_run_correct:
  assumes "instance_ready s bz b home" "str_at s (bi_pid_file b) = Some path"
  shows "returns (bz_post_run os bz) (\<lambda>_ s'.
    w_blocks s' = filter (\<lambda>e. fst e \<notin> set (bi_log b # file_blocks b)) (w_blocks s) \<and>
    (\<exists>tr r. w_trace s' = tr @ (Unlink path, r) # w_trace s \<and> list_all closing_call tr)) s"
  by (rule returns_mono [OF post_run_winds [OF assms]]) (auto simp: winding_def)

theorem bz_post_run_correct_witness:
  "returns (bz_post_run ex_os 601) (\<lambda>_ s'. map fst (w_blocks s') = [300, 601, 620, 900, 1000, 1200, 1300, 1400, 1500] \<and>
     Unlink ''/run/b.pid'' \<in> fst ` set (w_trace s')) ex_serving_world"
proof -
  have "str_at ex_serving_world (bi_pid_file ex_serving_inst) = Some ''/run/b.pid''"
    using ex_serving_strings by (simp add: ex_serving_inst_def)
  moreover have "map fst (filter (\<lambda>e. fst e \<notin> set (bi_log ex_serving_inst # file_blocks ex_serving_inst)) (w_blocks ex_serving_world)) =
      [300, 601, 620, 900, 1000, 1200, 1300, 1400, 1500]"
    by (simp add: file_blocks_def ex_serving_defs)
  ultimately show ?thesis by (intro returns_mono [OF bz_post_run_correct [OF ex_serving_ready]]) auto
qed

end
