(* ===== verification/Supervisor_Props.thy ===== *)
theory Supervisor_Props
  imports Supervisor
begin

text \<open>
  The properties of \<open>context.c\<close>, and the system they are applied to: a supervisor with one task, whose process
  100 ends once.
\<close>

section \<open>An example system\<close>

definition ex_super_os :: os where
  "ex_super_os = ex_os\<lparr>os_call := (\<lambda>tr a. case a of
       Fork \<Rightarrow> (if 100 \<in> children tr then - 1 else 100, 0)
     | Waitpid \<Rightarrow> (if 100 \<in> children tr \<and> reaped tr = 0 then 100 else 0, 0)
     | Pselect m \<Rightarrow> (- 1, EINTR)
     | _ \<Rightarrow> ex_call tr a),
     os_signals := (\<lambda>tr. if reaped tr = 0 then [SIGCHLD] else [SIGTERM])\<rparr>"

lemma ex_super_kernel: "kernel_ok ex_super_os"
  by (simp add: kernel_ok_def ex_super_os_def is_pid_def)

lemma ex_super_patient: "patient ex_super_os"
  unfolding patient_def by (intro allI exI [of _ 1]) (auto simp: ex_super_os_def reaped_append)

lemma ex_super_fresh: "malloc_fresh ex_super_os"
  using ex_os_fresh by (simp add: malloc_fresh_def ex_super_os_def)

lemma finite_children: "finite (children tr)"
  by (induction tr rule: children.induct) (auto split: call.split)

lemma ex_super_forks: "always_forks ex_super_os [1000]"
  unfolding always_forks_def
proof (intro allI impI)
  fix tr
  assume "card (children tr) < length [1000 :: nat]"
  then have "children tr = {}" using finite_children [of tr] by simp
  then show "fst (os_call ex_super_os tr Fork) \<noteq> - 1" by (simp add: ex_super_os_def)
qed

lemma ex_task_sound: "sound 0 ex_task_world 300 [1000] Map.empty ex_task_world"
proof -
  have "list_holds (w_lists ex_task_world) (conf_tasks_list (cx_conf ex_ctx)) (map task_list [1000])"
    by (simp add: list_holds_def ex_task_defs conf_tasks_list_def task_list_def peek_def deref_def)
  moreover have "task_ok ex_task_world 300 1000"
    using ex_task_objects ex_task_strings by (auto simp: task_ok_def) (auto simp: ex_task_def)
  moreover have "rbtree_holds (w_nodes ex_task_world) (cx_tree ex_ctx) Lf"
    by (simp add: rbtree_holds_def focused_def apart_def ex_task_defs sentinel_ok_def deref_def)
  then have "index_holds (w_nodes ex_task_world) (cx_tree ex_ctx) (key_map Map.empty)"
    by (auto simp: index_holds_def intro!: exI [of _ Lf])
  moreover have "task_node 1000 \<noteq> rbt_sentinel (cx_tree ex_ctx)" by (simp add: task_node_def ex_ctx_def)
  ultimately have "supervised ex_task_world 300 [1000] Map.empty ex_task_world"
    unfolding supervised_def by (intro conjI exI [of _ ex_ctx]) (simp_all add: ex_task_objects, simp add: ex_task_objects ex_ctx_def)
  moreover have "tracked 0 (set [1000]) Map.empty ex_task_world"
    by (simp add: tracked_def pids_ok_def task_in_state_def ex_task_objects) (simp add: ex_task_defs)
  ultimately show ?thesis by (simp add: sound_def)
qed

text \<open>The same supervisor with the task running as process 100.\<close>

definition ex_running_world :: world where
  "ex_running_world = ex_task_world\<lparr>
     w_tasks := [1000 \<mapsto> ex_task\<lparr>tk_pid := 100, tk_status := TASK_RUNNING, tk_start_count := 1\<rparr>],
     w_nodes := [484 \<mapsto> \<lparr>rb_left = 0, rb_right = 0, rb_parent = 0, rb_key = 0, rb_color = False\<rparr>,
       1136 \<mapsto> \<lparr>rb_left = 484, rb_right = 484, rb_parent = 0, rb_key = 100, rb_color = False\<rparr>],
     w_ctxs := [300 \<mapsto> ex_ctx\<lparr>cx_tree := \<lparr>rbt_root = 1136, rbt_sentinel = 484\<rparr>\<rparr>],
     w_trace := [(Fork, 100)], bz_child := True\<rparr>"

lemma ex_running_sound: "sound 0 ex_running_world 300 [1000] [1000 \<mapsto> 100] ex_running_world"
proof -
  let ?x = "ex_ctx\<lparr>cx_tree := \<lparr>rbt_root = 1136, rbt_sentinel = 484\<rparr>\<rparr>"
  let ?T = "Nd 1136 False 100 Lf Lf"
  have lists: "list_holds (w_lists ex_running_world) (conf_tasks_list (cx_conf ?x)) (map task_list [1000])"
    by (simp add: list_holds_def ex_running_world_def ex_task_defs conf_tasks_list_def task_list_def peek_def deref_def)
  have "str_at ex_running_world (tk_name ex_task) = Some ''tea''"
    using ex_task_strings by (simp add: str_at_def ex_running_world_def) (simp add: ex_task_def)
  then have task: "task_ok ex_running_world 300 1000"
    by (simp add: task_ok_def ex_running_world_def deref_def task_node_def) (simp add: ex_task_def)
  have "rbtree_holds (w_nodes ex_running_world) (cx_tree ?x) ?T"
    by (auto simp: rbtree_holds_def focused_def apart_def ex_running_world_def sentinel_ok_def deref_def rbt_def intro!: exI [of _ 0])
  moreover have k: "key_map [1000 \<mapsto> 100] = [1136 \<mapsto> 100]"
    by (simp add: key_map_upd pid_key_def task_node_def)
  then have "key_map [1000 \<mapsto> 100] = map_of (entries ?T)" by simp
  ultimately have index: "index_holds (w_nodes ex_running_world) (cx_tree ?x) (key_map [1000 \<mapsto> 100])"
    unfolding index_holds_def by blast
  have objects: "deref (w_ctxs ex_running_world) 300 = Some ?x" "valid_log ex_running_world (cx_log ?x)"
    using ex_task_objects(4) by (simp_all add: ex_running_world_def deref_def valid_log_def) (simp add: ex_ctx_def ex_task_defs)
  have "task_node 1000 \<noteq> rbt_sentinel (cx_tree ?x)" by (simp add: task_node_def)
  with lists task index objects have "supervised ex_running_world 300 [1000] [1000 \<mapsto> 100] ex_running_world"
    unfolding supervised_def by (intro conjI exI [of _ ?x]) simp_all
  moreover have "tracked 0 (set [1000]) [1000 \<mapsto> 100] ex_running_world"
    by (simp add: tracked_def pids_ok_def is_pid_def task_in_state_def ex_running_world_def deref_def)
  ultimately show ?thesis by (simp add: sound_def)
qed

section \<open>The properties\<close>

text \<open>C22: \<open>context_start_tasks\<close> starts every task of the list, each once: it returns \<open>OK\<close>, and afterwards the tree
  holds the running tasks under their pids, which are the children of the supervisor; a task is missing
  only when \<open>fork\<close> failed for it.\<close>

theorem context_start_tasks_correct:
  assumes "sound 0 w0 c ts Map.empty s" "kernel_ok os"
  shows "returns (context_start_tasks os c) (\<lambda>r s'. r = BZ_OK \<and>
    (\<exists>P. sound 0 w0 c ts P s' \<and> ran P = children (w_trace s') \<and> (always_forks os ts \<longrightarrow> dom P = set ts))) s"
  by (rule returns_mono [OF start_tasks_sound [OF assms]]) (auto simp: sound_def tracked_def)

theorem context_start_tasks_correct_witness:
  "returns (context_start_tasks ex_super_os 300) (\<lambda>_ s'. \<exists>P :: addr \<rightharpoonup> int. dom P = {1000} \<and> ran P = children (w_trace s')) ex_task_world"
  by (rule returns_mono [OF context_start_tasks_correct [OF ex_task_sound ex_super_kernel]]) (use ex_super_forks in auto)

text \<open>C23: \<open>context_find_task\<close> finds the task of a running process by its pid, and \<open>NULL\<close> for any other pid.\<close>

theorem context_find_task_correct:
  assumes "sound n w0 c ts P s" "is_pid pid"
  shows "\<exists>t. context_find_task c pid s = Some (Ret t, s) \<and>
    (if pid \<in> ran P then P t = Some pid \<and> t \<in> set ts else t = NULL)"
proof (cases "pid \<in> ran P")
  case True
  then obtain t where t: "P t = Some pid" by (auto simp: ran_def)
  moreover have "dom P \<subseteq> set ts" using assms(1) by (auto simp: sound_def supervised_def)
  moreover have "context_find_task c pid s = Some (Ret t, s)"
    using find_task_ok [of w0 c ts P s t pid] assms(1) t by (simp add: sound_def tracked_def)
  ultimately show ?thesis using True by auto
next
  case False
  with find_task_none [of w0 c ts P s pid] assms show ?thesis by (simp add: sound_def tracked_def)
qed

theorem context_find_task_correct_witness:
  "context_find_task 300 100 ex_running_world = Some (Ret 1000, ex_running_world)"
  using context_find_task_correct [OF ex_running_sound, of 100] by (auto simp: is_pid_def split: if_splits)

text \<open>C24: A pass of the reaping loop keeps the invariant and refines the abstract supervisor: when a process ended, its
  task gets a new one (none when \<open>fork\<close> fails), and no other task changes; otherwise nothing changes. A child
  never comes without a task, and no child is lost.\<close>

theorem context_reap_refines:
  assumes "sound n w0 c ts P s" "kernel_ok os"
  shows "returns (context_reap os c) (\<lambda>again s'. again = (0 < fst (os_call os (w_trace s) Waitpid)) \<and>
    (if again then \<exists>P'. sound (n + 1) w0 c ts P' s' \<and> abs_step (always_forks os ts) P P' else sound n w0 c ts P s')) s"
  by (rule returns_mono [OF reap_sound [OF assms]]) (simp add: reap_result_def)

theorem context_reap_refines_witness:
  "returns (context_reap ex_super_os 300) (\<lambda>again s'. again \<and>
    (\<exists>P'. sound 1 ex_running_world 300 [1000] P' s' \<and> abs_step True [1000 \<mapsto> 100] P')) ex_running_world"
proof -
  have "0 < fst (os_call ex_super_os (w_trace ex_running_world) Waitpid)" by (simp add: ex_super_os_def ex_running_world_def)
  with ex_super_forks show ?thesis
    by (intro returns_mono [OF context_reap_refines [OF ex_running_sound ex_super_kernel]]) auto
qed

text \<open>C25: When only finitely many processes end before the next wait, the event handler returns; every step it took is one
  of the abstract supervisor, and with enough processes every task that ran still runs.\<close>

theorem context_event_handler_terminates:
  assumes "sound n w0 c ts P s" "kernel_ok os" "patient os"
  shows "returns (context_event_handler os c) (\<lambda>r s'. r = BZ_OK \<and>
    (\<exists>n' P'. sound n' w0 c ts P' s' \<and> (abs_step (always_forks os ts))\<^sup>*\<^sup>* P P' \<and> (always_forks os ts \<longrightarrow> dom P' = dom P))) s"
  by (rule returns_mono [OF event_handler_sound [OF assms]]) (use abs_steps_dom in \<open>auto simp: handled_def, blast\<close>)

theorem context_event_handler_terminates_witness:
  "returns (context_event_handler ex_super_os 300) (\<lambda>_ s'. \<exists>n P'. sound n ex_running_world 300 [1000] P' s' \<and> dom P' = {1000}) ex_running_world"
  by (rule returns_mono [OF context_event_handler_terminates [OF ex_running_sound ex_super_kernel ex_super_patient]])
    (use ex_super_forks in fastforce)

end
