(* ===== verification/Supervision.thy ===== *)
theory Supervision
  imports Shutdown Supervisor_Props
begin

text \<open>
  Supervision over time: the runs of \<open>context_run\<close>, pass after pass of its loop. The interface between the loop and
  the function behind \<open>signal_task.callback\<close> is a locale: a callback that returns has changed nothing, and one that
  is told to stop does not return.
\<close>

section \<open>The interface of the callback\<close>

locale signal_client =
  fixes call :: "callback \<Rightarrow> addr \<Rightarrow> unit prog"
    and cb :: callback
    and arg :: addr
    and stopping :: "world \<Rightarrow> bool"
  assumes is_set: "cb \<noteq> CB_NULL"
    and idle: "\<not> stopping s \<Longrightarrow> call cb arg s = Some (Ret (), s)"
    and stop: "stopping s \<Longrightarrow> call cb arg s \<noteq> Some (Ret (), s')"
begin

lemma call_returns: "call cb arg s = Some (Ret (), s') \<Longrightarrow> s' = s \<and> \<not> stopping s"
  using idle stop by (cases "stopping s") auto

text \<open>A pass that returns has dealt with the signals and with every process that ended.\<close>

lemma wait_handles:
  assumes "sound n w0 c ts P s" "g_context w0 = c" "kernel_ok os" "deref (w_ctxs w0) c = Some cx"
    and "cx_callback cx = cb" "cx_arg cx = arg" "context_wait os call c s = Some (Ret (), s')"
  shows "handled os (with_flags w0 (signals_at os s)) c ts P s'"
proof -
  obtain s1 where s1: "handled os (with_flags w0 (signals_at os s)) c ts P s1"
    "context_wait os call c s = whenr (cx_callback cx \<noteq> CB_NULL) (call (cx_callback cx) (cx_arg cx)) s1 \<or>
     context_wait os call c s = Some (Ret (), s1) \<and> \<not> interrupted os"
    using wait_run [OF assms(1-4), of call] assms(7) by auto
  then have "s' = s1" using assms(5-7) is_set call_returns by auto
  with s1(1) show ?thesis by simp
qed

lemma wait_not_stopping:
  assumes "sound n w0 c ts P s" "g_context w0 = c" "kernel_ok os" "deref (w_ctxs w0) c = Some cx"
    and "cx_callback cx = cb" "cx_arg cx = arg" "context_wait os call c s = Some (Ret (), s')" "interrupted os"
  shows "\<not> stopping s'"
proof -
  obtain s1 where "context_wait os call c s = whenr (cx_callback cx \<noteq> CB_NULL) (call (cx_callback cx) (cx_arg cx)) s1"
    using wait_run [OF assms(1-4), of call] assms(7,8) by auto
  then have "call cb arg s1 = Some (Ret (), s')" using assms(5-7) is_set by simp
  then show ?thesis using call_returns by blast
qed

end

section \<open>Runs\<close>

text \<open>The states in which the loop of \<open>context_run\<close> starts a pass.\<close>

inductive serving :: "os \<Rightarrow> (callback \<Rightarrow> addr \<Rightarrow> unit prog) \<Rightarrow> addr \<Rightarrow> world \<Rightarrow> world \<Rightarrow> bool" for os call c s0 where
  started: "context_sigmask os c s0 = Some (Ret r, s1) \<Longrightarrow> 0 \<le> r \<Longrightarrow> context_start_tasks os c s1 = Some (Ret x, s2) \<Longrightarrow>
    serving os call c s0 s2"
| passed: "serving os call c s0 s \<Longrightarrow> context_wait os call c s = Some (Ret (), s') \<Longrightarrow> serving os call c s0 s'"

inductive_cases servingE: "serving os call c s0 s"

lemma loop_pass: "context_wait os call c s = Some (Ret (), s') \<Longrightarrow> context_loop os call c s = context_loop os call c s'"
  by (subst context_loop.simps) (simp add: bindr_Ret)

lemma serving_run: "serving os call c s0 s \<Longrightarrow> context_run os call c s0 = context_loop os call c s"
proof (induction rule: serving.induct)
  case (started r s1 x s2)
  then show ?case by (simp add: context_run_def bindr_Ret)
next
  case (passed s s')
  then show ?case using loop_pass by metis
qed

lemma loop_exit: "context_wait os call c s = Some (Exit x, s') \<Longrightarrow> context_loop os call c s = Some (Exit x, s')"
  by (subst context_loop.simps) (simp add: bindr_Exit)

section \<open>The mask\<close>

text \<open>A state that is sound is so by its own account.\<close>

lemma sound_self: "sound n w0 c ts P s \<Longrightarrow> sound n s c ts P s"
  by (simp add: sound_def supervised_def)

text \<open>Setting the mask to come back to keeps it.\<close>

lemma sound_mask:
  assumes s: "sound n s c ts P s" and cx: "deref (w_ctxs s) c = Some cx"
  shows "sound n (s\<lparr>w_ctxs := (w_ctxs s)(c \<mapsto> cx\<lparr>cx_origmask := m\<rparr>)\<rparr>) c ts P (s\<lparr>w_ctxs := (w_ctxs s)(c \<mapsto> cx\<lparr>cx_origmask := m\<rparr>)\<rparr>)"
proof -
  let ?s = "s\<lparr>w_ctxs := (w_ctxs s)(c \<mapsto> cx\<lparr>cx_origmask := m\<rparr>)\<rparr>"
  have "c \<noteq> NULL" using cx by (auto dest: deref_not_NULL)
  then have "deref (w_ctxs ?s) c = Some (cx\<lparr>cx_origmask := m\<rparr>)" by (simp add: deref_upd)
  moreover have "task_ok ?s c = task_ok s c" by (intro ext) (simp add: task_ok_def str_at_def)
  ultimately have "supervised ?s c ts P ?s" using s cx
    unfolding sound_def supervised_def by (intro conjI exI [of _ "cx\<lparr>cx_origmask := m\<rparr>"]) (auto simp: valid_log_def)
  then show ?thesis using s by (simp add: sound_def tracked_def task_in_state_def)
qed

section \<open>The callback of the program\<close>

lemma never_returns: "bindr m (\<lambda>_. bindr k (\<lambda>_. exit_with e)) s \<noteq> Some (Ret x, s')"
  by (auto simp: bindr_def exit_with_def bind_eq_Some_conv split: prod.splits outcome.splits)

interpretation sc: signal_client "call_pointer os" CB_bz_signal bz "\<lambda>s. bz_quit s \<or> bz_terminate s" for os bz
proof unfold_locales
  fix s s' :: world
  show "CB_bz_signal \<noteq> CB_NULL" by simp
  show "call_pointer os CB_bz_signal bz s = Some (Ret (), s)" if "\<not> (bz_quit s \<or> bz_terminate s)"
    using that by (simp add: call_pointer_def bz_signal_callback_def run_simps)
  show "call_pointer os CB_bz_signal bz s \<noteq> Some (Ret (), s')" if "bz_quit s \<or> bz_terminate s"
    using that never_returns by (cases "bz_quit s") (simp_all add: call_pointer_def bz_signal_callback_def run_simps exit_with_def)
qed

text \<open>What \<open>bz_run\<close> has set up when it calls \<open>context_run\<close>.\<close>

definition commissioned :: "addr \<Rightarrow> addr \<Rightarrow> addr list \<Rightarrow> (addr \<Rightarrow> addr list) \<Rightarrow> addr \<Rightarrow> bitzer \<Rightarrow> addr \<Rightarrow> world \<Rightarrow> bool" where
  "commissioned c cnf ts B bz b home s \<longleftrightarrow> sound 0 s c ts Map.empty s \<and> g_context s = c \<and> \<not> bz_quit s \<and> \<not> bz_terminate s \<and>
     holdings s c cnf ts B \<and> instance_ready s bz b home \<and>
     set (ts @ all_blocks B ts @ [cnf, c]) \<inter> set (home # bi_log b # file_blocks b) = {} \<and>
     (\<exists>cx. deref (w_ctxs s) c = Some cx \<and> cx_callback cx = CB_bz_signal \<and> cx_arg cx = bz)"

lemma memory_trace [simp]:
  "holdings (s\<lparr>w_trace := tr, w_errno := e\<rparr>) = holdings s" "instance_ready (s\<lparr>w_trace := tr, w_errno := e\<rparr>) = instance_ready s"
  by (intro ext; simp add: holdings_def task_holds_def owns_def vector_at_def instance_ready_def str_at_def valid_log_def live_def)+

lemma holdings_mask:
  assumes "deref (w_ctxs s) c = Some cx"
  shows "holdings (s\<lparr>w_ctxs := (w_ctxs s)(c \<mapsto> cx\<lparr>cx_origmask := m\<rparr>)\<rparr>) c cnf ts B = holdings s c cnf ts B"
    "instance_ready (s\<lparr>w_ctxs := h\<rparr>) bz b home = instance_ready s bz b home"
  using assms deref_not_NULL [OF assms]
  by (simp_all add: holdings_def task_holds_def owns_def vector_at_def instance_ready_def str_at_def valid_log_def
    separate_def within_def deref_upd)

lemma sigmask_commissioned:
  assumes "commissioned c cnf ts B bz b home s0" "context_sigmask os c s0 = Some (Ret r, s1)"
  shows "commissioned c cnf ts B bz b home s1 \<and> w_blocks s1 = w_blocks s0 \<and> w_bytes s1 = w_bytes s0"
proof -
  obtain cx where cx: "deref (w_ctxs s0) c = Some cx" "cx_callback cx = CB_bz_signal" "cx_arg cx = bz"
    using assms(1) by (auto simp: commissioned_def)
  let ?call = "Sigprocmask SIG_BLOCK handled_signals"
  obtain x e where x: "os_call os (w_trace s0) ?call = (x, e)" by (cases "os_call os (w_trace s0) ?call")
  let ?s = "s0\<lparr>w_trace := (?call, x) # w_trace s0, w_errno := (if x < 0 then e else w_errno s0)\<rparr>"
  have "sound 0 s0 c ts Map.empty ?s" by (rule sound_call) (use assms(1) in \<open>simp_all add: commissioned_def\<close>)
  then have snd: "sound 0 ?s c ts Map.empty ?s" by (rule sound_self)
  have com: "commissioned c cnf ts B bz b home ?s" using assms(1) snd by (simp add: commissioned_def)
  let ?m = "os_oldmask os (w_trace s0)"
  let ?s2 = "?s\<lparr>w_ctxs := (w_ctxs ?s)(c \<mapsto> cx\<lparr>cx_origmask := ?m\<rparr>)\<rparr>"
  have cx': "deref (w_ctxs ?s) c = Some cx" using cx(1) by simp
  have "c \<noteq> NULL" using cx(1) by (auto dest: deref_not_NULL)
  then have "commissioned c cnf ts B bz b home ?s2"
    using com sound_mask [OF snd cx', of ?m] holdings_mask [OF cx'] cx by (simp add: commissioned_def deref_upd)
  moreover have "s1 = (if 0 \<le> x then ?s2 else ?s)"
    using assms(2) x cx(1) by (cases "0 \<le> x")
      (auto simp: context_sigmask_def run_simps Let_def set_ctx_def poke_def split: if_splits)
  ultimately show ?thesis using com by (cases "0 \<le> x") simp_all
qed

lemma with_flags_append: "with_flags (with_flags w sigs) sigs' = with_flags w (sigs @ sigs')"
  by (simp add: with_flags_def disj_ac)

lemma with_flags_fields [simp]:
  "g_context (with_flags w sigs) = g_context w" "w_ctxs (with_flags w sigs) = w_ctxs w" "w_blocks (with_flags w sigs) = w_blocks w"
  "w_bytes (with_flags w sigs) = w_bytes w"
  "holdings (with_flags w sigs) = holdings w" "instance_ready (with_flags w sigs) = instance_ready w"
  by (simp_all add: with_flags_def, (intro ext; simp add: holdings_def task_holds_def owns_def vector_at_def instance_ready_def
    str_at_def valid_log_def live_def separate_def within_def)+)

text \<open>Every state that a run comes to is sound.\<close>

definition in_service :: "os \<Rightarrow> addr list \<Rightarrow> addr \<Rightarrow> (world \<Rightarrow> bool) \<Rightarrow> world \<Rightarrow> bool" where
  "in_service os ts c com s \<longleftrightarrow> (\<exists>w sigs n P. com w \<and> sound n (with_flags w sigs) c ts P s \<and>
     (always_forks os ts \<longrightarrow> dom P = set ts) \<and> (interrupted os \<longrightarrow> \<not> bz_quit s \<and> \<not> bz_terminate s))"

lemma serving_sound:
  assumes com: "commissioned c cnf ts B bz b home s0" and os: "kernel_ok os"
    and run: "serving os (call_pointer os) c s0 s"
  shows "in_service os ts c (\<lambda>w. commissioned c cnf ts B bz b home w \<and> w_blocks w = w_blocks s0 \<and> w_bytes w = w_bytes s0) s"
  using run
proof (induction rule: serving.induct)
  case (started r s1 x s2)
  have c1: "commissioned c cnf ts B bz b home s1" "w_blocks s1 = w_blocks s0" "w_bytes s1 = w_bytes s0"
    using sigmask_commissioned [OF com started(1)] by auto
  then have "sound 0 s1 c ts Map.empty s1" by (simp add: commissioned_def)
  from start_tasks_sound [OF this os] started(3)
  obtain P where P: "sound 0 s1 c ts P s2" "always_forks os ts \<longrightarrow> dom P = set ts" by (auto simp: returns_def)
  have "with_flags s1 [] = s1" by (simp add: with_flags_def)
  moreover have "\<not> bz_quit s2 \<and> \<not> bz_terminate s2" using P(1) c1(1) by (simp add: sound_def supervised_def steady_def commissioned_def)
  ultimately show ?case using P c1 unfolding in_service_def by metis
next
  case (passed s s')
  then obtain w sigs n P where w: "commissioned c cnf ts B bz b home w" "w_blocks w = w_blocks s0" "w_bytes w = w_bytes s0"
    "sound n (with_flags w sigs) c ts P s" "always_forks os ts \<longrightarrow> dom P = set ts" by (auto simp: in_service_def)
  obtain cx where cx: "deref (w_ctxs (with_flags w sigs)) c = Some cx" "cx_callback cx = CB_bz_signal" "cx_arg cx = bz"
    and g: "g_context (with_flags w sigs) = c" using w(1) by (auto simp: commissioned_def)
  have "handled os (with_flags (with_flags w sigs) (signals_at os s)) c ts P s'"
    by (rule sc.wait_handles [OF w(4) g os cx passed(2)])
  then obtain n' P' where P': "sound n' (with_flags w (sigs @ signals_at os s)) c ts P' s'" "(abs_step (always_forks os ts))\<^sup>*\<^sup>* P P'"
    by (auto simp: handled_def with_flags_append)
  have "always_forks os ts \<longrightarrow> dom P' = set ts" using abs_steps_dom [OF P'(2)] w(5) by auto
  moreover have "interrupted os \<longrightarrow> \<not> bz_quit s' \<and> \<not> bz_terminate s'"
    using sc.wait_not_stopping [OF w(4) g os cx passed(2)] by blast
  ultimately show ?case using w(1-3) P'(1) unfolding in_service_def by blast
qed

text \<open>What the next pass does, when it is interrupted by signals.\<close>

definition stop_status :: "int list \<Rightarrow> unit outcome" where
  "stop_status sigs = (if SIGQUIT \<in> set sigs then Exit 2 else if SIGTERM \<in> set sigs \<or> SIGINT \<in> set sigs then Exit 1 else Ret ())"

definition wound_up :: "addr list \<Rightarrow> string \<Rightarrow> world \<Rightarrow> world \<Rightarrow> bool" where
  "wound_up ps path s s' \<longleftrightarrow> w_blocks s' = filter (\<lambda>e. fst e \<notin> set ps) (w_blocks s) \<and>
     (\<exists>tr r tr'. w_trace s' = tr @ (Unlink path, r) # tr' \<and> list_all closing_call tr)"

lemma next_pass:
  assumes com: "commissioned c cnf ts B bz b home s0" and os: "kernel_ok os" "interrupted os"
    and run: "serving os (call_pointer os) c s0 s" and path: "str_at s0 (bi_pid_file b) = Some path"
  shows "(\<exists>s'. context_wait os (call_pointer os) c s = Some (stop_status (signals_at os s), s') \<and>
    (stop_status (signals_at os s) = Exit 1 \<longrightarrow> wound_up (estate c cnf ts B b) path s0 s')) \<or>
    context_wait os (call_pointer os) c s = None \<and> reaps_after_wait os c s"
proof (cases "reaps_after_wait os c s \<and> context_wait os (call_pointer os) c s = None")
  case True
  then show ?thesis by simp
next
  case ends: False
  have "\<exists>s'. context_wait os (call_pointer os) c s = Some (stop_status (signals_at os s), s') \<and>
    (stop_status (signals_at os s) = Exit 1 \<longrightarrow> wound_up (estate c cnf ts B b) path s0 s')"
proof -
  let ?sigs = "signals_at os s"
  obtain w sigs n P where w: "commissioned c cnf ts B bz b home w" "w_blocks w = w_blocks s0" "w_bytes w = w_bytes s0"
    "sound n (with_flags w sigs) c ts P s" and f: "\<not> bz_quit s" "\<not> bz_terminate s"
    using serving_sound [OF com os(1) run] os(2) by (auto simp: in_service_def)
  obtain cx where cx: "deref (w_ctxs (with_flags w sigs)) c = Some cx" "cx_callback cx = CB_bz_signal" "cx_arg cx = bz"
    and g: "g_context (with_flags w sigs) = c" using w(1) by (auto simp: commissioned_def)
  let ?w = "with_flags (with_flags w sigs) ?sigs"
  obtain s1 where h: "handled os ?w c ts P s1"
    and run1: "context_wait os (call_pointer os) c s = call_pointer os CB_bz_signal bz s1"
    using wait_run [OF w(4) g os(1) cx(1), of "call_pointer os"] os(2) cx(2,3) ends by auto
  obtain m P' where s1: "sound m ?w c ts P' s1" using h by (auto simp: handled_def)
  then have st: "steady ?w s1" by (simp add: sound_def supervised_def)
  have "steady (with_flags w sigs) s" using w(4) by (simp add: sound_def supervised_def)
  with f have "\<not> bz_quit (with_flags w sigs)" "\<not> bz_terminate (with_flags w sigs)" by (simp_all add: steady_def)
  with st have flags: "bz_quit s1 = (SIGQUIT \<in> set ?sigs)" "bz_terminate s1 = (SIGTERM \<in> set ?sigs \<or> SIGINT \<in> set ?sigs)"
    by (simp_all add: steady_def) (simp_all add: with_flags_def)
  have call: "call_pointer os CB_bz_signal bz s1 = bz_signal_callback os bz s1" by (simp add: call_pointer_def)
  consider (quit) "bz_quit s1" | (finish) "\<not> bz_quit s1" "bz_terminate s1" | (none) "\<not> bz_quit s1" "\<not> bz_terminate s1" by blast
  then show ?thesis
  proof cases
    case quit
    then have "stop_status ?sigs = Exit 2" using flags by (simp add: stop_status_def)
    moreover have "bz_signal_callback os bz s1 = Some (Exit 2, s1)" using quit by (simp add: bz_signal_callback_def run_simps exit_with_def)
    ultimately show ?thesis using run1 call by simp
  next
    case none
    then have "stop_status ?sigs = Ret ()" using flags by (simp add: stop_status_def)
    moreover have "call_pointer os CB_bz_signal bz s1 = Some (Ret (), s1)" by (rule sc.idle) (use none in simp)
    ultimately show ?thesis using run1 by simp
  next
    case finish
    have hold: "holdings s1 c cnf ts B" "instance_ready s1 bz b home"
      using steady_holdings [OF st] steady_instance [OF st] w(1) by (simp_all add: commissioned_def)
    have gc: "g_context s1 = c" using st w(1) by (simp add: steady_def commissioned_def)
    have pa: "str_at s1 (bi_pid_file b) = Some path" using path steady_blocks [OF st] w(3) by (simp add: str_at_def)
    have ap: "set (all_blocks B ts @ [cnf, c]) \<inter> set (home # bi_log b # file_blocks b) = {}"
      using w(1) unfolding commissioned_def by auto
    obtain s2 where s2: "bz_signal_callback os bz s1 = Some (Exit 1, s2)"
      "w_blocks s2 = filter (\<lambda>e. fst e \<notin> set (estate c cnf ts B b)) (w_blocks s1)"
      "\<exists>tr r. w_trace s2 = tr @ (Unlink path, r) # w_trace s1 \<and> list_all closing_call tr"
      using terminate_run [OF hold gc ap pa finish, of os] unfolding ends_def by blast
    have "w_blocks s1 = w_blocks s0" using st w(2) by (simp add: steady_def)
    then have "wound_up (estate c cnf ts B b) path s0 s2" using s2(2,3) unfolding wound_up_def by auto
    moreover have "stop_status ?sigs = Exit 1" using finish flags by (simp add: stop_status_def)
    ultimately show ?thesis using run1 call s2(1) by simp
  qed
qed
  then show ?thesis by blast
qed

text \<open>The structures of the tasks are not among what is given back.\<close>

lemma tasks_stay:
  assumes com: "commissioned c cnf ts B bz b home s0" and w: "wound_up (estate c cnf ts B b) path s0 s'"
  shows "set ts \<subseteq> live s'"
proof
  fix t
  assume t: "t \<in> set ts"
  have h: "holdings s0 c cnf ts B" using com by (simp add: commissioned_def)
  then have "within s0 t (task_list t)" using t by (auto simp: holdings_def task_holds_def)
  then obtain n where n: "(t, n) \<in> set (w_blocks s0)" by (auto simp: within_def dest: map_of_SomeD)
  have "set ts \<inter> set (all_blocks B ts @ [cnf, c]) = {}" using h by (auto simp: holdings_def)
  moreover have "set ts \<inter> set (bi_log b # file_blocks b) = {}" using com unfolding commissioned_def by auto
  ultimately have "t \<notin> set (estate c cnf ts B b)" using t by (auto simp: estate_def)
  with n have "(t, n) \<in> set (w_blocks s')" using w by (simp add: wound_up_def)
  then show "t \<in> live s'" unfolding live_def by force
qed

section \<open>An example\<close>

lemma ex_serving_sound: "sound 0 ex_serving_world 300 [1000] Map.empty ex_serving_world"
proof -
  obtain cx where cx: "deref (w_ctxs ex_task_world) 300 = Some cx" "valid_log ex_task_world (cx_log cx)"
    "list_holds (w_lists ex_task_world) (conf_tasks_list (cx_conf cx)) (map task_list [1000])"
    "list_all (\<lambda>t. task_node t \<noteq> rbt_sentinel (cx_tree cx)) [1000]"
    "index_holds (w_nodes ex_task_world) (cx_tree cx) (key_map Map.empty)"
    using ex_task_sound unfolding sound_def supervised_def by blast
  have f: "w_ctxs ex_serving_world = w_ctxs ex_task_world" "w_logs ex_serving_world = w_logs ex_task_world"
    "w_lists ex_serving_world = w_lists ex_task_world" "w_nodes ex_serving_world = w_nodes ex_task_world"
    "w_trace ex_serving_world = w_trace ex_task_world" "w_tasks ex_serving_world = w_tasks ex_task_world"
    by (simp_all add: ex_serving_world_def)
  have "task_ok ex_serving_world 300 1000"
    using ex_serving_objects(1) ex_serving_strings(2) ex_task_sound by (auto simp: task_ok_def f sound_def supervised_def)
      (auto simp: ex_task_def)
  then have "supervised ex_serving_world 300 [1000] Map.empty ex_serving_world"
    using cx unfolding supervised_def by (intro conjI exI [of _ cx]) (simp_all add: valid_log_def f)
  moreover have "tracked 0 (set [1000]) Map.empty ex_serving_world"
    using ex_task_sound by (simp add: sound_def tracked_def task_in_state_def f)
  ultimately show ?thesis by (simp add: sound_def)
qed

lemma ex_commissioned: "commissioned 300 900 [1000] ex_holdings 601 ex_serving_inst 601 ex_serving_world"
proof -
  have "g_context ex_serving_world = 300" "\<not> bz_quit ex_serving_world" "\<not> bz_terminate ex_serving_world"
    by (simp_all add: ex_serving_defs)
  moreover have "set ([1000] @ all_blocks ex_holdings [1000] @ [900, 300]) \<inter> set (601 # bi_log ex_serving_inst # file_blocks ex_serving_inst) = {}"
    by (simp add: all_blocks_def ex_holdings_def task_blocks_def owned_def file_blocks_def ex_serving_inst_def ex_task_def ex_instance_def)
  ultimately show ?thesis
    using ex_serving_sound ex_serving_holdings ex_serving_ready ex_serving_objects(2) by (auto simp: commissioned_def ex_ctx_def)
qed

lemma ex_interrupted: "interrupted ex_super_os"
  by (simp add: interrupted_def ex_super_os_def)

text \<open>The same system, in which \<open>SIGTERM\<close> arrives during each wait.\<close>

definition ex_stop_os :: os where
  "ex_stop_os = ex_super_os\<lparr>os_signals := \<lambda>_. [SIGTERM]\<rparr>"

lemma ex_stop_calls: "os_call ex_stop_os = os_call ex_super_os"
  by (simp add: ex_stop_os_def)

lemma ex_stop_system: "kernel_ok ex_stop_os" "patient ex_stop_os" "interrupted ex_stop_os"
  using ex_super_kernel ex_super_patient ex_interrupted by (simp_all add: kernel_ok_def patient_def interrupted_def ex_stop_calls)

lemma ex_serving:
  assumes "os_call os = os_call ex_super_os"
  shows "\<exists>s. serving os (call_pointer os) 300 ex_serving_world s"
proof -
  obtain r s1 where m: "context_sigmask os 300 ex_serving_world = Some (Ret r, s1)" "0 \<le> r"
    using ex_serving_objects(2)
    by (auto simp: assms context_sigmask_def run_simps set_ctx_def poke_def ex_super_os_def ex_call_def)
  have k: "kernel_ok os" using ex_super_kernel by (simp add: kernel_ok_def assms)
  have "commissioned 300 900 [1000] ex_holdings 601 ex_serving_inst 601 s1" using sigmask_commissioned [OF ex_commissioned m(1)] by simp
  then have "sound 0 s1 300 [1000] Map.empty s1" by (simp add: commissioned_def)
  from start_tasks_sound [OF this k]
  obtain x s2 where "context_start_tasks os 300 s1 = Some (Ret x, s2)" by (auto elim!: returnsE)
  then show ?thesis using serving.started [OF m] by blast
qed

section \<open>The properties\<close>

text \<open>C30: The invariant of the supervisor, over every run, however long and however many processes end on the way:
  whenever \<open>context_run\<close> starts to wait, its data is sound, and the pids it has recorded for its tasks are the
  children that the kernel has for it; when enough processes can be made, every task of the configuration is
  running.\<close>

theorem supervision_invariant:
  assumes "commissioned c cnf ts B bz b home s0" "kernel_ok os" "serving os (call_pointer os) c s0 s"
  shows "\<exists>w n P. sound n w c ts P s \<and> ran P = children (w_trace s) \<and> (always_forks os ts \<longrightarrow> dom P = set ts)"
  using serving_sound [OF assms] by (auto simp: in_service_def sound_def tracked_def)

theorem supervision_invariant_witness:
  "\<exists>s w n P. serving ex_super_os (call_pointer ex_super_os) 300 ex_serving_world s \<and> sound n w 300 [1000] P s \<and> dom P = {1000}"
proof -
  obtain s where s: "serving ex_super_os (call_pointer ex_super_os) 300 ex_serving_world s" using ex_serving [of ex_super_os] by blast
  from supervision_invariant [OF ex_commissioned ex_super_kernel s] show ?thesis
    using s ex_super_forks by auto
qed

text \<open>C31: No pass of the loop has undefined behaviour: interrupted by signals, it exits with 2 for \<open>SIGQUIT\<close>, with 1 for
  \<open>SIGTERM\<close> or \<open>SIGINT\<close>, and goes on to the next pass for all others. The one way in which it can fail to end is
  that processes keep ending while it reaps them, one more in each pass of the reaping loop; this does not happen
  when only finitely many processes end between two waits.\<close>

theorem supervision_pass:
  assumes "commissioned c cnf ts B bz b home s0" "kernel_ok os" "interrupted os" "serving os (call_pointer os) c s0 s"
  shows "(\<exists>s'. context_wait os (call_pointer os) c s = Some (stop_status (signals_at os s), s')) \<or>
    \<not> patient os \<and> context_wait os (call_pointer os) c s = None \<and>
    (\<exists>r f. bindr (get_ctx cx_origmask c) (pselect os) s = Some (Ret r, f 0) \<and>
      (\<forall>i. context_reap os c (f i) = Some (Ret True, f (Suc i))))"
proof -
  obtain path where "str_at s0 (bi_pid_file b) = Some path" using assms(1) by (auto simp: commissioned_def instance_ready_def)
  from next_pass [OF assms this] show ?thesis
    using patient_wait [of os c s] unfolding reaps_after_wait_def reaps_forever_def by blast
qed

theorem supervision_pass_witness:
  "\<exists>s s'. context_wait ex_super_os (call_pointer ex_super_os) 300 s = Some (stop_status (signals_at ex_super_os s), s')"
proof -
  obtain s where "serving ex_super_os (call_pointer ex_super_os) 300 ex_serving_world s" using ex_serving [of ex_super_os] by blast
  from supervision_pass [OF ex_commissioned ex_super_kernel ex_interrupted this] ex_super_patient show ?thesis by blast
qed

text \<open>C32: Termination is graceful: when \<open>SIGTERM\<close> or \<open>SIGINT\<close> arrives during any wait of a run, \<open>SIGQUIT\<close> does not, and
  only finitely many processes end before the next wait, the run of \<open>context_run\<close> from its beginning ends with exit
  status 1. What the tasks own, the configuration, the context, the log and the file names were given back,
  each block once and no other; the structures of the tasks themselves are still allocated. The pid file was unlinked
  (whatever \<open>unlink\<close> answered), and afterwards the log was only written to and closed.\<close>

theorem supervision_terminates:
  assumes "commissioned c cnf ts B bz b home s0" "kernel_ok os" "interrupted os" "patient os"
    "serving os (call_pointer os) c s0 s" "str_at s0 (bi_pid_file b) = Some path"
    and "SIGTERM \<in> set (signals_at os s) \<or> SIGINT \<in> set (signals_at os s)" "SIGQUIT \<notin> set (signals_at os s)"
  shows "ends (context_run os (call_pointer os) c) (\<lambda>x s'. x = Exit 1 \<and> wound_up (estate c cnf ts B b) path s0 s' \<and>
    set ts \<subseteq> live s') s0"
proof -
  have st: "stop_status (signals_at os s) = Exit 1" using assms(7,8) by (simp add: stop_status_def)
  obtain s' where s': "context_wait os (call_pointer os) c s = Some (Exit 1, s')" "wound_up (estate c cnf ts B b) path s0 s'"
    using next_pass [OF assms(1-3,5,6)] patient_wait [OF assms(4)] unfolding st by blast
  have "context_run os (call_pointer os) c s0 = Some (Exit 1, s')" using serving_run [OF assms(5)] loop_exit [OF s'(1)] by simp
  with s'(2) tasks_stay [OF assms(1) s'(2)] show ?thesis by (simp add: ends_def)
qed

theorem supervision_terminates_witness:
  "ends (context_run ex_stop_os (call_pointer ex_stop_os) 300)
     (\<lambda>x s'. x = Exit 1 \<and> wound_up (estate 300 900 [1000] ex_holdings ex_serving_inst) ''/run/b.pid'' ex_serving_world s' \<and>
       set [1000] \<subseteq> live s') ex_serving_world"
proof -
  obtain s where s: "serving ex_stop_os (call_pointer ex_stop_os) 300 ex_serving_world s" using ex_serving [OF ex_stop_calls] by blast
  have "signals_at ex_stop_os s = [SIGTERM]" by (simp add: signals_at_def ex_stop_os_def)
  moreover have "SIGQUIT \<noteq> SIGTERM" by (simp add: signal_numbers)
  moreover have "str_at ex_serving_world (bi_pid_file ex_serving_inst) = Some ''/run/b.pid''"
    using ex_serving_strings by (simp add: ex_serving_inst_def)
  ultimately show ?thesis
    by (intro supervision_terminates [OF ex_commissioned ex_stop_system(1,3,2) s]) simp_all
qed

end
