(* ===== verification/Options.thy ===== *)
theory Options
  imports Bitzer_Main
begin

text \<open>
  Reading the options. \<open>spells\<close> says which arguments stand for which options: the grammar that the manual of
  \<open>getopt_long\<close> describes. \<open>settings\<close> is what the options set, as strings and numbers; \<open>view\<close> reads it off
  the memory.
\<close>

section \<open>Spellings\<close>

inductive spells :: "string list \<Rightarrow> (char \<times> string option) list \<Rightarrow> bool"
  and spells_group :: "string \<Rightarrow> string list \<Rightarrow> (char \<times> string option) list \<Rightarrow> bool" where
  none: "spells [] []"
| operand: "\<not> is_option a \<Longrightarrow> spells args os \<Longrightarrow> spells (a # args) os"
| terminator: "spells (''--'' # args) []"
| group: "g \<noteq> [] \<Longrightarrow> hd g \<noteq> CHR ''-'' \<Longrightarrow> spells_group g args os \<Longrightarrow> spells ((CHR ''-'' # g) # args) os"
| long_flag: "find_long long_options name = Some lo \<Longrightarrow> CHR ''='' \<notin> set name \<Longrightarrow> name \<noteq> [] \<Longrightarrow> \<not> lo_has_arg lo \<Longrightarrow>
    spells args os \<Longrightarrow> spells ((''--'' @ name) # args) ((lo_val lo, None) # os)"
| long_joined: "find_long long_options name = Some lo \<Longrightarrow> CHR ''='' \<notin> set name \<Longrightarrow> lo_has_arg lo \<Longrightarrow>
    spells args os \<Longrightarrow> spells ((''--'' @ name @ ''='' @ v) # args) ((lo_val lo, Some v) # os)"
| long_separate: "find_long long_options name = Some lo \<Longrightarrow> CHR ''='' \<notin> set name \<Longrightarrow> name \<noteq> [] \<Longrightarrow> lo_has_arg lo \<Longrightarrow>
    spells args os \<Longrightarrow> spells ((''--'' @ name) # v # args) ((lo_val lo, Some v) # os)"
| group_end: "spells args os \<Longrightarrow> spells_group [] args os"
| letter: "short_has_arg short_options c = Some False \<Longrightarrow> spells_group g args os \<Longrightarrow> spells_group (c # g) args ((c, None) # os)"
| joined: "short_has_arg short_options c = Some True \<Longrightarrow> v \<noteq> [] \<Longrightarrow> spells args os \<Longrightarrow> spells_group (c # v) args ((c, Some v) # os)"
| separate: "short_has_arg short_options c = Some True \<Longrightarrow> spells args os \<Longrightarrow> spells_group [c] (v # args) ((c, Some v) # os)"

text \<open>A position that holds the argument of an option.\<close>

definition at_pos :: "string list \<Rightarrow> (nat \<times> nat) option \<Rightarrow> string option \<Rightarrow> bool" where
  "at_pos args p v \<longleftrightarrow> (case v of None \<Rightarrow> p = None
     | Some t \<Rightarrow> \<exists>i j. p = Some (i, j) \<and> i < length args \<and> j \<le> length (args ! i) \<and> drop j (args ! i) = t)"

text \<open>What \<open>getopt_long\<close> goes through from a position.\<close>

inductive scans :: "string list \<Rightarrow> nat \<times> nat \<Rightarrow> (char \<times> string option) list \<Rightarrow> bool" for args where
  scan_end: "getopt_long short_options long_options args pos = (End_opts, pos') \<Longrightarrow> scans args pos []"
| scan_opt: "getopt_long short_options long_options args pos = (Opt c p, pos') \<Longrightarrow> at_pos args p v \<Longrightarrow>
    scans args pos' os \<Longrightarrow> scans args pos ((c, v) # os)"

lemma drop_pre: "drop (length pre) (pre @ rest) = rest" by simp

lemma scans_start:
  assumes "getopt_long short_options long_options args p = getopt_long short_options long_options args q" "scans args q os"
  shows "scans args p os"
  using assms(2)
proof cases
  case scan_end
  then show ?thesis using assms(1) scans.scan_end by metis
next
  case scan_opt
  then show ?thesis using assms(1) scans.scan_opt by metis
qed

lemma scans_operand:
  assumes "\<not> is_option (args ! i)" "i < length args" "scans args (Suc i, 0) os"
  shows "scans args (i, 0) os"
proof -
  have "drop i args = args ! i # drop (Suc i) args" using assms(2) by (rule Cons_nth_drop_Suc [symmetric])
  with assms(1) have "next_option args i = next_option args (Suc i)" by (simp add: next_option_def)
  then have "getopt_long sh lo args (i, 0) = getopt_long sh lo args (Suc i, 0)" for sh lo by (simp add: getopt_long_def)
  then show ?thesis using assms(3) by (rule scans_start)
qed

lemma next_here: "is_option (args ! i) \<Longrightarrow> i < length args \<Longrightarrow> next_option args i = i"
  by (simp add: next_option_def Cons_nth_drop_Suc [symmetric])

lemma dash_option: "g \<noteq> [] \<Longrightarrow> is_option (CHR ''-'' # g)"
  by (simp add: is_option_def)

lemma getopt_group:
  assumes "args = pre @ (CHR ''-'' # g) # rest" "g \<noteq> []" "hd g \<noteq> CHR ''-''"
  shows "getopt_long sh lo args (length pre, 0) = getopt_long sh lo args (length pre, 1)"
proof -
  have "next_option args (length pre) = length pre"
    by (rule next_here) (use assms in \<open>simp_all add: is_option_def\<close>)
  then show ?thesis using assms by (cases g) (simp_all add: getopt_long_def)
qed

text \<open>One long option.\<close>

lemma getopt_long_name:
  assumes "args = pre @ (''--'' @ a) # rest" "a \<noteq> []"
  shows "getopt_long sh lo args (length pre, 0) = getopt_name lo args (length pre)"
proof -
  have "next_option args (length pre) = length pre"
    by (rule next_here) (use assms in \<open>simp_all add: is_option_def\<close>)
  then show ?thesis using assms by (simp add: getopt_long_def)
qed

lemma takeWhile_name: "CHR ''='' \<notin> set name \<Longrightarrow> takeWhile (\<lambda>c. c \<noteq> CHR ''='') name = name"
  "CHR ''='' \<notin> set name \<Longrightarrow> takeWhile (\<lambda>c. c \<noteq> CHR ''='') (name @ CHR ''='' # v) = name"
  by (auto simp: takeWhile_eq_all_conv takeWhile_append)

lemma nth_pre: "(pre @ a # rest) ! length pre = a" "(pre @ a # b # rest) ! Suc (length pre) = b"
  by (simp_all add: nth_append)

lemma spells_scans:
  "spells rest os \<Longrightarrow> args = pre @ rest \<Longrightarrow> scans args (length pre, 0) os"
  "spells_group g rest os \<Longrightarrow> args = pre @ (h @ g) # rest \<Longrightarrow> h \<noteq> [] \<Longrightarrow>
    scans args (if g = [] then (Suc (length pre), 0) else (length pre, length h)) os"
proof (induction arbitrary: pre and pre h rule: spells_spells_group.inducts)
  case none
  then have "getopt_long short_options long_options args (length pre, 0) = (End_opts, length pre, 0)"
    by (simp add: getopt_long_def next_option_def)
  then show ?case by (rule scan_end)
next
  case (operand a args' os)
  have "scans args (length (pre @ [a]), 0) os" by (rule operand.IH) (simp add: operand.prems)
  then have "scans args (Suc (length pre), 0) os" by simp
  then show ?case by (rule scans_operand [rotated -1]) (simp_all add: operand.prems operand.hyps)
next
  case (terminator args')
  then have "next_option args (length pre) = length pre" by (intro next_here) (simp_all add: is_option_def)
  then have "getopt_long short_options long_options args (length pre, 0) = (End_opts, length pre, 0)"
    using terminator by (simp add: getopt_long_def)
  then show ?case by (rule scan_end)
next
  case (group g args' os)
  have "scans args (if g = [] then (Suc (length pre), 0) else (length pre, length ''-'')) os"
    by (rule group.IH) (simp_all add: group.prems)
  then have "scans args (length pre, 1) os" using group.hyps by simp
  then show ?case by (rule scans_start [OF getopt_group [OF group.prems group.hyps(1,2)]])
next
  case (long_flag name lo args' os)
  have IH: "scans args (length (pre @ [''--'' @ name]), 0) os" by (rule long_flag.IH) (simp add: long_flag.prems)
  have "getopt_long short_options long_options args (length pre, 0) = (Opt (lo_val lo) None, Suc (length pre), 0)"
    unfolding getopt_long_name [OF long_flag.prems long_flag.hyps(3)]
    using long_flag.hyps by (simp add: getopt_name_def long_flag.prems takeWhile_name)
  then show ?case by (rule scan_opt) (use IH in \<open>simp_all add: at_pos_def\<close>)
next
  case (long_joined name lo args' os v)
  let ?a = "''--'' @ name @ ''='' @ v"
  have IH: "scans args (length (pre @ [?a]), 0) os" by (rule long_joined.IH) (simp add: long_joined.prems)
  have "getopt_long short_options long_options args (length pre, 0) =
      (Opt (lo_val lo) (Some (length pre, length name + 3)), Suc (length pre), 0)"
    by (subst getopt_long_name [OF long_joined.prems])
      (use long_joined.hyps in \<open>simp_all add: getopt_name_def long_joined.prems takeWhile_name\<close>)
  moreover have "at_pos args (Some (length pre, length name + 3)) (Some v)"
    by (simp add: at_pos_def long_joined.prems numeral_3_eq_3)
  ultimately show ?case using IH by (intro scan_opt) simp_all
next
  case (long_separate name lo args' os v)
  let ?a = "''--'' @ name"
  have IH: "scans args (length (pre @ [?a, v]), 0) os" by (rule long_separate.IH) (simp add: long_separate.prems)
  have "getopt_long short_options long_options args (length pre, 0) =
      (Opt (lo_val lo) (Some (Suc (length pre), 0)), Suc (Suc (length pre)), 0)"
    unfolding getopt_long_name [OF long_separate.prems long_separate.hyps(3)]
    using long_separate.hyps by (simp add: getopt_name_def long_separate.prems takeWhile_name)
  moreover have "at_pos args (Some (Suc (length pre), 0)) (Some v)"
    by (simp add: at_pos_def long_separate.prems nth_append)
  ultimately show ?case using IH by (intro scan_opt) simp_all
next
  case (group_end args' os)
  have "scans args (length (pre @ [h]), 0) os" by (rule group_end.IH) (simp add: group_end.prems)
  then show ?case by simp
next
  case (letter c g args' os)
  have IH: "scans args (if g = [] then (Suc (length pre), 0) else (length pre, length (h @ [c]))) os"
    by (rule letter.IH) (simp_all add: letter.prems)
  have "getopt_long short_options long_options args (length pre, length h) =
      (Opt c None, if g = [] then (Suc (length pre), 0) else (length pre, Suc (length h)))"
    using letter.hyps letter.prems by (simp add: getopt_long_def getopt_short_def nth_append)
  then show ?case using IH by (auto intro!: scan_opt simp: at_pos_def)
next
  case (joined c v args' os)
  have IH: "scans args (length (pre @ [h @ c # v]), 0) os" by (rule joined.IH) (simp add: joined.prems)
  have "getopt_long short_options long_options args (length pre, length h) =
      (Opt c (Some (length pre, Suc (length h))), Suc (length pre), 0)"
    using joined.hyps joined.prems by (simp add: getopt_long_def getopt_short_def nth_append)
  moreover have "at_pos args (Some (length pre, Suc (length h))) (Some v)" by (simp add: at_pos_def joined.prems)
  ultimately show ?case using IH by (auto intro!: scan_opt)
next
  case (separate c args' os v)
  have IH: "scans args (length (pre @ [h @ [c], v]), 0) os" by (rule separate.IH) (simp add: separate.prems)
  have "getopt_long short_options long_options args (length pre, length h) =
      (Opt c (Some (Suc (length pre), 0)), Suc (Suc (length pre)), 0)"
    using separate.hyps separate.prems by (simp add: getopt_long_def getopt_short_def nth_append)
  moreover have "at_pos args (Some (Suc (length pre), 0)) (Some v)" by (simp add: at_pos_def separate.prems nth_append)
  ultimately show ?case using IH by (auto intro!: scan_opt)
qed

section \<open>What the options set\<close>

record settings =
  se_prefix :: string
  se_level :: int
  se_log :: string
  se_conf :: string
  se_pid :: string
  se_help :: bool
  se_version :: bool
  se_test :: bool
  se_daemon :: bool

definition view :: "addr \<Rightarrow> world \<Rightarrow> settings option" where
  "view bz s = do {
     b \<leftarrow> deref (w_insts s) bz;
     prefix \<leftarrow> str_at s (bi_prefix b);
     log \<leftarrow> str_at s (bi_log_file b);
     conf \<leftarrow> str_at s (bi_conf_file b);
     pid \<leftarrow> str_at s (bi_pid_file b);
     Some \<lparr>se_prefix = prefix, se_level = bi_log_level b, se_log = log, se_conf = conf, se_pid = pid,
       se_help = show_help s, se_version = show_version s, se_test = test_conf s, se_daemon = daemonize s\<rparr> }"

fun apply_option :: "settings \<Rightarrow> char \<times> string option \<Rightarrow> settings" where
  "apply_option cfg (c, None) =
     (if c = CHR ''h'' then cfg\<lparr>se_help := True, se_version := True\<rparr>
      else if c = CHR ''v'' then cfg\<lparr>se_version := True\<rparr>
      else if c = CHR ''t'' then cfg\<lparr>se_test := True\<rparr>
      else cfg\<lparr>se_daemon := False\<rparr>)"
| "apply_option cfg (c, Some v) =
     (if c = CHR ''p'' then cfg\<lparr>se_prefix := v\<rparr>
      else if c = CHR ''l'' then cfg\<lparr>se_level := the (atoi v)\<rparr>
      else if c = CHR ''c'' then cfg\<lparr>se_conf := v\<rparr>
      else if c = CHR ''L'' then cfg\<lparr>se_log := v\<rparr>
      else cfg\<lparr>se_pid := v\<rparr>)"

text \<open>A directory that can be entered, and a level that is a number.\<close>

fun acceptable :: "os \<Rightarrow> char \<times> string option \<Rightarrow> bool" where
  "acceptable os (c, None) = True"
| "acceptable os (c, Some v) =
     ((c = CHR ''p'' \<longrightarrow> (\<forall>tr. 0 \<le> fst (os_call os tr (Access_X v)))) \<and>
      (c = CHR ''l'' \<longrightarrow> (\<exists>n. atoi v = Some n \<and> 0 \<le> n)))"

definition placed :: "image \<Rightarrow> world \<Rightarrow> bool" where
  "placed img s \<longleftrightarrow> (\<forall>i < length (im_args img). \<forall>j \<le> length (im_args img ! i).
     im_arg img i j \<noteq> NULL \<and> str_at s (im_arg img i j) = Some (drop j (im_args img ! i)))"

text \<open>What stays: all but those fields of the instance, the four flags and the trace, which grows by checks of
  directories only.\<close>

definition unset_inst :: "bitzer \<Rightarrow> bitzer" where
  "unset_inst b = b\<lparr>bi_prefix := 0, bi_log_level := 0, bi_log_file := 0, bi_conf_file := 0, bi_pid_file := 0\<rparr>"

definition unset :: "addr \<Rightarrow> world \<Rightarrow> world" where
  "unset bz s = s\<lparr>w_insts := (w_insts s)(bz := None), show_help := False, show_version := False, test_conf := False,
     daemonize := False, w_trace := []\<rparr>"

definition optioned :: "addr \<Rightarrow> world \<Rightarrow> world \<Rightarrow> bool" where
  "optioned bz s s' \<longleftrightarrow> unset bz s' = unset bz s \<and>
     (\<exists>b b'. deref (w_insts s) bz = Some b \<and> deref (w_insts s') bz = Some b' \<and> unset_inst b' = unset_inst b) \<and>
     (\<exists>tr. w_trace s' = tr @ w_trace s \<and> list_all (\<lambda>e. \<exists>dir. fst e = Access_X dir) tr)"

lemma optioned_refl: "deref (w_insts s) bz = Some b \<Longrightarrow> optioned bz s s"
  by (simp add: optioned_def)

lemma optioned_trans: "optioned bz s s' \<Longrightarrow> optioned bz s' s'' \<Longrightarrow> optioned bz s s''"
  unfolding optioned_def by (elim conjE exE) (intro conjI exI [of _ "_ @ _"]; simp)

lemma optioned_fields:
  assumes "optioned bz s s'"
  shows "w_bytes s' = w_bytes s" "deref (w_insts s') bz \<noteq> None"
proof -
  have "w_bytes (unset bz s') = w_bytes (unset bz s)" using assms by (simp add: optioned_def)
  then show "w_bytes s' = w_bytes s" by (simp add: unset_def)
  show "deref (w_insts s') bz \<noteq> None" using assms by (auto simp: optioned_def)
qed

lemma optioned_str: "optioned bz s s' \<Longrightarrow> str_at s' = str_at s"
  by (intro ext) (simp add: str_at_def optioned_fields)

lemma optioned_placed: "optioned bz s s' \<Longrightarrow> placed img s \<Longrightarrow> placed img s'"
  by (simp add: placed_def optioned_str)

section \<open>The letters\<close>

definition option_letter :: "char \<Rightarrow> bool \<Rightarrow> bool" where
  "option_letter c arg \<longleftrightarrow> c \<in> set (if arg then ''plcLP'' else ''hvtD'')"

lemma short_letter: "short_has_arg short_options c = Some b \<Longrightarrow> option_letter c b"
  by (auto simp: short_options_def option_letter_def split: if_splits)

lemma filter_head: "filter P xs = y # ys \<Longrightarrow> y \<in> set xs"
proof -
  assume "filter P xs = y # ys"
  then have "y \<in> set (filter P xs)" by simp
  then show ?thesis by simp
qed

lemma find_long_in: "find_long tbl name = Some lo \<Longrightarrow> lo \<in> set tbl"
  by (auto simp: find_long_def split: list.splits if_splits intro: filter_head)

lemma long_letter: "find_long long_options name = Some lo \<Longrightarrow> option_letter (lo_val lo) (lo_has_arg lo)"
  by (drule find_long_in) (auto simp: long_options_def option_letter_def)

lemma getopt_letter: "getopt_long short_options long_options args pos = (Opt c p, pos') \<Longrightarrow> option_letter c (p \<noteq> None)"
proof -
  assume g: "getopt_long short_options long_options args pos = (Opt c p, pos')"
  have short: "getopt_short short_options args i j = (Opt c p, pos') \<Longrightarrow> option_letter c (p \<noteq> None)" for i j
    by (auto simp: getopt_short_def Let_def split: option.splits bool.splits if_splits dest!: short_letter)
  have long: "getopt_name long_options args i = (Opt c p, pos') \<Longrightarrow> option_letter c (p \<noteq> None)" for i
    by (auto simp: getopt_name_def Let_def split: option.splits bool.splits if_splits dest!: long_letter)
  from g show ?thesis by (auto simp: getopt_long_def Let_def split: if_splits dest: short long)
qed

section \<open>One option\<close>

lemma set_inst_ok: "deref (w_insts s) bz = Some b \<Longrightarrow> bindr (set_inst bz u) f s = f () (s\<lparr>w_insts := (w_insts s)(bz \<mapsto> u b)\<rparr>)"
  by (simp add: set_inst_def run_simps poke_def)

lemma view_inst: "view bz s = Some cfg \<Longrightarrow> \<exists>b. deref (w_insts s) bz = Some b"
  by (auto simp: view_def bind_eq_Some_conv)

text \<open>The flags.\<close>

lemma optioned_flags:
  assumes "view bz s = Some cfg"
  shows "optioned bz s (s\<lparr>show_version := v, show_help := h, test_conf := t, daemonize := d\<rparr>)"
    "view bz (s\<lparr>show_version := v, show_help := h, test_conf := t, daemonize := d\<rparr>) =
       Some (cfg\<lparr>se_help := h, se_version := v, se_test := t, se_daemon := d\<rparr>)"
  using view_inst [OF assms] assms by (auto simp: optioned_def unset_def view_def bind_eq_Some_conv str_at_def)

lemma same_flags: "(s :: world) = s\<lparr>show_help := show_help s, show_version := show_version s, test_conf := test_conf s, daemonize := daemonize s\<rparr>"
  by simp

lemma view_flags:
  "view bz s = Some cfg \<Longrightarrow> se_help cfg = show_help s \<and> se_version cfg = show_version s \<and> se_test cfg = test_conf s \<and> se_daemon cfg = daemonize s"
  by (auto simp: view_def bind_eq_Some_conv)

lemma ex_true [simp]: "\<exists>x. x"
  by blast

lemma bz_option_flag:
  assumes "view bz s = Some cfg" "option_letter c False"
  shows "returns (bz_option os bz c p) (\<lambda>go s'. go \<and> optioned bz s s' \<and> view bz s' = Some (apply_option cfg (c, None))) s"
proof -
  note f = optioned_flags [OF assms(1)] view_flags [OF assms(1)]
  from assms(2) consider "c = CHR ''h''" | "c = CHR ''v''" | "c = CHR ''t''" | "c = CHR ''D''" by (auto simp: option_letter_def)
  then show ?thesis
  proof cases
    case 1
    with f(3) f(1,2) [where h = True and v = True and t = "test_conf s" and d = "daemonize s"] show ?thesis
      by (cases cfg) (simp add: returns_def bz_option_def run_simps)
  next
    case 2
    with f(3) f(1,2) [where h = "show_help s" and v = True and t = "test_conf s" and d = "daemonize s"] show ?thesis
      by (cases cfg) (simp add: returns_def bz_option_def run_simps)
  next
    case 3
    with f(3) f(1,2) [where h = "show_help s" and v = "show_version s" and t = True and d = "daemonize s"] show ?thesis
      by (cases cfg) (simp add: returns_def bz_option_def run_simps)
  next
    case 4
    with f(3) f(1,2) [where h = "show_help s" and v = "show_version s" and t = "test_conf s" and d = False] show ?thesis
      by (cases cfg) (simp add: returns_def bz_option_def run_simps)
  qed
qed

text \<open>The fields of the instance.\<close>

lemma optioned_inst:
  assumes "deref (w_insts s) bz = Some b" "unset_inst b' = unset_inst b" "list_all (\<lambda>e. \<exists>dir. fst e = Access_X dir) tr"
  shows "optioned bz s (s\<lparr>w_insts := (w_insts s)(bz \<mapsto> b'), w_trace := tr @ w_trace s\<rparr>)"
  using assms by (auto simp: optioned_def unset_def deref_upd dest: deref_not_NULL)

lemma bz_option_value:
  assumes v: "view bz s = Some cfg" and c: "option_letter c True" and a: "acceptable os (c, Some t)" and p: "str_at s p = Some t"
  shows "returns (bz_option os bz c p) (\<lambda>go s'. go \<and> optioned bz s s' \<and> view bz s' = Some (apply_option cfg (c, Some t))) s"
proof -
  obtain b where b: "deref (w_insts s) bz = Some b" using view_inst [OF v] by auto
  have bz: "bz \<noteq> NULL" using b by (auto dest: deref_not_NULL)
  let ?at = "\<lambda>b'. s\<lparr>w_insts := (w_insts s)(bz \<mapsto> b')\<rparr>"
  have step: ?thesis if "bz_option os bz c p s = Some (Ret True, ?at b')" "unset_inst b' = unset_inst b"
      "view bz (?at b') = Some (apply_option cfg (c, Some t))" for b'
    using that optioned_inst [OF b that(2), of "[]"] by (simp add: returns_def)
  note views = view_def bind_eq_Some_conv deref_upd str_at_def
  from c consider "c = CHR ''p''" | "c = CHR ''l''" | "c = CHR ''c''" | "c = CHR ''L''" | "c = CHR ''P''" by (auto simp: option_letter_def)
  then show ?thesis
  proof cases
    case 1
    let ?s1 = "?at (b\<lparr>bi_prefix := p\<rparr>)"
    obtain r e where r: "os_call os (w_trace s) (Access_X t) = (r, e)" by (cases "os_call os (w_trace s) (Access_X t)")
    let ?s2 = "?s1\<lparr>w_trace := [(Access_X t, r)] @ w_trace s\<rparr>"
    have ok: "\<not> r < 0" using a 1 r by (auto simp: not_less dest: spec [of _ "w_trace s"])
    have str: "str_at ?s1 p = Some t" using p by (simp add: str_at_def)
    have "bz_option os bz c p s = Some (Ret True, ?s2)" using 1 r ok str bz
      by (simp add: bz_option_def set_inst_ok [OF b] bindr_assoc get_inst_def get_str_def run_simps peek_def deref_upd)
    moreover have "optioned bz s ?s2"
      using optioned_inst [OF b, of "b\<lparr>bi_prefix := p\<rparr>" "[(Access_X t, r)]"] by (simp add: unset_inst_def)
    moreover have "view bz ?s2 = Some (apply_option cfg (c, Some t))" using 1 v b bz p by (auto simp: views)
    ultimately show ?thesis by (simp add: returns_def)
  next
    case 2
    then obtain n where n: "atoi t = Some n" "\<not> n < 0" using a by auto
    show ?thesis
      by (rule step [of "b\<lparr>bi_log_level := n\<rparr>"])
        (use 2 n v b bz p in \<open>auto simp: bz_option_def set_inst_ok [OF b] bindr_assoc get_str_def run_simps unset_inst_def views\<close>)
  next
    case 3
    show ?thesis
      by (rule step [of "b\<lparr>bi_conf_file := p\<rparr>"])
        (use 3 v b bz p in \<open>auto simp: bz_option_def set_inst_ok [OF b] run_simps unset_inst_def views\<close>)
  next
    case 4
    show ?thesis
      by (rule step [of "b\<lparr>bi_log_file := p\<rparr>"])
        (use 4 v b bz p in \<open>auto simp: bz_option_def set_inst_ok [OF b] run_simps unset_inst_def views\<close>)
  next
    case 5
    show ?thesis
      by (rule step [of "b\<lparr>bi_pid_file := p\<rparr>"])
        (use 5 v b bz p in \<open>auto simp: bz_option_def set_inst_ok [OF b] run_simps unset_inst_def views\<close>)
  qed
qed

section \<open>All options\<close>

lemma options_step:
  assumes "getopt_long short_options long_options (im_args img) pos = (Opt c p, pos')"
  shows "bz_get_options_from os img bz pos s =
    bindr (bz_option os bz c (case p of None \<Rightarrow> NULL | Some (i, j) \<Rightarrow> im_arg img i j))
      (\<lambda>go. if go then bz_get_options_from os img bz pos' else ret BZ_ERROR) s"
  by (subst bz_get_options_from.simps) (simp add: assms, rule arg_cong [of _ _ "\<lambda>f. bindr _ f s"], auto simp: ret_def fun_eq_iff)

lemma scans_options:
  assumes "scans (im_args img) pos opts" "view bz s = Some cfg" "placed img s" "list_all (acceptable os) opts"
  shows "returns (bz_get_options_from os img bz pos) (\<lambda>r s'. r = BZ_OK \<and> optioned bz s s' \<and>
    view bz s' = Some (foldl apply_option cfg opts)) s"
  using assms
proof (induction arbitrary: s cfg)
  case (scan_end pos pos')
  obtain b where "deref (w_insts s) bz = Some b" using view_inst [OF scan_end.prems(1)] by auto
  then have "optioned bz s s" by (rule optioned_refl)
  then show ?case using scan_end by (simp add: returns_def bz_get_options_from.simps)
next
  case (scan_opt pos c p pos' v opts)
  let ?p = "case p of None \<Rightarrow> NULL | Some (i, j) \<Rightarrow> im_arg img i j"
  have letter: "option_letter c (v \<noteq> None)"
    using getopt_letter [OF scan_opt.hyps(1)] scan_opt.hyps(2) by (auto simp: at_pos_def split: option.splits)
  have "returns (bz_option os bz c ?p) (\<lambda>go s'. go \<and> optioned bz s s' \<and> view bz s' = Some (apply_option cfg (c, v))) s"
  proof (cases v)
    case None
    with letter show ?thesis using bz_option_flag [OF scan_opt.prems(1)] by simp
  next
    case (Some t)
    then obtain i j where ij: "p = Some (i, j)" "i < length (im_args img)" "j \<le> length (im_args img ! i)" "drop j (im_args img ! i) = t"
      using scan_opt.hyps(2) by (auto simp: at_pos_def)
    then have "str_at s ?p = Some t" using scan_opt.prems(2) by (simp add: placed_def)
    with letter Some show ?thesis using bz_option_value [OF scan_opt.prems(1)] scan_opt.prems(3) by simp
  qed
  then obtain s1 where s1: "bz_option os bz c ?p s = Some (Ret True, s1)" "optioned bz s s1"
    "view bz s1 = Some (apply_option cfg (c, v))" by (auto elim!: returnsE)
  have "returns (bz_get_options_from os img bz pos') (\<lambda>r s'. r = BZ_OK \<and> optioned bz s1 s' \<and>
      view bz s' = Some (foldl apply_option (apply_option cfg (c, v)) opts)) s1"
    by (rule scan_opt.IH [OF s1(3) optioned_placed [OF s1(2) scan_opt.prems(2)]]) (use scan_opt.prems(3) in simp)
  then show ?case using s1(1) optioned_trans [OF s1(2)]
    by (auto simp: returns_def options_step [OF scan_opt.hyps(1)] bindr_Ret)
qed

section \<open>Every argument list is read to its end\<close>
















section \<open>An example program image\<close>

text \<open>The command \<open>bitzer -D --pid-file=/run/b.pid -l3\<close>. The literals and the arguments lie in one block that no
  pointer of the program points to.\<close>

definition ex_args :: "string list" where
  "ex_args = [''bitzer'', ''-D'', ''--pid-file=/run/b.pid'', ''-l3'']"

definition ex_image :: image where
  "ex_image = \<lparr>im_install_prefix = ''/opt'', im_prefix = 9010, im_log_path = 9100, im_conf_path = 9200, im_pid_path = 9300,
     im_args = ex_args, im_arg = (\<lambda>i j. 10000 + 100 * i + j), im_bz = 9400\<rparr>"

definition ex_arg_bytes :: "nat \<Rightarrow> nat \<Rightarrow> char option list option" where
  "ex_arg_bytes i j = (if i < 4 \<and> j \<le> length (ex_args ! i) then Some (cstr (drop j (ex_args ! i))) else None)"

definition ex_bytes :: "addr \<rightharpoonup> char option list" where
  "ex_bytes p = (if 10000 \<le> p then ex_arg_bytes ((p - 10000) div 100) ((p - 10000) mod 100)
     else if p = 9010 then Some (cstr ''/opt'') else if p = 9100 then Some (cstr ''log/bitzer.log'')
     else if p = 9200 then Some (cstr ''conf/bitzer.conf'') else if p = 9300 then Some (cstr ''log/bitzer.pid'') else None)"

definition ex_inst :: bitzer where
  "ex_inst = \<lparr>bi_log_level = 6, bi_prefix = 9010, bi_log_file = 9100, bi_conf_file = 9200, bi_pid = - 1, bi_pid_file = 9300,
     bi_log_file_alloc = False, bi_conf_file_alloc = False, bi_pid_file_alloc = False, bi_hostname = ''host'', bi_log = 0\<rparr>"

definition ex_start_world :: world where
  "ex_start_world = ex_world\<lparr>w_blocks := [(9000, 2000)], w_bytes := ex_bytes, w_insts := [9400 \<mapsto> ex_inst]\<rparr>"

definition ex_settings :: settings where
  "ex_settings = \<lparr>se_prefix = ''/opt'', se_level = 6, se_log = ''log/bitzer.log'', se_conf = ''conf/bitzer.conf'',
     se_pid = ''log/bitzer.pid'', se_help = False, se_version = False, se_test = False, se_daemon = False\<rparr>"

lemma ex_placed: "placed ex_image ex_start_world"
proof -
  have nn: "no_nul (ex_args ! i)" "length (ex_args ! i) < 100" if "i < length ex_args" for i
  proof -
    have "list_all (\<lambda>a. no_nul a \<and> length a < 100) ex_args" by (simp add: ex_args_def no_nul_def)
    with that show "no_nul (ex_args ! i)" "length (ex_args ! i) < 100" by (simp_all add: list_all_length)
  qed
  have "str_at ex_start_world (im_arg ex_image i j) = Some (drop j (ex_args ! i))" if "i < length ex_args" "j \<le> length (ex_args ! i)" for i j
  proof -
    have j: "j < 100" using that nn(2) [OF that(1)] by linarith
    have i: "i < 4" using that(1) by (simp add: ex_args_def)
    have "no_nul (drop j (ex_args ! i))" using nn(1) [OF that(1)] by (auto simp: no_nul_def list_all_iff dest: in_set_dropD)
    then have c: "cstring (cstr (drop j (ex_args ! i))) = Some (drop j (ex_args ! i))"
      using cstring_cstr [of "drop j (ex_args ! i)" "[]"] by simp
    have d: "(100 * i + j) div 100 = i" "(100 * i + j) mod 100 = j" using j by simp_all
    have "ex_bytes (10000 + (100 * i + j)) = ex_arg_bytes i j" using j by (simp add: ex_bytes_def)
    also have "\<dots> = Some (cstr (drop j (ex_args ! i)))" using that(2) i by (simp only: ex_arg_bytes_def if_True simp_thms)
    finally have "ex_bytes (10000 + 100 * i + j) = Some (cstr (drop j (ex_args ! i)))" by (simp only: add.assoc)
    then show ?thesis using c by (simp add: ex_image_def str_at_def ex_start_world_def deref_def)
  qed
  then show ?thesis by (simp add: placed_def ex_image_def)
qed

lemma ex_view: "view 9400 ex_start_world = Some ex_settings"
  by (simp add: view_def ex_start_world_def ex_inst_def deref_def str_at_def ex_bytes_def cstr_def ex_world_def ex_settings_def)

lemma ex_spells: "spells (tl (im_args ex_image)) [(CHR ''D'', None), (CHR ''P'', Some ''/run/b.pid''), (CHR ''l'', Some ''3'')]"
proof -
  have "spells [''-l3''] [(CHR ''l'', Some ''3'')]"
    by (rule group) (simp_all add: spells_spells_group.none joined short_options_def)
  then have "spells [''--'' @ ''pid-file'' @ ''='' @ ''/run/b.pid'', ''-l3''] [(lo_val \<lparr>lo_name = ''pid-file'', lo_has_arg = True, lo_val = CHR ''P''\<rparr>, Some ''/run/b.pid''), (CHR ''l'', Some ''3'')]"
    by (intro long_joined) (simp_all add: find_long_def long_options_def)
  then have "spells_group ''D'' [''--pid-file=/run/b.pid'', ''-l3''] [(CHR ''D'', None), (CHR ''P'', Some ''/run/b.pid''), (CHR ''l'', Some ''3'')]"
    by (intro letter group_end) (simp_all add: short_options_def)
  then show ?thesis by (simp add: ex_image_def ex_args_def group)
qed

section \<open>The properties\<close>

text \<open>C26: The arguments that spell out options, in any of the ways of \<open>getopt_long\<close>, set exactly those: what the
  instance and the flags hold afterwards is what the options say, in order, over what they held before; nothing
  else changes.\<close>

theorem bz_get_options_correct:
  assumes "spells (tl (im_args img)) opts" "im_args img \<noteq> []" "placed img s" "view bz s = Some cfg" "list_all (acceptable os) opts"
  shows "returns (bz_get_options os img bz) (\<lambda>r s'. r = BZ_OK \<and> optioned bz s s' \<and>
    view bz s' = Some (foldl apply_option (cfg\<lparr>se_daemon := True\<rparr>) opts)) s"
proof -
  let ?s = "s\<lparr>daemonize := True\<rparr>"
  have sc: "scans (im_args img) (1, 0) opts"
    using spells_scans(1) [OF assms(1), of "im_args img" "[hd (im_args img)]"] assms(2) by simp
  have s1: "placed img ?s" "view bz ?s = Some (cfg\<lparr>se_daemon := True\<rparr>)"
    using assms(3,4) by (auto simp: placed_def str_at_def view_def bind_eq_Some_conv)
  have "optioned bz s ?s" using view_inst [OF assms(4)] by (auto simp: optioned_def unset_def)
  note o1 = this
  show ?thesis unfolding bz_get_options_def
    by (rule returns_bindr, simp only: returns_basic, rule returns_mono [OF scans_options [OF sc s1(2,1) assms(5)]])
      (auto intro: optioned_trans [OF o1])
qed

theorem bz_get_options_correct_witness:
  "returns (bz_get_options ex_os ex_image 9400) (\<lambda>r s'. r = BZ_OK \<and>
     view 9400 s' = Some (ex_settings\<lparr>se_pid := ''/run/b.pid'', se_level := 3\<rparr>)) ex_start_world"
proof -
  have "atoi ''3'' = Some 3" by code_simp
  then have "list_all (acceptable ex_os) [(CHR ''D'', None), (CHR ''P'', Some ''/run/b.pid''), (CHR ''l'', Some ''3'')]"
    "foldl apply_option (ex_settings\<lparr>se_daemon := True\<rparr>) [(CHR ''D'', None), (CHR ''P'', Some ''/run/b.pid''), (CHR ''l'', Some ''3'')]
      = ex_settings\<lparr>se_pid := ''/run/b.pid'', se_level := 3\<rparr>" by (simp_all add: ex_settings_def)
  moreover have "im_args ex_image \<noteq> []" by (simp add: ex_image_def ex_args_def)
  ultimately show ?thesis
    by (intro returns_mono [OF bz_get_options_correct [OF ex_spells _ ex_placed ex_view]]) auto
qed



end
