(* ===== verification/Daemon.thy ===== *)
theory Daemon
  imports Options Shutdown
begin

text \<open>
  The steps by which \<open>main\<close> becomes the daemon: \<open>bz_daemonize\<close>, the pid file, the names of the files, the title of the
  process.
\<close>

section \<open>Two forks\<close>





lemma call_valid_log: "valid_log (s\<lparr>w_trace := tr, w_errno := e\<rparr>) log = valid_log s log"
  by (simp add: valid_log_def)

lemma bindr_call:
  "os_call os (w_trace s) c = (r, e) \<Longrightarrow> s' = s\<lparr>w_trace := (c, r) # w_trace s, w_errno := (if r < 0 then e else w_errno s)\<rparr> \<Longrightarrow>
   bindr (syscall os c) k s = k r s'"
  by (simp add: run_simps)


section \<open>The pid file\<close>

lemma digit_not_space: "48 \<le> (of_char c :: nat) \<Longrightarrow> \<not> is_space c"
  by (auto simp: is_space_def)

lemma atoi_nat:
  assumes "rest = [] \<or> \<not> is_digit (hd rest)"
  shows "takeWhile is_digit (nat_digits n @ rest) = nat_digits n"
proof -
  have "takeWhile is_digit rest = []" using assms by (cases rest) auto
  moreover have "\<And>c. c \<in> set (nat_digits n) \<Longrightarrow> is_digit c" using nat_digits_digits by (fastforce simp: is_digit_def)
  ultimately show ?thesis by (simp add: takeWhile_append)
qed

lemma atoi_int_digits:
  assumes r: "rest = [] \<or> \<not> is_digit (hd rest)" and i: "- (2 ^ 31) \<le> i" "i < 2 ^ 31"
  shows "atoi (int_digits i @ rest) = Some i"
proof (cases "i < 0")
  case True
  let ?t = "CHR ''-'' # nat_digits (nat (- i)) @ rest"
  have "dropWhile is_space ?t = ?t" by (simp add: is_space_def)
  with True r i show ?thesis by (simp add: atoi_def int_digits_def atoi_nat Let_def)
next
  case False
  let ?d = "nat_digits (nat i)"
  obtain c cs where c: "?d = c # cs" by (cases ?d) simp_all
  have d: "48 \<le> (of_char c :: nat)" using nat_digits_digits [of c "nat i"] c by simp
  have "dropWhile is_space (?d @ rest) = ?d @ rest" using digit_not_space [OF d] c by simp
  moreover have "c \<noteq> CHR ''-''" "c \<noteq> CHR ''+''" using d by auto
  then have "take 1 (?d @ rest) \<noteq> ''-''" "take 1 (?d @ rest) \<noteq> ''+''" using c by simp_all
  ultimately show ?thesis using False r i by (simp add: atoi_def int_digits_def atoi_nat Let_def)
qed

lemma int_digits_length:
  assumes "- (2 ^ 31) \<le> i" "i < 2 ^ 31"
  shows "length (int_digits i) \<le> 11"
proof -
  have "length (nat_digits n) \<le> 10" if "n \<le> 2 ^ 31" for n by (rule nat_digits_length) (use that in simp_all)
  moreover have "nat i \<le> 2 ^ 31" "nat (- i) \<le> 2 ^ 31" using assms by (simp_all add: nat_le_iff)
  ultimately have "length (nat_digits (nat i)) \<le> 10" "length (nat_digits (nat (- i))) \<le> 10" by blast+
  then show ?thesis by (simp add: int_digits_def)
qed

definition pid_text :: "int \<Rightarrow> string" where
  "pid_text pid = int_digits pid @ [CHR 0x0A]"

lemma ex_false [simp]: "\<exists>x. \<not> x"
  by blast

text \<open>How \<open>bz_write_pidfile\<close> ends: the file holds the pid and is closed, or it was not opened, or not written to and closed.\<close>

definition pid_outcome :: "world \<Rightarrow> string \<Rightarrow> int \<Rightarrow> int \<Rightarrow> world \<Rightarrow> bool" where
  "pid_outcome s path pid r s' \<longleftrightarrow> (\<exists>fd tr opened. opened = (Open path [O_WRONLY, O_CREAT, O_TRUNC] (Some mode_0644), fd) \<and>
     list_all (\<lambda>e. is_write (fst e)) tr \<and>
     (if r = BZ_OK then 0 \<le> fd \<and> (\<exists>n x. 0 \<le> n \<and> w_trace s' = [(Close fd, x), (Write fd (pid_text pid), n), opened] @ w_trace s)
      else r = BZ_ERROR \<and>
        (fd < 0 \<and> w_trace s' = tr @ opened # w_trace s \<or>
         0 \<le> fd \<and> (\<exists>n x. n < 0 \<and> w_trace s' = (Close fd, x) # tr @ [(Write fd (pid_text pid), n), opened] @ w_trace s))))"

lemma pid_error:
  assumes "valid_log s log" "str_at s pf \<noteq> None"
  shows "returns (bindr (strerror os) (\<lambda>e. bz_log_error os log file line [Lit a, Chr q, Str pf, Chr q, Lit b, Txt e])) (\<lambda>_ s'. quiet os s s') s"
  unfolding strerror_def by (rule returns_bindr, simp, rule bz_log_quiet(2)) (use assms in auto)

lemma write_pidfile_run:
  assumes b: "deref (w_insts s) bz = Some b" and log: "valid_log s (bi_log b)" and path: "str_at s (bi_pid_file b) = Some path"
    and pid: "- (2 ^ 31) \<le> bi_pid b" "bi_pid b < 2 ^ 31"
  shows "returns (bz_write_pidfile os bz) (pid_outcome s path (bi_pid b)) s"
proof -
  let ?log = "bi_log b" let ?pf = "bi_pid_file b" let ?d = "int_digits (bi_pid b)"
  let ?open = "Open path [O_WRONLY, O_CREAT, O_TRUNC] (Some mode_0644)"
  obtain fd e where o: "os_call os (w_trace s) ?open = (fd, e)" by (cases "os_call os (w_trace s) ?open")
  define s1 where "s1 = s\<lparr>w_trace := (?open, fd) # w_trace s, w_errno := (if fd < 0 then e else w_errno s)\<rparr>"
  let ?put = "Write fd (pid_text (bi_pid b))"
  obtain n e2 where w: "os_call os (w_trace s1) ?put = (n, e2)" by (cases "os_call os (w_trace s1) ?put")
  define s2 where "s2 = s1\<lparr>w_trace := (?put, n) # w_trace s1, w_errno := (if n < 0 then e2 else w_errno s1)\<rparr>"
  have len: "length ?d \<le> 11" using int_digits_length [OF pid] .
  have fmt: "vsnprintf 21 ?d = (int (length ?d), ?d)" using len by (simp add: vsnprintf_def INT_MAX_def)
  have b1: "deref (w_insts s1) bz = Some b" using b by (simp add: s1_def)
  have fits: "\<not> 21 \<le> int (length ?d)" using len by simp
  have run: "bz_write_pidfile os bz s =
    (if fd < 0 then bindr (strerror os) (\<lambda>e. bindr (bz_log_error os ?log ''main.c'' 272
        [Lit ''open pid file '', Chr (CHR 0x27), Str ?pf, Chr (CHR 0x27), Lit '' failed: '', Txt e]) (\<lambda>_. ret BZ_ERROR)) s1
     else if n < 0 then bindr (strerror os) (\<lambda>e. bindr (bz_log_error os ?log ''main.c'' 285
        [Lit ''write pid file '', Chr (CHR 0x27), Str ?pf, Chr (CHR 0x27), Lit '' failed: '', Txt e]) (\<lambda>_.
        bindr (syscall os (Close fd)) (\<lambda>_. ret BZ_ERROR))) s2
     else bindr (syscall os (Close fd)) (\<lambda>_. ret BZ_OK) s2)"
    unfolding bz_write_pidfile_def get_ok(3) [OF b] get_ok(4) [OF path] bindr_call [OF o s1_def]
    using fits by (simp add: get_ok(3) [OF b1] BZ_INT64_LEN_def fmt bindr_call [OF w s2_def, unfolded pid_text_def])
  have close: "\<exists>x e'. bindr (syscall os (Close fd)) (\<lambda>_. ret r) s' = Some (Ret r, s'\<lparr>w_trace := (Close fd, x) # w_trace s', w_errno := e'\<rparr>)" for s' and r :: int
  proof -
    obtain x e' where x: "os_call os (w_trace s') (Close fd) = (x, e')" by (cases "os_call os (w_trace s') (Close fd)")
    show ?thesis by (intro exI [of _ x] exI [of _ "if x < 0 then e' else w_errno s'"]) (simp add: run_simps x)
  qed
  have v1: "valid_log s1 ?log" "str_at s1 ?pf \<noteq> None" "valid_log s2 ?log" "str_at s2 ?pf \<noteq> None"
    using log path by (simp_all add: s1_def s2_def valid_log_def str_at_def)
  consider "fd < 0" | "\<not> fd < 0" "n < 0" | "\<not> fd < 0" "\<not> n < 0" by blast
  then show ?thesis
  proof cases
    case 1
    obtain s3 tr where s3: "bindr (strerror os) (\<lambda>e. bz_log_error os ?log ''main.c'' 272
        [Lit ''open pid file '', Chr (CHR 0x27), Str ?pf, Chr (CHR 0x27), Lit '' failed: '', Txt e]) s1 = Some (Ret (), s3)"
      "w_trace s3 = tr @ w_trace s1" "list_all (\<lambda>e. is_write (fst e)) tr"
      using pid_error [OF v1(1,2)] unfolding returns_def quiet_def by fastforce
    then have "bz_write_pidfile os bz s = Some (Ret BZ_ERROR, s3)"
      using 1 run by (simp add: bindr_assoc [symmetric] bindr_Ret run_ret)
    then show ?thesis using 1 s3(2,3) by (auto simp: returns_def pid_outcome_def s1_def)
  next
    case 2
    obtain s3 tr where s3: "bindr (strerror os) (\<lambda>e. bz_log_error os ?log ''main.c'' 285
        [Lit ''write pid file '', Chr (CHR 0x27), Str ?pf, Chr (CHR 0x27), Lit '' failed: '', Txt e]) s2 = Some (Ret (), s3)"
      "w_trace s3 = tr @ w_trace s2" "list_all (\<lambda>e. is_write (fst e)) tr"
      using pid_error [OF v1(3,4)] unfolding returns_def quiet_def by fastforce
    obtain x e' where c: "bindr (syscall os (Close fd)) (\<lambda>_. ret BZ_ERROR) s3 = Some (Ret BZ_ERROR, s3\<lparr>w_trace := (Close fd, x) # w_trace s3, w_errno := e'\<rparr>)"
      using close by blast
    have "bz_write_pidfile os bz s = bindr (bindr (strerror os) (\<lambda>e. bz_log_error os ?log ''main.c'' 285
        [Lit ''write pid file '', Chr (CHR 0x27), Str ?pf, Chr (CHR 0x27), Lit '' failed: '', Txt e]))
        (\<lambda>_. bindr (syscall os (Close fd)) (\<lambda>_. ret BZ_ERROR)) s2" using 2 run by (simp add: bindr_assoc)
    also have "\<dots> = bindr (syscall os (Close fd)) (\<lambda>_. ret BZ_ERROR) s3" by (rule bindr_Ret) (rule s3(1))
    finally have "bz_write_pidfile os bz s = Some (Ret BZ_ERROR, s3\<lparr>w_trace := (Close fd, x) # w_trace s3, w_errno := e'\<rparr>)"
      using c by simp
    moreover have "w_trace s3 = tr @ [(?put, n), (?open, fd)] @ w_trace s" using s3(2) by (simp add: s2_def s1_def)
    then have "pid_outcome s path (bi_pid b) BZ_ERROR (s3\<lparr>w_trace := (Close fd, x) # w_trace s3, w_errno := e'\<rparr>)"
      unfolding pid_outcome_def using 2 s3(3) by (intro exI [of _ fd] exI [of _ tr]) simp
    ultimately show ?thesis by (simp add: returns_def)
  next
    case 3
    then show ?thesis using run close [of BZ_OK s2]
      by (auto simp: returns_def pid_outcome_def s2_def s1_def intro!: exI [of _ "[]"])
  qed
qed

section \<open>The names of the files\<close>

definition absolute :: "string \<Rightarrow> string \<Rightarrow> string" where
  "absolute prefix path = (if take 1 path = ''/'' then path else prefix @ (if last prefix = CHR ''/'' then [] else ''/'') @ path)"

lemma put_bytes_run:
  "deref (w_bytes s) p = Some d \<Longrightarrow> i + length bs \<le> length d \<Longrightarrow>
   bindr (put_bytes p i bs) f s = f () (s\<lparr>w_bytes := (w_bytes s)(p \<mapsto> take i d @ bs @ drop (i + length bs) d)\<rparr>)"
  by (simp add: put_bytes_def run_simps)

definition named :: "addr \<Rightarrow> bitzer \<Rightarrow> (addr \<Rightarrow> bitzer \<Rightarrow> bitzer) \<Rightarrow> string \<Rightarrow> nat \<Rightarrow> world \<Rightarrow> world \<Rightarrow> bool" where
  "named bz b upd t n s s' \<longleftrightarrow> (\<exists>name bs. name \<noteq> NULL \<and> fresh_block (w_blocks s) name n \<and> length bs = n \<and> cstring bs = Some t \<and>
     s' = s\<lparr>w_blocks := (name, n) # w_blocks s, w_bytes := (w_bytes s)(name \<mapsto> bs), w_insts := (w_insts s)(bz \<mapsto> upd name b)\<rparr>)"

lemma strcat_if_relative_run:
  assumes b: "deref (w_insts s) bz = Some b" and path: "str_at s (get b) = Some path" and prefix: "str_at s (bi_prefix b) = Some prefix"
    and ne: "prefix \<noteq> []" and fresh: "malloc_fresh os"
  shows "returns (bz_strcat_if_relative os bz get upd) (\<lambda>ok s'. if take 1 path = ''/'' then ok \<and> s' = s
    else if ok then named bz b upd (absolute prefix path) (length prefix + length path + 2) s s' else s' = s) s"
proof (cases "take 1 path = ''/''")
  case True
  then show ?thesis
    by (simp add: returns_def bz_strcat_if_relative_def bindr_assoc get_ok(3) [OF b] get_ok(4) [OF path] BZ_PATHSEP_def run_simps)
next
  case rel: False
  let ?n = "length prefix + length path + 2"
  show ?thesis
    using fresh
  proof (cases rule: malloc_cases [of os ?n s])
    case fail
    then show ?thesis using rel
      by (simp add: returns_def bz_strcat_if_relative_def bindr_assoc get_ok(3) [OF b] get_ok(4) [OF path] get_ok(4) [OF prefix]
        BZ_PATHSEP_def run_simps bindr_Ret Let_def)
  next
    case (block name)
    let ?s1 = "s\<lparr>w_blocks := (name, ?n) # w_blocks s\<rparr>"
    let ?at = "\<lambda>bs. s\<lparr>w_blocks := (name, ?n) # w_blocks s, w_bytes := (w_bytes s)(name \<mapsto> bs)\<rparr>"
    let ?sep = "if last prefix \<noteq> CHR ''/'' then [CHR ''/''] else []"
    let ?bs = "map Some (prefix @ ?sep) @ cstr path @ replicate (1 - length ?sep) None"
    have nn: "no_nul path" "no_nul prefix" using str_at_no_nul path prefix by auto
    have joined: "absolute prefix path = (prefix @ ?sep) @ path" using rel by (simp add: absolute_def)
    then have "no_nul (absolute prefix path)" using nn by (simp add: no_nul_def)
    then have "cstring (cstr (absolute prefix path) @ replicate (1 - length ?sep) None) = Some (absolute prefix path)" by simp
    then have str: "cstring ?bs = Some (absolute prefix path)" unfolding joined by (simp add: cstr_def)
    have inst: "deref (w_insts (?at bs)) bz = Some b" for bs using b by simp
    have fill: "bindr (put_bytes name i bs) f (?at (xs @ replicate m None)) = f () (?at (xs @ bs @ replicate (m - length bs) None))"
      if "i = length xs" "length bs \<le> m" for i xs bs m and f :: "unit \<Rightarrow> bool prog"
      using that block(2) by (simp add: put_bytes_run deref_def)
    have got: "bindr (malloc os ?n) f s = f name ?s1" for f :: "addr \<Rightarrow> bool prog" using block(1) by (rule bindr_Ret)
    let ?rest = "\<lambda>at. bindr (put_bytes name at (cstr path)) (\<lambda>_. bindr (set_inst bz (upd name)) (\<lambda>_. ret True))"
    let ?all = "map Some prefix @ replicate (length path + 2) None"
    have start: "bindr (put_bytes name 0 (map Some prefix)) f (?at (replicate ?n None)) = f () (?at ?all)" for f :: "unit \<Rightarrow> bool prog"
      using fill [of 0 "[]" "map Some prefix" ?n f] by (simp add: diff_add_assoc)
    have "bz_strcat_if_relative os bz get upd s = bindr (put_bytes name 0 (map Some prefix)) (\<lambda>_.
        bindr (if last prefix \<noteq> BZ_PATHSEP then bindr (put_bytes name (length prefix) [Some BZ_PATHSEP]) (\<lambda>_. ret (length prefix + 1)) else ret (length prefix))
        ?rest) (?at (replicate ?n None))"
      using rel ne block(2)
      by (simp add: bz_strcat_if_relative_def bindr_assoc BZ_PATHSEP_def get_ok(3) [OF b] get_ok(4) [OF path] get_ok(4) [OF prefix] Let_def got bindr_basic(2) new_bytes_def
        del: add_2_eq_Suc add_2_eq_Suc' replicate_Suc)
    also have "\<dots> = bindr (set_inst bz (upd name)) (\<lambda>_. ret True) (?at ?bs)"
    proof (cases "last prefix = CHR ''/''")
      case True
      then show ?thesis unfolding start
        using fill [of "length prefix" "map Some prefix" "cstr path" "length path + 2"] by (simp add: BZ_PATHSEP_def bindr_ret)
    next
      case False
      then show ?thesis unfolding start
        using fill [of "length prefix" "map Some prefix" "[Some (CHR ''/'')]" "length path + 2"]
          fill [of "length prefix + 1" "map Some prefix @ [Some (CHR ''/'')]" "cstr path" "length path + 1"]
        by (simp add: BZ_PATHSEP_def bindr_ret bindr_assoc)
    qed
    also have "\<dots> = Some (Ret True, (?at ?bs)\<lparr>w_insts := (w_insts s)(bz \<mapsto> upd name b)\<rparr>)"
      unfolding set_inst_ok [OF inst] run_ret by simp
    finally have "bz_strcat_if_relative os bz get upd s = Some (Ret True, (?at ?bs)\<lparr>w_insts := (w_insts s)(bz \<mapsto> upd name b)\<rparr>)" .
    moreover have "named bz b upd (absolute prefix path) ?n s ((?at ?bs)\<lparr>w_insts := (w_insts s)(bz \<mapsto> upd name b)\<rparr>)"
    proof -
      have "length ?bs = ?n" by (cases "last prefix = CHR ''/''") simp_all
      with str block(2,3) show ?thesis unfolding named_def by (intro exI [of _ name] exI [of _ ?bs] conjI) simp_all
    qed
    ultimately show ?thesis unfolding returns_def using rel by (intro exI conjI) (assumption, simp only: if_False if_True)
  qed
qed

section \<open>The title\<close>

lemma overwrite_eq: "overwrite cs ts = take (length cs) ts @ replicate (length cs - length ts) (CHR '' '')"
  by (induction cs ts rule: overwrite.induct) simp_all

lemma cstring_tail: "cstring bs = Some t \<Longrightarrow> no_nul u \<Longrightarrow> cstring (map Some u @ drop (length t) bs) = Some u"
proof (induction u)
  case Nil
  then show ?case by (induction bs arbitrary: t rule: cstring.induct) (auto split: if_splits)
qed (simp add: no_nul_def)

lemma no_nul_set: "no_nul u \<longleftrightarrow> CHR 0x00 \<notin> set u"
  by (induction u) (auto simp: no_nul_def)

lemma no_nul_title: "no_nul u \<Longrightarrow> no_nul (take n u @ replicate k (CHR '' ''))"
  using in_set_takeD [of "CHR 0x00" n u] by (simp add: no_nul_set) blast

lemma cstring_length: "cstring bs = Some t \<Longrightarrow> length t < length bs"
  by (induction bs arbitrary: t rule: cstring.induct) (auto split: if_splits)

section \<open>The properties\<close>




text \<open>C36: \<open>bz_write_pidfile\<close> truncates the file, writes the pid and a newline to it and closes it, and what it writes reads
  back with \<open>atoi\<close> as the pid. A file that cannot be opened or written is logged, closed if it was opened, and gives \<open>BZ_ERROR\<close>.\<close>

theorem bz_write_pidfile_correct:
  assumes "deref (w_insts s) bz = Some b" "valid_log s (bi_log b)" "str_at s (bi_pid_file b) = Some path"
    and "- (2 ^ 31) \<le> bi_pid b" "bi_pid b < 2 ^ 31"
  shows "returns (bz_write_pidfile os bz) (pid_outcome s path (bi_pid b)) s \<and> atoi (pid_text (bi_pid b)) = Some (bi_pid b)"
  using write_pidfile_run [OF assms] atoi_int_digits [OF _ assms(4,5)] by (simp add: pid_text_def is_digit_def)

theorem bz_write_pidfile_correct_witness:
  "returns (bz_write_pidfile ex_os 601) (pid_outcome ex_serving_world ''/run/b.pid'' (bi_pid ex_serving_inst)) ex_serving_world \<and>
   pid_text 4711 = [CHR ''4'', CHR ''7'', CHR ''1'', CHR ''1'', CHR 0x0A]"
proof -
  have "bi_log ex_serving_inst = 100" "bi_pid_file ex_serving_inst = 700" "- (2 ^ 31) \<le> bi_pid ex_serving_inst" "bi_pid ex_serving_inst < 2 ^ 31"
    by (simp_all add: ex_serving_inst_def ex_instance_def)
  moreover have "pid_text 4711 = [CHR ''4'', CHR ''7'', CHR ''1'', CHR ''1'', CHR 0x0A]"
    by (simp add: pid_text_def int_digits_def nat_digits.simps char_of_eq_iff)
  ultimately show ?thesis
    using bz_write_pidfile_correct [of ex_serving_world 601 ex_serving_inst "''/run/b.pid''" ex_os] ex_serving_objects ex_serving_strings(1) by simp
qed

text \<open>C37: \<open>BZ_STRCAT_IF_RELATIVE\<close> leaves an absolute path alone and replaces a relative one by a new string, the prefix and the
  path with exactly one slash added where the prefix has none, inside the block it allocates; without memory nothing changes.\<close>

theorem bz_strcat_if_relative_correct:
  assumes "deref (w_insts s) bz = Some b" "str_at s (get b) = Some path" "str_at s (bi_prefix b) = Some prefix"
    and "prefix \<noteq> []" and "malloc_fresh os"
  shows "returns (bz_strcat_if_relative os bz get upd) (\<lambda>ok s'. if take 1 path = ''/'' then ok \<and> s' = s
    else if ok then named bz b upd (absolute prefix path) (length prefix + length path + 2) s s' else s' = s) s"
  using assms by (rule strcat_if_relative_run)

theorem bz_strcat_if_relative_correct_witness:
  "returns (bz_strcat_if_relative ex_os 9400 bi_log_file (\<lambda>p b. b\<lparr>bi_log_file := p, bi_log_file_alloc := True\<rparr>))
     (\<lambda>ok s'. if ok then named 9400 ex_inst (\<lambda>p b. b\<lparr>bi_log_file := p, bi_log_file_alloc := True\<rparr>) ''/opt/log/bitzer.log'' 20 ex_start_world s'
       else s' = ex_start_world) ex_start_world"
proof -
  have "deref (w_insts ex_start_world) 9400 = Some ex_inst" "str_at ex_start_world (bi_log_file ex_inst) = Some ''log/bitzer.log''"
    "str_at ex_start_world (bi_prefix ex_inst) = Some ''/opt''"
    by (simp_all add: ex_start_world_def ex_inst_def deref_def str_at_def ex_bytes_def cstr_def)
  moreover have relative: "(take 1 ''log/bitzer.log'' = ''/'') = False" "absolute ''/opt'' ''log/bitzer.log'' = ''/opt/log/bitzer.log''"
    "length ''/opt'' + length ''log/bitzer.log'' + 2 = 20" by code_simp+
  ultimately show ?thesis
    using bz_strcat_if_relative_correct [of ex_start_world 9400 ex_inst bi_log_file "''log/bitzer.log''" "''/opt''" ex_os
      "\<lambda>p b. b\<lparr>bi_log_file := p, bi_log_file_alloc := True\<rparr>", unfolded relative]
    by (simp add: ex_os_fresh)
qed

text \<open>C38: \<open>bz_setproctitle\<close> writes the title, cut or padded with spaces, over exactly the characters of the program's
  name: \<open>argv[0]\<close> keeps its length and its end, and nothing else changes.\<close>

theorem bz_setproctitle_correct:
  assumes "im_args img \<noteq> []" "str_at s (im_arg img 0 0) = Some name" "no_nul title"
  shows "returns (bz_setproctitle img title) (\<lambda>_ s'.
     str_at s' (im_arg img 0 0) = Some (take (length name) title @ replicate (length name - length title) (CHR '' '')) \<and>
     (\<exists>bs bs'. deref (w_bytes s) (im_arg img 0 0) = Some bs \<and> length bs' = length bs \<and> drop (length name) bs' = drop (length name) bs \<and>
       s' = s\<lparr>w_bytes := (w_bytes s)(im_arg img 0 0 \<mapsto> bs')\<rparr>)) s"
proof -
  let ?a = "im_arg img 0 0" and ?t = "take (length name) title @ replicate (length name - length title) (CHR '' '')"
  obtain bs where bs: "deref (w_bytes s) ?a = Some bs" "cstring bs = Some name" using assms(2) by (auto simp: str_at_def bind_eq_Some_conv)
  then have a: "?a \<noteq> NULL" by (auto simp: deref_def split: if_splits)
  define bs' where "bs' = map Some ?t @ drop (length name) bs"
  have "no_nul ?t" by (rule no_nul_title [OF assms(3)])
  then have title: "cstring bs' = Some ?t" unfolding bs'_def by (rule cstring_tail [OF bs(2)])
  have kept: "length bs' = length bs" "drop (length name) bs' = drop (length name) bs"
    using cstring_length [OF bs(2)] by (simp_all add: bs'_def)
  let ?s' = "s\<lparr>w_bytes := (w_bytes s)(?a \<mapsto> bs')\<rparr>"
  have "bz_setproctitle img title s = Some (Ret (), ?s')"
    unfolding bz_setproctitle_def Let_def bs'_def overwrite_eq using assms(1) bs(1)
    by (simp only: if_False get_ok(4) [OF assms(2)] modifysome_def) simp
  moreover have "str_at ?s' ?a = Some ?t" using a title by (simp add: str_at_def deref_def)
  ultimately show ?thesis unfolding returns_def
    by (intro exI [of _ ?s'] exI [of _ "()"] conjI exI [of _ bs] exI [of _ bs'] bs(1) kept refl)
qed

theorem bz_setproctitle_correct_witness:
  "returns (bz_setproctitle ex_image ''bit'') (\<lambda>_ s'. str_at s' 10000 = Some ''bit   '') ex_start_world"
proof -
  have first: "im_arg ex_image 0 0 = 10000" by (simp add: ex_image_def)
  have args: "im_args ex_image \<noteq> []" by (simp add: ex_image_def ex_args_def)
  have name: "str_at ex_start_world (im_arg ex_image 0 0) = Some ''bitzer''"
    by (simp add: first ex_start_world_def deref_def str_at_def ex_bytes_def ex_arg_bytes_def ex_args_def cstr_def)
  have title: "no_nul ''bit''" by (simp add: no_nul_def)
  have padded: "take (length ''bitzer'') ''bit'' @ replicate (length ''bitzer'' - length ''bit'') (CHR '' '') = ''bit   ''" by code_simp
  show ?thesis
    by (rule returns_mono [OF bz_setproctitle_correct [OF args name title, unfolded padded first]]) (erule conjunct1)
qed

end
