(* ===== verification/Conf_Scan.thy ===== *)
theory Conf_Scan
  imports Machine
begin

text \<open>
  The scanner of \<open>src/conf_scan.l\<close>: its patterns and rules, in the order of the file, and what a scanner
  made by \<open>flex\<close> does with them. It takes the longest match, of the first rule where several match as much;
  a character that starts no match is copied to the standard output.
\<close>

section \<open>Patterns\<close>

datatype pattern =
    Nothing
  | Empty
  | Chars "char \<Rightarrow> bool"
  | Either pattern pattern
  | Then pattern pattern
  | Many pattern

inductive matches :: "pattern \<Rightarrow> string \<Rightarrow> bool" where
  empty: "matches Empty []"
| char: "P c \<Longrightarrow> matches (Chars P) [c]"
| left: "matches p w \<Longrightarrow> matches (Either p q) w"
| right: "matches q w \<Longrightarrow> matches (Either p q) w"
| seq: "matches p v \<Longrightarrow> matches q w \<Longrightarrow> matches (Then p q) (v @ w)"
| none: "matches (Many p) []"
| some: "matches p v \<Longrightarrow> v \<noteq> [] \<Longrightarrow> matches (Many p) w \<Longrightarrow> matches (Many p) (v @ w)"

inductive_cases nothing_cases: "matches Nothing w"
inductive_simps matches_simps: "matches Empty w" "matches (Chars P) w" "matches (Either p q) w" "matches (Then p q) w"
inductive_cases many_cases: "matches (Many p) w"

lemma matches_Nothing: "\<not> matches Nothing w"
  by (auto elim: nothing_cases)

lemmas match_rules = matches_simps matches_Nothing

primrec literal :: "string \<Rightarrow> pattern" where
  "literal [] = Empty"
| "literal (c # cs) = Then (Chars (\<lambda>d. d = c)) (literal cs)"

definition At_least_one :: "pattern \<Rightarrow> pattern" where
  "At_least_one p = Then p (Many p)"

definition Optional :: "pattern \<Rightarrow> pattern" where
  "Optional p = Either p Empty"

lemma matches_literal: "matches (literal t) w \<longleftrightarrow> w = t"
  by (induction t arbitrary: w) (auto simp: match_rules)

text \<open>The rest of a pattern once a character was read.\<close>

primrec accepts_empty :: "pattern \<Rightarrow> bool" where
  "accepts_empty Nothing = False"
| "accepts_empty Empty = True"
| "accepts_empty (Chars P) = False"
| "accepts_empty (Either p q) = (accepts_empty p \<or> accepts_empty q)"
| "accepts_empty (Then p q) = (accepts_empty p \<and> accepts_empty q)"
| "accepts_empty (Many p) = True"

fun or_else :: "pattern \<Rightarrow> pattern \<Rightarrow> pattern" where
  "or_else Nothing q = q"
| "or_else p Nothing = p"
| "or_else p q = Either p q"

fun and_then :: "pattern \<Rightarrow> pattern \<Rightarrow> pattern" where
  "and_then Nothing q = Nothing"
| "and_then Empty q = q"
| "and_then p q = Then p q"

primrec after_char :: "char \<Rightarrow> pattern \<Rightarrow> pattern" where
  "after_char c Nothing = Nothing"
| "after_char c Empty = Nothing"
| "after_char c (Chars P) = (if P c then Empty else Nothing)"
| "after_char c (Either p q) = or_else (after_char c p) (after_char c q)"
| "after_char c (Then p q) = or_else (and_then (after_char c p) q) (if accepts_empty p then after_char c q else Nothing)"
| "after_char c (Many p) = and_then (after_char c p) (Many p)"

lemma accepts_empty: "accepts_empty p \<longleftrightarrow> matches p []"
  by (induction p) (auto simp: match_rules intro: matches.none)

lemma matches_or_else: "matches (or_else p q) w \<longleftrightarrow> matches p w \<or> matches q w"
  by (induction p q rule: or_else.induct) (auto simp: match_rules)

lemma matches_and_then: "matches (and_then p q) w \<longleftrightarrow> matches (Then p q) w"
  by (induction p q rule: and_then.induct) (auto simp: match_rules)

lemma many_Cons: "matches (Many p) (c # w) \<longleftrightarrow> (\<exists>u v. w = u @ v \<and> matches p (c # u) \<and> matches (Many p) v)"
proof
  assume "matches (Many p) (c # w)"
  then show "\<exists>u v. w = u @ v \<and> matches p (c # u) \<and> matches (Many p) v"
  proof (rule many_cases)
    fix v w'
    assume "c # w = v @ w'" "matches p v" "v \<noteq> []" "matches (Many p) w'"
    then show ?thesis by (cases v) auto
  qed simp
next
  assume "\<exists>u v. w = u @ v \<and> matches p (c # u) \<and> matches (Many p) v"
  then show "matches (Many p) (c # w)" using matches.some [of p "c # _"] by fastforce
qed

lemma matches_after: "matches (after_char c p) w \<longleftrightarrow> matches p (c # w)"
  by (induction p arbitrary: w)
    (auto simp: match_rules matches_or_else matches_and_then many_Cons accepts_empty Cons_eq_append_conv)

text \<open>The length of the longest prefix that matches; a pattern that matches nothing ends the search.\<close>

fun is_nothing :: "pattern \<Rightarrow> bool" where
  "is_nothing Nothing = True"
| "is_nothing p = False"

primrec longest :: "pattern \<Rightarrow> string \<Rightarrow> nat option" where
  "longest p [] = (if accepts_empty p then Some 0 else None)"
| "longest p (c # cs) =
     (if is_nothing p then None
      else case longest (after_char c p) cs of
        Some n \<Rightarrow> Some (n + 1)
      | None \<Rightarrow> if accepts_empty p then Some 0 else None)"

definition longest_prefix :: "(string \<Rightarrow> bool) \<Rightarrow> string \<Rightarrow> nat \<Rightarrow> bool" where
  "longest_prefix L cs n \<longleftrightarrow> n \<le> length cs \<and> L (take n cs) \<and> (\<forall>m \<le> length cs. L (take m cs) \<longrightarrow> m \<le> n)"

lemma is_nothing: "is_nothing p \<Longrightarrow> \<not> matches p w"
  by (cases p) (simp_all add: matches_Nothing)

lemma all_le_Suc: "(\<forall>m \<le> Suc n. P m) \<longleftrightarrow> P 0 \<and> (\<forall>m \<le> n. P (Suc m))"
  by (metis Suc_le_mono le0 not0_implies_Suc)

lemma longest_correct:
  "case longest p cs of Some n \<Rightarrow> longest_prefix (matches p) cs n | None \<Rightarrow> \<forall>n \<le> length cs. \<not> matches p (take n cs)"
proof (induction cs arbitrary: p)
  case Nil
  then show ?case by (simp add: longest_prefix_def accepts_empty)
next
  case (Cons c cs)
  from Cons [of "after_char c p"] show ?case
    by (auto simp: longest_prefix_def all_le_Suc matches_after accepts_empty is_nothing split: option.splits)
qed

lemma longest_Some: "longest p cs = Some n \<longleftrightarrow> longest_prefix (matches p) cs n"
  using longest_correct [of cs p] by (auto simp: longest_prefix_def split: option.splits) (metis le_antisym)

lemma longest_None: "longest p cs = None \<longleftrightarrow> (\<forall>n \<le> length cs. \<not> matches p (take n cs))"
  using longest_correct [of cs p] by (auto simp: longest_prefix_def split: option.splits)

section \<open>The rules\<close>

text \<open>The terminals, in the order of \<open>conf_gram.y\<close>.\<close>

datatype kind = OPENBRACE | ENDBRACE | TOKENTASK | TOKENNAME | TOKENPATH | TOKENARGS | TOKENENV | TOKENDIR | SEMICOLON | QUOTE
  | NUMBER | ALNUMWORD | ALPHAWORD | STRING | PATH | ENVAR | ARGKEY

text \<open>\<open>Return\<close> is \<open>return\<close>, \<open>Return_text\<close> duplicates the text into \<open>yylval\<close> before, \<open>Skip\<close> is the empty action, and
  \<open>ECHO\<close> is the default one.\<close>

datatype action = Return kind | Return_text kind | Skip | ECHO

text \<open>A rule that begins with \<open>^\<close> applies at the start of a line only; one that ends with \<open>$\<close> has the newline as its
  trailing context, which counts for the length of the match and is not consumed.\<close>

record rule =
  ru_bol :: bool
  ru_pattern :: pattern
  ru_trail :: string
  ru_action :: action

definition digit :: "char \<Rightarrow> bool" where
  "digit c \<longleftrightarrow> (48 :: nat) \<le> of_char c \<and> (of_char c :: nat) \<le> 57"

definition letter :: "char \<Rightarrow> bool" where
  "letter c \<longleftrightarrow> (65 :: nat) \<le> of_char c \<and> (of_char c :: nat) \<le> 90 \<or> (97 :: nat) \<le> of_char c \<and> (of_char c :: nat) \<le> 122"

abbreviation one_of :: "string \<Rightarrow> char \<Rightarrow> bool" where
  "one_of cs c \<equiv> List.member cs c"

definition number :: pattern where
  "number = At_least_one (Chars digit)"

definition alnumword :: pattern where
  "alnumword = Then (At_least_one (Chars digit)) (Many (Chars (\<lambda>c. c = CHR ''_'' \<or> letter c \<or> c = CHR ''-'')))"

definition alphaword :: pattern where
  "alphaword = Then (Chars letter) (Many (Chars (\<lambda>c. one_of ''./_'' c \<or> letter c \<or> digit c \<or> c = CHR ''-'')))"

definition path_pattern :: pattern where
  "path_pattern = Then (literal ''/'') (Then (Many (Chars (\<lambda>c. one_of ''-.+'' c \<or> letter c \<or> digit c)))
     (Many (Then (literal ''/'') (Many (Chars (\<lambda>c. one_of ''-._+'' c \<or> letter c \<or> digit c))))))"

definition argkey :: pattern where
  "argkey = Then (literal ''-'') (Then (Optional (literal ''-''))
     (At_least_one (Chars (\<lambda>c. \<not> (one_of [CHR '' '', CHR 0x09, CHR 0x0A, CHR '';''] c \<or> digit c \<or> c = CHR ''-'')))))"

definition envar :: pattern where
  "envar = Then (Chars letter) (Then (Many (Chars (\<lambda>c. letter c \<or> digit c))) (Then (literal ''='')
     (At_least_one (Chars (\<lambda>c. \<not> one_of [CHR '';'', CHR 0x0A] c)))))"

abbreviation plain :: "pattern \<Rightarrow> action \<Rightarrow> rule" where
  "plain p a \<equiv> \<lparr>ru_bol = False, ru_pattern = p, ru_trail = [], ru_action = a\<rparr>"

definition comment :: rule where
  "comment = \<lparr>ru_bol = True, ru_pattern = Then (literal ''#'') (Many (Chars (\<lambda>c. c \<noteq> CHR 0x0A))), ru_trail = [CHR 0x0A], ru_action = Skip\<rparr>"

definition rules :: "rule list" where
  "rules =
    [plain (literal ''{'') (Return OPENBRACE),
     plain (literal ''}'') (Return ENDBRACE),
     plain (literal ''task'') (Return TOKENTASK),
     plain (literal ''name'') (Return TOKENNAME),
     plain (literal ''path'') (Return TOKENPATH),
     plain (literal ''args'') (Return TOKENARGS),
     plain (literal ''env'') (Return TOKENENV),
     plain (literal ''dir'') (Return TOKENDIR),
     plain (literal [CHR 0x22]) (Return QUOTE),
     plain (literal '';'') (Return SEMICOLON),
     plain number (Return_text NUMBER),
     plain alnumword (Return_text ALNUMWORD),
     plain alphaword (Return_text ALPHAWORD),
     plain path_pattern (Return_text PATH),
     plain argkey (Return_text ARGKEY),
     plain envar (Return_text ENVAR),
     plain (literal [CHR 0x0A]) Skip,
     plain (At_least_one (Chars (one_of [CHR '' '', CHR 0x09]))) Skip,
     comment]"

section \<open>Scanning\<close>

definition rule_match :: "bool \<Rightarrow> string \<Rightarrow> rule \<Rightarrow> nat option" where
  "rule_match bol cs r = (if ru_bol r \<and> \<not> bol then None else longest (Then (ru_pattern r) (literal (ru_trail r))) cs)"

text \<open>The longest match, the first of several.\<close>

fun best_rule :: "bool \<Rightarrow> string \<Rightarrow> rule list \<Rightarrow> (rule \<times> nat) option" where
  "best_rule bol cs [] = None"
| "best_rule bol cs (r # rs) = (case (rule_match bol cs r, best_rule bol cs rs) of
     (None, b) \<Rightarrow> b
   | (Some n, None) \<Rightarrow> Some (r, n)
   | (Some n, Some (r', n')) \<Rightarrow> if n < n' then Some (r', n') else Some (r, n))"

text \<open>One step at the start of the rest of the input: the action and the length of \<open>yytext\<close>.\<close>

definition scan_step :: "bool \<Rightarrow> string \<Rightarrow> action \<times> nat" where
  "scan_step bol cs = (case best_rule bol cs rules of None \<Rightarrow> (ECHO, 1) | Some (r, n) \<Rightarrow> (ru_action r, n - length (ru_trail r)))"

lemma best_rule_in: "best_rule bol cs rs = Some (r, n) \<Longrightarrow> r \<in> set rs \<and> rule_match bol cs r = Some n"
  by (induction rs arbitrary: r n) (auto split: option.splits if_splits)

lemma no_empty_rule: "list_all (\<lambda>r. \<not> accepts_empty (ru_pattern r)) rules"
  by (simp add: rules_def comment_def number_def alnumword_def alphaword_def path_pattern_def argkey_def envar_def At_least_one_def)

lemma rule_match_text:
  assumes "rule_match bol cs r = Some n"
  shows "length (ru_trail r) \<le> n" "n \<le> length cs" "matches (ru_pattern r) (take (n - length (ru_trail r)) cs)"
proof -
  have n: "n \<le> length cs" "matches (Then (ru_pattern r) (literal (ru_trail r))) (take n cs)"
    using assms by (auto simp: rule_match_def longest_Some longest_prefix_def split: if_splits)
  then obtain v where v: "take n cs = v @ ru_trail r" "matches (ru_pattern r) v" by (auto simp: match_rules matches_literal)
  then have l: "n = length v + length (ru_trail r)" using n(1) by (metis length_append length_take min.absorb2)
  then show "length (ru_trail r) \<le> n" by simp
  have "take (length v) (take n cs) = v" using v(1) by simp
  then show "matches (ru_pattern r) (take (n - length (ru_trail r)) cs)" using l v(2) by simp
  show "n \<le> length cs" by (rule n(1))
qed

lemma scan_step_progress:
  assumes "cs \<noteq> []" "scan_step bol cs = (a, n)"
  shows "0 < n" "n \<le> length cs"
proof -
  have "0 < n \<and> n \<le> length cs"
  proof (cases "best_rule bol cs rules")
    case None
    with assms show ?thesis by (cases cs) (auto simp: scan_step_def)
  next
    case (Some b)
    obtain r m where b: "best_rule bol cs rules = Some (r, m)" using Some by (cases b) auto
    have r: "r \<in> set rules" "rule_match bol cs r = Some m" using best_rule_in [OF b] by simp_all
    have n: "n = m - length (ru_trail r)" using assms(2) b by (simp add: scan_step_def)
    have "\<not> matches (ru_pattern r) []" using r(1) no_empty_rule by (auto simp: list_all_iff accepts_empty)
    then show ?thesis using rule_match_text [OF r(2)] n by (cases "n = 0") auto
  qed
  then show "0 < n" "n \<le> length cs" by simp_all
qed

text \<open>All of the input, piece by piece. \<open>bol\<close> says that the piece before ended a line.\<close>

function scan :: "bool \<Rightarrow> string \<Rightarrow> (action \<times> string) list" where
  "scan bol cs =
     (if cs = [] then []
      else let (a, n) = scan_step bol cs; yytext = take n cs in
        (a, yytext) # scan (last yytext = CHR 0x0A) (drop n cs))"
  by pat_completeness auto
termination
proof (relation "measure (\<lambda>(bol, cs). length cs)")
  fix bol cs x a n yytext
  assume "cs \<noteq> []" "x = scan_step bol cs" "(a, n) = x"
  from scan_step_progress [OF this(1)] this(2,3) have "0 < n \<and> n \<le> length cs" by metis
  then show "((last yytext = CHR 0x0A, drop n cs), bol, cs) \<in> measure (\<lambda>(bol, cs). length cs)" by auto
qed simp

declare scan.simps [simp del]

text \<open>What \<open>yylex\<close> returns from call to call: the kind of the token and the text it duplicated.\<close>

type_synonym token = "kind \<times> string option"

fun token_of :: "action \<times> string \<Rightarrow> token option" where
  "token_of (Return k, t) = Some (k, None)"
| "token_of (Return_text k, t) = Some (k, Some t)"
| "token_of (Skip, t) = None"
| "token_of (ECHO, t) = None"

definition tokens :: "string \<Rightarrow> token list" where
  "tokens cs = List.map_filter token_of (scan True cs)"

section \<open>What a step takes\<close>

lemma scan_all: "concat (map snd (scan bol cs)) = cs"
  by (induction bol cs rule: scan.induct) (subst scan.simps, auto simp: Let_def split: prod.split)

text \<open>The words of a rule: those of its pattern, with what must follow.\<close>

definition rule_words :: "bool \<Rightarrow> rule \<Rightarrow> string \<Rightarrow> bool" where
  "rule_words bol r w \<longleftrightarrow> (ru_bol r \<longrightarrow> bol) \<and> (\<exists>t. w = t @ ru_trail r \<and> matches (ru_pattern r) t)"

lemma rule_match_words:
  "rule_match bol cs r = Some n \<longleftrightarrow> longest_prefix (rule_words bol r) cs n"
  "rule_match bol cs r = None \<longleftrightarrow> (\<forall>n \<le> length cs. \<not> rule_words bol r (take n cs))"
proof -
  have words: "rule_words bol r = (\<lambda>w. (ru_bol r \<longrightarrow> bol) \<and> matches (Then (ru_pattern r) (literal (ru_trail r))) w)"
    by (auto simp: rule_words_def match_rules matches_literal fun_eq_iff)
  show "rule_match bol cs r = Some n \<longleftrightarrow> longest_prefix (rule_words bol r) cs n"
    "rule_match bol cs r = None \<longleftrightarrow> (\<forall>n \<le> length cs. \<not> rule_words bol r (take n cs))"
    by (auto simp: rule_match_def words longest_Some longest_None longest_prefix_def)
qed

text \<open>The match of the rule \<open>rs ! i\<close> is the longest of all, and longer than those of the rules before.\<close>

definition wins :: "bool \<Rightarrow> string \<Rightarrow> rule list \<Rightarrow> nat \<Rightarrow> nat \<Rightarrow> bool" where
  "wins bol cs rs i n \<longleftrightarrow> i < length rs \<and> longest_prefix (rule_words bol (rs ! i)) cs n \<and>
     (\<forall>j < length rs. \<forall>m. longest_prefix (rule_words bol (rs ! j)) cs m \<longrightarrow> m < n \<or> m = n \<and> i \<le> j)"

lemma all_less_Suc: "(\<forall>j < Suc n. P j) \<longleftrightarrow> P 0 \<and> (\<forall>j < n. P (Suc j))"
  by (metis Suc_less_eq less_Suc_eq_0_disj not0_implies_Suc zero_less_Suc)

lemma longest_prefix_unique: "longest_prefix L cs m \<Longrightarrow> longest_prefix L cs n \<Longrightarrow> m = n"
  unfolding longest_prefix_def by (meson le_antisym)

lemma wins_first:
  assumes "rule_match bol cs r = Some n" "\<And>j m. j < length rs \<Longrightarrow> longest_prefix (rule_words bol (rs ! j)) cs m \<Longrightarrow> m \<le> n"
  shows "wins bol cs (r # rs) 0 n"
proof -
  have r: "longest_prefix (rule_words bol r) cs n" using assms(1) by (simp add: rule_match_words(1))
  have "\<forall>m. longest_prefix (rule_words bol r) cs m \<longrightarrow> m < n \<or> m = n" using r longest_prefix_unique by blast
  moreover have "\<forall>j < length rs. \<forall>m. longest_prefix (rule_words bol (rs ! j)) cs m \<longrightarrow> m < n \<or> m = n"
    using assms(2) le_neq_implies_less by blast
  ultimately show ?thesis using r by (simp add: wins_def all_less_Suc)
qed

lemma wins_later:
  assumes "wins bol cs rs i n" "\<And>m. rule_match bol cs r = Some m \<Longrightarrow> m < n"
  shows "wins bol cs (r # rs) (Suc i) n"
  using assms by (simp add: wins_def all_less_Suc rule_match_words(1))

lemma best_rule_wins:
  "(\<forall>r n. best_rule bol cs rs = Some (r, n) \<longrightarrow> (\<exists>i. r = rs ! i \<and> wins bol cs rs i n)) \<and>
   (best_rule bol cs rs = None \<longrightarrow> (\<forall>r \<in> set rs. rule_match bol cs r = None))"
proof (induction rs)
  case (Cons r rs)
  show ?case
  proof (cases "best_rule bol cs rs")
    case None
    then have rs: "\<forall>r \<in> set rs. rule_match bol cs r = None" using Cons by simp
    have "wins bol cs (r # rs) 0 n" if "rule_match bol cs r = Some n" for n
      using that rs by (intro wins_first) (simp_all flip: rule_match_words(1))
    then show ?thesis using None rs by (force split: option.splits)
  next
    case (Some b)
    obtain r' n' where b: "best_rule bol cs rs = Some (r', n')" using Some by (cases b) auto
    then obtain i where i: "r' = rs ! i" "wins bol cs rs i n'" using Cons by auto
    have later: "\<exists>i. r' = (r # rs) ! i \<and> wins bol cs (r # rs) i n'" if "\<And>m. rule_match bol cs r = Some m \<Longrightarrow> m < n'"
      using wins_later [OF i(2) that] i(1) by (intro exI [of _ "Suc i"]) simp
    have first: "wins bol cs (r # rs) 0 n" if "rule_match bol cs r = Some n" "n' \<le> n" for n
    proof (rule wins_first [OF that(1)])
      fix j m
      assume "j < length rs" "longest_prefix (rule_words bol (rs ! j)) cs m"
      then have "m < n' \<or> m = n' \<and> i \<le> j" using i(2) by (simp add: wins_def)
      with that(2) show "m \<le> n" by auto
    qed
    show ?thesis
    proof (cases "rule_match bol cs r")
      case None
      then show ?thesis using b later by simp
    next
      case (Some n)
      then show ?thesis using b later first [OF Some] by (cases "n < n'") (simp, force)
    qed
  qed
qed simp

lemma scan_step_wins:
  "(\<exists>i n. wins bol cs rules i n \<and> scan_step bol cs = (ru_action (rules ! i), n - length (ru_trail (rules ! i)))) \<or>
   scan_step bol cs = (ECHO, 1) \<and> (\<forall>r \<in> set rules. \<forall>n \<le> length cs. \<not> rule_words bol r (take n cs))"
proof (cases "best_rule bol cs rules")
  case None
  then show ?thesis using best_rule_wins [where rs = rules and bol = bol and cs = cs]
    by (simp add: scan_step_def rule_match_words(2))
next
  case (Some b)
  then obtain r n where b: "best_rule bol cs rules = Some (r, n)" by (cases b) auto
  then obtain i where "r = rules ! i" "wins bol cs rules i n"
    using best_rule_wins [where rs = rules and bol = bol and cs = cs] by blast
  then show ?thesis using b by (auto simp: scan_step_def)
qed

lemma wins_step: "wins bol cs rules i n \<Longrightarrow> scan_step bol cs = (ru_action (rules ! i), n - length (ru_trail (rules ! i)))"
proof -
  assume w: "wins bol cs rules i n"
  have "rules ! i \<in> set rules" "longest_prefix (rule_words bol (rules ! i)) cs n" using w by (simp_all add: wins_def)
  then have "\<not> (\<forall>r \<in> set rules. \<forall>n \<le> length cs. \<not> rule_words bol r (take n cs))" by (auto simp: longest_prefix_def)
  then obtain j m where j: "wins bol cs rules j m" "scan_step bol cs = (ru_action (rules ! j), m - length (ru_trail (rules ! j)))"
    using scan_step_wins by blast
  have "m < n \<or> m = n \<and> i \<le> j" "n < m \<or> n = m \<and> j \<le> i" using w j(1) by (simp_all add: wins_def)
  then have "m = n" "j = i" by linarith+
  with j(2) show ?thesis by simp
qed

section \<open>The lexemes\<close>

text \<open>The words of the scanner, told by their characters and without the patterns. \<open>lexeme bol cs n\<close> is the action for
  the first \<open>n\<close> characters of the input when they form a word; a word that several rules have is of the first of them:
  a keyword is not an \<open>ALPHAWORD\<close>, digits alone are a \<open>NUMBER\<close>.\<close>

definition digits :: string where
  "digits = ''0123456789''"

definition letters :: string where
  "letters = ''abcdefghijklmnopqrstuvwxyzABCDEFGHIJKLMNOPQRSTUVWXYZ''"

abbreviation only :: "string \<Rightarrow> string \<Rightarrow> bool" where
  "only cs w \<equiv> list_all (\<lambda>c. c \<in> set cs) w"

definition fixed_words :: "(string \<times> kind) list" where
  "fixed_words = [(''{'', OPENBRACE), (''}'', ENDBRACE), (''task'', TOKENTASK), (''name'', TOKENNAME), (''path'', TOKENPATH),
     (''args'', TOKENARGS), (''env'', TOKENENV), (''dir'', TOKENDIR), ([CHR 0x22], QUOTE), ('';'', SEMICOLON)]"

definition is_alnumword :: "string \<Rightarrow> bool" where
  "is_alnumword w \<longleftrightarrow> only digits (take 1 w) \<and> w \<noteq> [] \<and> only (''_-'' @ letters) (dropWhile (\<lambda>c. c \<in> set digits) w)"

definition is_alphaword :: "string \<Rightarrow> bool" where
  "is_alphaword w \<longleftrightarrow> (case w of [] \<Rightarrow> False | c # v \<Rightarrow> c \<in> set letters \<and> only (''./_-'' @ letters @ digits) v)"

text \<open>A path has no underscore before its second slash.\<close>

definition is_path :: "string \<Rightarrow> bool" where
  "is_path w \<longleftrightarrow> (case w of [] \<Rightarrow> False | c # v \<Rightarrow> c = CHR ''/'' \<and> only (''/-._+'' @ letters @ digits) v \<and>
     CHR ''_'' \<notin> set (takeWhile (\<lambda>d. d \<noteq> CHR ''/'') v))"

definition is_argkey :: "string \<Rightarrow> bool" where
  "is_argkey w \<longleftrightarrow> (case w of [] \<Rightarrow> False | c # v \<Rightarrow> c = CHR ''-'' \<and>
     (let v = (if take 1 v = ''-'' then tl v else v) in
      v \<noteq> [] \<and> list_all (\<lambda>d. d \<notin> set ([CHR '' '', CHR 0x09, CHR 0x0A, CHR '';'', CHR ''-''] @ digits)) v))"

definition is_envar :: "string \<Rightarrow> bool" where
  "is_envar w \<longleftrightarrow> (let (name, v) = (takeWhile (\<lambda>d. d \<noteq> CHR ''='') w, tl (dropWhile (\<lambda>d. d \<noteq> CHR ''='') w)) in
     name \<noteq> [] \<and> only letters (take 1 name) \<and> only (letters @ digits) name \<and>
     v \<noteq> [] \<and> list_all (\<lambda>d. d \<noteq> CHR '';'' \<and> d \<noteq> CHR 0x0A) v)"

definition lexeme :: "bool \<Rightarrow> string \<Rightarrow> nat \<Rightarrow> action option" where
  "lexeme bol cs n = (let w = take n cs in
     case map_of fixed_words w of Some k \<Rightarrow> Some (Return k)
     | None \<Rightarrow>
       if w \<noteq> [] \<and> only digits w then Some (Return_text NUMBER)
       else if is_alnumword w then Some (Return_text ALNUMWORD)
       else if is_alphaword w then Some (Return_text ALPHAWORD)
       else if is_path w then Some (Return_text PATH)
       else if is_argkey w then Some (Return_text ARGKEY)
       else if is_envar w then Some (Return_text ENVAR)
       else if w = [CHR 0x0A] \<or> w \<noteq> [] \<and> only [CHR '' '', CHR 0x09] w then Some Skip
       else if bol \<and> take 1 w = ''#'' \<and> CHR 0x0A \<notin> set w \<and> take 1 (drop n cs) = [CHR 0x0A] then Some Skip
       else None)"

text \<open>The patterns have these words.\<close>

lemma digit_in: "digit c \<longleftrightarrow> c \<in> set digits"
proof
  assume "digit c"
  then have "of_char c \<in> set [48 ..< 58 :: nat]" unfolding set_upt atLeastLessThan_iff by (simp add: digit_def)
  then have "char_of (of_char c :: nat) \<in> set (map char_of [48 ..< 58 :: nat])" unfolding set_map by (rule imageI)
  moreover have "map char_of [48 ..< 58 :: nat] = digits" by code_simp
  ultimately show "c \<in> set digits" by (simp only: char_of_char)
qed (auto simp: digits_def digit_def)

lemma letter_in: "letter c \<longleftrightarrow> c \<in> set letters"
proof
  assume "letter c"
  then have "of_char c \<in> set ([97 ..< 123] @ [65 ..< 91 :: nat])"
    unfolding set_append set_upt Un_iff atLeastLessThan_iff by (simp add: letter_def) linarith
  then have "char_of (of_char c :: nat) \<in> set (map char_of ([97 ..< 123] @ [65 ..< 91 :: nat]))" unfolding set_map by (rule imageI)
  moreover have "map char_of ([97 ..< 123] @ [65 ..< 91 :: nat]) = letters" by code_simp
  ultimately show "c \<in> set letters" by (simp only: char_of_char)
qed (auto simp: letters_def letter_def)

lemma matches_many: "matches (Many (Chars P)) w \<longleftrightarrow> list_all P w"
proof (induction w)
  case (Cons c w)
  then show ?case by (auto simp: many_Cons match_rules)
qed (simp add: matches.none)

lemma matches_then_char: "matches (Then (Chars P) q) w \<longleftrightarrow> (case w of [] \<Rightarrow> False | c # v \<Rightarrow> P c \<and> matches q v)"
proof (cases w)
  case (Cons c v)
  then show ?thesis using matches.seq [OF matches.char, of P c q v] by (auto simp: match_rules Cons_eq_append_conv)
qed (simp add: match_rules)

lemma matches_some: "matches (At_least_one (Chars P)) w \<longleftrightarrow> w \<noteq> [] \<and> list_all P w"
  by (cases w) (simp_all add: At_least_one_def matches_then_char matches_many)

lemma matches_then_lit: "matches (Then (literal [d]) q) w \<longleftrightarrow> (case w of [] \<Rightarrow> False | c # v \<Rightarrow> c = d \<and> matches q v)"
  by (cases w) (auto simp: matches_simps(4) matches_literal Cons_eq_append_conv simp del: literal.simps)

lemma case_list_ex: "(case w of [] \<Rightarrow> False | c # v \<Rightarrow> Q c v) \<longleftrightarrow> (\<exists>c v. w = c # v \<and> Q c v)"
  by (cases w) auto

lemma number_words: "matches number w \<longleftrightarrow> w \<noteq> [] \<and> only digits w"
  by (simp add: number_def matches_some digit_in [abs_def])

lemma alnumword_words: "matches alnumword w \<longleftrightarrow> is_alnumword w"
proof -
  let ?D = "\<lambda>c. c \<in> set digits" and ?R = "\<lambda>c. c \<in> set (''_-'' @ letters)"
  have disjoint: "?R c \<Longrightarrow> \<not> ?D c" for c
    unfolding set_append Un_iff letter_in [symmetric] digit_in [symmetric] by (auto simp: letter_def digit_def)
  have "(\<lambda>c. c = CHR ''_'' \<or> letter c \<or> c = CHR ''-'') = ?R" by (auto simp: letter_in)
  then have "matches alnumword w \<longleftrightarrow> (\<exists>u v. w = u @ v \<and> u \<noteq> [] \<and> list_all ?D u \<and> list_all ?R v)"
    by (simp add: alnumword_def matches_simps(4) matches_some matches_many digit_in [abs_def])
  also have "\<dots> \<longleftrightarrow> is_alnumword w"
  proof
    assume "\<exists>u v. w = u @ v \<and> u \<noteq> [] \<and> list_all ?D u \<and> list_all ?R v"
    then obtain u v where w: "w = u @ v" "u \<noteq> []" "list_all ?D u" "list_all ?R v" by blast
    have "dropWhile ?D w = dropWhile ?D v" using w(1,3) by (simp add: list_all_iff)
    moreover have "dropWhile ?D v = v" using w(4) disjoint by (cases v) auto
    ultimately show "is_alnumword w" using w by (cases u) (simp_all add: is_alnumword_def)
  next
    assume w: "is_alnumword w"
    have "w = takeWhile ?D w @ dropWhile ?D w" by simp
    moreover have "takeWhile ?D w \<noteq> []" using w by (cases w) (simp_all add: is_alnumword_def)
    moreover have "list_all ?D (takeWhile ?D w)" by (auto simp: list_all_iff dest: set_takeWhileD)
    moreover have "list_all ?R (dropWhile ?D w)" using w by (simp add: is_alnumword_def)
    ultimately show "\<exists>u v. w = u @ v \<and> u \<noteq> [] \<and> list_all ?D u \<and> list_all ?R v" by blast
  qed
  finally show ?thesis .
qed

lemma alphaword_words: "matches alphaword w \<longleftrightarrow> is_alphaword w"
  by (cases w) (auto simp: alphaword_def matches_then_char matches_many is_alphaword_def list_all_iff digit_in letter_in)

lemma from_char: "dropWhile (\<lambda>d. d \<noteq> c) v = [] \<or> take 1 (dropWhile (\<lambda>d. d \<noteq> c) v) = [c]"
  by (induction v) auto

lemma slashes: "matches (Many (Then (literal ''/'') (Many (Chars P)))) w \<longleftrightarrow>
  w = [] \<or> take 1 w = ''/'' \<and> list_all (\<lambda>c. c = CHR ''/'' \<or> P c) w"
proof (induction w rule: length_induct)
  case (1 w)
  let ?X = "Many (Then (literal ''/'') (Many (Chars P)))"
  show ?case
  proof (cases w)
    case (Cons c v)
    have step: "matches ?X (c # v) \<longleftrightarrow> c = CHR ''/'' \<and> (\<exists>a b. v = a @ b \<and> list_all P a \<and> matches ?X b)"
      by (auto simp: many_Cons matches_then_lit matches_many simp del: literal.simps)
    have IH: "matches ?X b \<longleftrightarrow> b = [] \<or> take 1 b = ''/'' \<and> list_all (\<lambda>c. c = CHR ''/'' \<or> P c) b" if "length b \<le> length v" for b
      using 1 that Cons by auto
    let ?a = "takeWhile (\<lambda>d. d \<noteq> CHR ''/'') v" and ?b = "dropWhile (\<lambda>d. d \<noteq> CHR ''/'') v"
    have b: "?b = [] \<or> take 1 ?b = ''/''" by (rule from_char)
    have "\<exists>a b. v = a @ b \<and> list_all P a \<and> matches ?X b" if v: "list_all (\<lambda>c. c = CHR ''/'' \<or> P c) v"
    proof (intro exI conjI)
      show "v = ?a @ ?b" by simp
      show "list_all P ?a" using v by (auto simp: list_all_iff dest: set_takeWhileD)
      show "matches ?X ?b" unfolding IH [OF length_dropWhile_le] using b v by (auto simp: list_all_iff dest: set_dropWhileD)
    qed
    moreover have "list_all (\<lambda>c. c = CHR ''/'' \<or> P c) v" if "v = a @ b" "list_all P a" "matches ?X b" for a b
      using that IH [of b] by (auto simp: list_all_iff)
    ultimately show ?thesis unfolding Cons step by auto
  qed (simp add: matches.none)
qed

lemma before_slash:
  assumes A: "\<And>d. A d \<longleftrightarrow> B d \<and> d \<noteq> u" and B: "\<not> B (CHR ''/'')"
  shows "(\<exists>a b. v = a @ b \<and> list_all A a \<and> (b = [] \<or> take 1 b = ''/'' \<and> list_all (\<lambda>c. c = CHR ''/'' \<or> B c) b)) \<longleftrightarrow>
    list_all (\<lambda>c. c = CHR ''/'' \<or> B c) v \<and> u \<notin> set (takeWhile (\<lambda>d. d \<noteq> CHR ''/'') v)"
proof
  assume "\<exists>a b. v = a @ b \<and> list_all A a \<and> (b = [] \<or> take 1 b = ''/'' \<and> list_all (\<lambda>c. c = CHR ''/'' \<or> B c) b)"
  then obtain a b where ab: "v = a @ b" "list_all A a" "b = [] \<or> take 1 b = ''/'' \<and> list_all (\<lambda>c. c = CHR ''/'' \<or> B c) b" by blast
  have a: "\<And>d. d \<in> set a \<Longrightarrow> B d \<and> d \<noteq> u" using ab(2) A by (simp add: list_all_iff)
  then have ns: "d \<noteq> CHR ''/''" if "d \<in> set a" for d using that B by blast
  have "takeWhile (\<lambda>d. d \<noteq> CHR ''/'') (a @ b) = a @ takeWhile (\<lambda>d. d \<noteq> CHR ''/'') b" using ns by (rule takeWhile_append2)
  moreover have "takeWhile (\<lambda>d. d \<noteq> CHR ''/'') b = []" using ab(3) by (cases b) auto
  ultimately have tw: "takeWhile (\<lambda>d. d \<noteq> CHR ''/'') v = a" using ab(1) by simp
  have "list_all (\<lambda>c. c = CHR ''/'' \<or> B c) a" using a by (simp add: list_all_iff)
  moreover have "list_all (\<lambda>c. c = CHR ''/'' \<or> B c) b" using ab(3) by auto
  moreover have "u \<notin> set a" using a by blast
  ultimately show "list_all (\<lambda>c. c = CHR ''/'' \<or> B c) v \<and> u \<notin> set (takeWhile (\<lambda>d. d \<noteq> CHR ''/'') v)"
    unfolding tw unfolding ab(1) by simp
next
  let ?a = "takeWhile (\<lambda>d. d \<noteq> CHR ''/'') v" and ?b = "dropWhile (\<lambda>d. d \<noteq> CHR ''/'') v"
  assume v: "list_all (\<lambda>c. c = CHR ''/'' \<or> B c) v \<and> u \<notin> set ?a"
  have "A d" if "d \<in> set ?a" for d
    using set_takeWhileD [OF that] that v unfolding A list_all_iff by blast
  then have "list_all A ?a" by (simp add: list_all_iff)
  moreover have "list_all (\<lambda>c. c = CHR ''/'' \<or> B c) ?b" using v set_dropWhileD unfolding list_all_iff by metis
  then have "?b = [] \<or> take 1 ?b = ''/'' \<and> list_all (\<lambda>c. c = CHR ''/'' \<or> B c) ?b"
    using from_char [of "CHR ''/''" v] by blast
  ultimately show "\<exists>a b. v = a @ b \<and> list_all A a \<and> (b = [] \<or> take 1 b = ''/'' \<and> list_all (\<lambda>c. c = CHR ''/'' \<or> B c) b)"
    by (intro exI [of _ ?a] exI [of _ ?b]) simp
qed

lemma path_words: "matches path_pattern w \<longleftrightarrow> is_path w"
proof -
  define A where "A = (\<lambda>c. one_of ''-.+'' c \<or> letter c \<or> digit c)"
  define B where "B = (\<lambda>c. one_of ''-._+'' c \<or> letter c \<or> digit c)"
  have "\<not> letter (CHR ''_'')" "\<not> digit (CHR ''_'')" "\<not> letter (CHR ''/'')" "\<not> digit (CHR ''/'')" by (simp_all add: letter_def digit_def)
  then have AB: "A d \<longleftrightarrow> B d \<and> d \<noteq> CHR ''_''" "\<not> B (CHR ''/'')" for d
    unfolding A_def B_def by (cases "d = CHR ''_''"; simp)+
  have words: "(\<lambda>c. c \<in> set (''/-._+'' @ letters @ digits)) = (\<lambda>c. c = CHR ''/'' \<or> B c)"
    unfolding B_def letter_in digit_in by (rule ext) simp
  show ?thesis
    unfolding path_pattern_def matches_then_lit slashes matches_simps(4) [of "Many (Chars P)" for P] matches_many is_path_def words
      A_def [symmetric] B_def [symmetric] before_slash [OF AB]
    by (simp split: list.split)
qed

lemma argkey_words: "matches argkey w \<longleftrightarrow> is_argkey w"
proof -
  let ?P = "\<lambda>c. \<not> (one_of [CHR '' '', CHR 0x09, CHR 0x0A, CHR '';''] c \<or> digit c \<or> c = CHR ''-'')"
  have "?P = (\<lambda>d. d \<notin> set ([CHR '' '', CHR 0x09, CHR 0x0A, CHR '';'', CHR ''-''] @ digits))"
    by (auto simp: digit_in fun_eq_iff)
  moreover have "matches (Then (Optional (literal ''-'')) (At_least_one (Chars ?P))) v \<longleftrightarrow>
      (let u = (if take 1 v = ''-'' then tl v else v) in u \<noteq> [] \<and> list_all ?P u)" for v
  proof -
    have "matches (Then (Optional (literal ''-'')) (At_least_one (Chars ?P))) v \<longleftrightarrow>
        matches (Then (literal ''-'') (At_least_one (Chars ?P))) v \<or> matches (At_least_one (Chars ?P)) v"
      by (auto simp: matches_simps Optional_def simp del: literal.simps)
    then show ?thesis unfolding matches_then_lit matches_some by (cases v) (auto simp: Let_def)
  qed
  ultimately show ?thesis unfolding argkey_def matches_then_lit is_argkey_def by (simp add: Let_def split: list.split)
qed

lemma envar_words: "matches envar w \<longleftrightarrow> is_envar w"
proof -
  let ?name = "takeWhile (\<lambda>d. d \<noteq> CHR ''='') w" and ?v = "dropWhile (\<lambda>d. d \<noteq> CHR ''='') w"
  let ?P = "\<lambda>c. \<not> one_of [CHR '';'', CHR 0x0A] c"
  have not_eq: "letter d \<or> digit d \<Longrightarrow> d \<noteq> CHR ''=''" for d by (auto simp: letter_def digit_def)
  have "matches envar w \<longleftrightarrow> (\<exists>c u v. w = c # u @ CHR ''='' # v \<and> letter c \<and> list_all (\<lambda>c. letter c \<or> digit c) u \<and> v \<noteq> [] \<and> list_all ?P v)"
    unfolding envar_def matches_then_char matches_simps(4) [of "Many (Chars Q)" for Q] matches_many matches_then_lit matches_some
    by (cases w) (simp_all add: case_list_ex, blast)
  also have "\<dots> \<longleftrightarrow> is_envar w"
  proof
    assume "\<exists>c u v. w = c # u @ CHR ''='' # v \<and> letter c \<and> list_all (\<lambda>c. letter c \<or> digit c) u \<and> v \<noteq> [] \<and> list_all ?P v"
    then obtain c u v where w: "w = c # u @ CHR ''='' # v" "letter c" "list_all (\<lambda>c. letter c \<or> digit c) u" "v \<noteq> []" "list_all ?P v" by blast
    have "\<forall>d \<in> set (c # u). d \<noteq> CHR ''=''" using w(2,3) not_eq by (auto simp: list_all_iff)
    then have "?name = c # u" "?v = CHR ''='' # v" using w(1) by (simp_all add: takeWhile_append dropWhile_append)
    then show "is_envar w" using w(2-5) by (auto simp: is_envar_def list_all_iff letter_in digit_in)
  next
    assume e: "is_envar w"
    then obtain c u where n: "?name = c # u" by (cases ?name) (simp_all add: is_envar_def)
    obtain v where v: "?v = CHR ''='' # v"
      using e by (cases ?v) (auto simp: is_envar_def dropWhile_eq_Cons_conv)
    have "w = ?name @ ?v" by simp
    then have "w = c # u @ CHR ''='' # v" unfolding n v by simp
    moreover have "letter c" "list_all (\<lambda>c. letter c \<or> digit c) u" "v \<noteq> []" "list_all ?P v"
      using e unfolding is_envar_def n v by (auto simp: list_all_iff letter_in digit_in)
    ultimately show "\<exists>c u v. w = c # u @ CHR ''='' # v \<and> letter c \<and> list_all (\<lambda>c. letter c \<or> digit c) u \<and> v \<noteq> [] \<and> list_all ?P v"
      by blast
  qed
  finally show ?thesis .
qed

text \<open>The rule takes the first \<open>n\<close> characters, with its trailing context behind them.\<close>

definition takes :: "bool \<Rightarrow> string \<Rightarrow> nat \<Rightarrow> rule \<Rightarrow> bool" where
  "takes bol cs n r \<longleftrightarrow> (ru_bol r \<longrightarrow> bol) \<and> matches (ru_pattern r) (take n cs) \<and>
     take (length (ru_trail r)) (drop n cs) = ru_trail r"

text \<open>The table of the rules has the lexemes, with their actions and their order.\<close>

lemma takes_plain: "takes bol cs n (plain p a) \<longleftrightarrow> matches p (take n cs)"
  by (simp add: takes_def)

lemma find_fixed: "List.find (takes bol cs n) (map (\<lambda>(t, k). plain (literal t) (Return k)) tab @ rs) =
  (case map_of tab (take n cs) of Some k \<Rightarrow> Some (plain (literal (take n cs)) (Return k)) | None \<Rightarrow> List.find (takes bol cs n) rs)"
  by (induction tab) (auto simp: takes_plain matches_literal)

definition word_rules :: "rule list" where
  "word_rules =
    [plain number (Return_text NUMBER),
     plain alnumword (Return_text ALNUMWORD),
     plain alphaword (Return_text ALPHAWORD),
     plain path_pattern (Return_text PATH),
     plain argkey (Return_text ARGKEY),
     plain envar (Return_text ENVAR),
     plain (literal [CHR 0x0A]) Skip,
     plain (At_least_one (Chars (one_of [CHR '' '', CHR 0x09]))) Skip,
     comment]"

lemma rules_split: "rules = map (\<lambda>(t, k). plain (literal t) (Return k)) fixed_words @ word_rules"
  by (simp add: rules_def fixed_words_def word_rules_def)

lemma takes_comment:
  "takes bol cs n comment \<longleftrightarrow> bol \<and> take 1 (take n cs) = ''#'' \<and> CHR 0x0A \<notin> set (take n cs) \<and> take 1 (drop n cs) = [CHR 0x0A]"
proof -
  have "matches (Then (literal ''#'') (Many (Chars (\<lambda>c. c \<noteq> CHR 0x0A)))) w \<longleftrightarrow> take 1 w = ''#'' \<and> CHR 0x0A \<notin> set w" for w
    unfolding matches_then_lit matches_many by (cases w) (auto simp: list_all_iff)
  then show ?thesis by (simp add: takes_def comment_def del: literal.simps)
qed

lemma lexeme_rules: "lexeme bol cs n = map_option ru_action (List.find (takes bol cs n) rules)"
proof -
  have "only [CHR '' '', CHR 0x09] w = list_all (one_of [CHR '' '', CHR 0x09]) w" for w by (simp add: list_all_iff)
  note words = takes_plain takes_comment number_words alnumword_words alphaword_words path_words argkey_words envar_words
    matches_literal matches_some this [symmetric]
  show ?thesis
  proof (cases "map_of fixed_words (take n cs)")
    case None
    then show ?thesis unfolding rules_split find_fixed lexeme_def Let_def None option.case word_rules_def List.find.simps words
      by (simp add: comment_def del: One_nat_def)
  next
    case (Some k)
    then show ?thesis unfolding rules_split find_fixed by (simp add: lexeme_def Let_def)
  qed
qed

lemma takes_words: "n \<le> length cs \<Longrightarrow> takes bol cs n r \<longleftrightarrow>
  n + length (ru_trail r) \<le> length cs \<and> rule_words bol r (take (n + length (ru_trail r)) cs)"
proof -
  assume n: "n \<le> length cs"
  have "take (length (ru_trail r)) (drop n cs) = ru_trail r \<longleftrightarrow>
      n + length (ru_trail r) \<le> length cs \<and> (\<exists>t. take (n + length (ru_trail r)) cs = t @ ru_trail r)" (is "?l = ?r")
  proof
    assume l: ?l
    then have "length (take (length (ru_trail r)) (drop n cs)) = length (ru_trail r)" by simp
    then have "n + length (ru_trail r) \<le> length cs" using n by simp
    with l show ?r by (auto simp: take_add)
  next
    assume r: ?r
    then obtain t where t: "take n cs @ take (length (ru_trail r)) (drop n cs) = t @ ru_trail r" by (auto simp: take_add)
    moreover have "length (take (length (ru_trail r)) (drop n cs)) = length (ru_trail r)" using r by auto
    ultimately show ?l by simp
  qed
  moreover have "t = take n cs" if "n + length (ru_trail r) \<le> length cs" "take (n + length (ru_trail r)) cs = t @ ru_trail r" for t
  proof -
    have "length (take (length (ru_trail r)) (drop n cs)) = length (ru_trail r)" using that(1) by simp
    with that(2) show ?thesis by (simp add: take_add)
  qed
  ultimately show ?thesis by (auto simp: takes_def rule_words_def)
qed

lemma takes_longest:
  assumes "takes bol cs m r" "m \<le> length cs" "longest_prefix (rule_words bol r) cs n"
  shows "m + length (ru_trail r) \<le> n"
  using assms by (auto simp: takes_words longest_prefix_def)

text \<open>Only the rule with the trailing context takes a \<open>#\<close>.\<close>

lemma hash_comment:
  assumes "r \<in> set rules" "takes bol (CHR ''#'' # cs) n r"
  shows "ru_trail r = [CHR 0x0A]"
proof -
  have r: "ru_trail r = [CHR 0x0A] \<or> after_char (CHR ''#'') (ru_pattern r) = Nothing"
    using assms(1) by (auto simp: rules_def comment_def number_def alnumword_def alphaword_def path_pattern_def argkey_def envar_def
      At_least_one_def Optional_def digit_def letter_def)
  have "\<not> matches (ru_pattern r) []" using assms(1) no_empty_rule by (auto simp: list_all_iff accepts_empty)
  with assms(2) obtain m where "matches (ru_pattern r) (CHR ''#'' # take m cs)" by (cases n) (auto simp: takes_def)
  with r show ?thesis by (auto simp: matches_after [symmetric] matches_Nothing)
qed

lemma trails: "r \<in> set rules \<Longrightarrow> ru_trail r = [] \<or> ru_trail r = [CHR 0x0A] \<and> (\<forall>bol cs n. takes bol cs n r \<longrightarrow> (\<exists>v. cs = CHR ''#'' # v))"
proof -
  have "\<exists>v. cs = CHR ''#'' # v" if "takes bol cs n comment" for bol cs n
    using that unfolding takes_comment by (cases cs; cases n) auto
  then have "\<forall>bol cs n. takes bol cs n comment \<longrightarrow> (\<exists>v. cs = CHR ''#'' # v)" by blast
  then show "r \<in> set rules \<Longrightarrow> ?thesis" unfolding rules_def by (auto simp: comment_def)
qed

lemma winner_lexeme:
  assumes w: "wins bol cs rules i m" and n: "n = m - length (ru_trail (rules ! i))"
  shows "lexeme bol cs n = Some (ru_action (rules ! i))" "k \<le> length cs \<Longrightarrow> lexeme bol cs k \<noteq> None \<Longrightarrow> k \<le> n"
proof -
  let ?r = "rules ! i"
  have i: "i < length rules" "longest_prefix (rule_words bol ?r) cs m" using w by (simp_all add: wins_def)
  then have rw: "m \<le> length cs" "rule_words bol ?r (take m cs)" by (simp_all add: longest_prefix_def)
  obtain v where "take m cs = v @ ru_trail ?r" using rw(2) by (auto simp: rule_words_def)
  then have "length (ru_trail ?r) \<le> length (take m cs)" by simp
  then have m: "m = n + length (ru_trail ?r)" "n \<le> length cs" using n rw(1) by simp_all
  then have t: "takes bol cs n ?r" using takes_words [OF m(2)] rw by simp
  have rin: "?r \<in> set rules" using i(1) by simp
  have beats: "k \<le> n \<and> (k = n \<longrightarrow> i \<le> j)" if j: "j < length rules" "takes bol cs k (rules ! j)" "k \<le> length cs" for j k
  proof -
    let ?q = "rules ! j"
    have q: "?q \<in> set rules" using j(1) by simp
    have "\<exists>l. longest_prefix (rule_words bol ?q) cs l"
      using takes_words [OF j(3), of bol ?q] j(2) rule_match_words [of bol cs ?q] by (cases "rule_match bol cs ?q") auto
    then obtain l where l: "longest_prefix (rule_words bol ?q) cs l" by blast
    have kl: "k + length (ru_trail ?q) \<le> l" by (rule takes_longest [OF j(2,3) l])
    have lm: "l < m \<or> l = m \<and> i \<le> j" using w l j(1) by (simp add: wins_def)
    show ?thesis
    proof (cases "ru_trail ?r = []")
      case True
      then show ?thesis using kl lm m(1) by auto
    next
      case False
      then obtain v where v: "cs = CHR ''#'' # v" "ru_trail ?r = [CHR 0x0A]" using trails [OF rin] t by blast
      then have "ru_trail ?q = [CHR 0x0A]" using hash_comment [OF q] j(2) by simp
      then show ?thesis using kl lm m(1) v(2) by auto
    qed
  qed
  show "lexeme bol cs n = Some (ru_action ?r)"
  proof -
    have "List.find (takes bol cs n) rules = Some ?r"
      unfolding find_Some_iff using i(1) t beats [OF _ _ m(2)] by (intro exI [of _ i]) (meson leD order.strict_trans)
    then show ?thesis by (simp add: lexeme_rules)
  qed
  show "k \<le> length cs \<Longrightarrow> lexeme bol cs k \<noteq> None \<Longrightarrow> k \<le> n"
  proof -
    assume k: "k \<le> length cs" "lexeme bol cs k \<noteq> None"
    then obtain r where "List.find (takes bol cs k) rules = Some r" by (auto simp: lexeme_rules)
    then obtain j where "j < length rules" "takes bol cs k (rules ! j)" by (auto simp: find_Some_iff)
    then show "k \<le> n" using beats k(1) by blast
  qed
qed

lemma no_lexeme:
  assumes "\<forall>r \<in> set rules. \<forall>n \<le> length cs. \<not> rule_words bol r (take n cs)" "n \<le> length cs"
  shows "lexeme bol cs n = None"
proof -
  have "\<not> takes bol cs n r" if "r \<in> set rules" for r using assms that by (simp add: takes_words)
  then show ?thesis by (simp add: lexeme_rules find_None_iff)
qed

section \<open>The property\<close>

text \<open>C39: The scanner cuts its input into the lexemes: the next piece is the longest one that the input begins with, at the
  start of a line a comment too, and carries the action of that lexeme; where no lexeme begins it is one character,
  echoed. The pieces together are the input. The lexemes are told by their characters, without the patterns.\<close>

theorem scan_correct:
  assumes "cs \<noteq> []"
  shows "concat (map snd (scan bol cs)) = cs \<and>
    (\<exists>a n. 0 < n \<and> n \<le> length cs \<and> scan bol cs = (a, take n cs) # scan (last (take n cs) = CHR 0x0A) (drop n cs) \<and>
      (lexeme bol cs n = Some a \<and> (\<forall>m \<le> length cs. lexeme bol cs m \<noteq> None \<longrightarrow> m \<le> n) \<or>
       a = ECHO \<and> n = 1 \<and> (\<forall>m \<le> length cs. lexeme bol cs m = None)))"
proof -
  obtain a n where s: "scan_step bol cs = (a, n)" by (cases "scan_step bol cs")
  have "scan bol cs = (a, take n cs) # scan (last (take n cs) = CHR 0x0A) (drop n cs)"
    using assms by (subst scan.simps) (simp add: s Let_def)
  moreover have "lexeme bol cs n = Some a \<and> (\<forall>m \<le> length cs. lexeme bol cs m \<noteq> None \<longrightarrow> m \<le> n) \<or>
     a = ECHO \<and> n = 1 \<and> (\<forall>m \<le> length cs. lexeme bol cs m = None)"
    using scan_step_wins [of bol cs] winner_lexeme no_lexeme [of cs bol] unfolding s prod.inject by metis
  ultimately show ?thesis by (intro conjI scan_all exI [of _ a] exI [of _ n] scan_step_progress [OF assms s])
qed

theorem scan_correct_witness:
  "scan True ''args;'' = [(Return TOKENARGS, ''args''), (Return SEMICOLON, '';'')] \<and>
   concat (map snd (scan True ''args;'')) = ''args;''"
proof
  show "scan True ''args;'' = [(Return TOKENARGS, ''args''), (Return SEMICOLON, '';'')]" by code_simp
  show "concat (map snd (scan True ''args;'')) = ''args;''" using scan_correct [of "''args;''" True] by simp
qed

end
