(* ===== verification/Conf_Gram.thy ===== *)
theory Conf_Gram
  imports Conf_Scan
begin

text \<open>
  The grammar of \<open>src/conf_gram.y\<close>, production by production, with what its actions do; and the deterministic
  machine that \<open>bison\<close> makes of it, which reads the tokens one by one. The two agree.
\<close>

section \<open>The grammar\<close>

text \<open>A token with its semantic value. An action of the grammar that does something is an event.\<close>

type_synonym 'v terminal = "kind \<times> 'v"

datatype 'v event = Set_name 'v | Set_path 'v | Add_arg 'v | Add_env 'v | Set_dir 'v | End_task

definition word_kinds :: "kind list" where
  "word_kinds = [STRING, ARGKEY, ALPHAWORD, ALNUMWORD, NUMBER]"

inductive taskname :: "'v terminal list \<Rightarrow> 'v \<Rightarrow> bool" where
  "taskname [(STRING, v)] v"
| "taskname [(ALPHAWORD, v)] v"
| "taskname [(QUOTE, a), (ALPHAWORD, v), (QUOTE, b)] v"

inductive innerarg :: "'v terminal list \<Rightarrow> 'v \<Rightarrow> bool" where
  "k \<in> set word_kinds \<Longrightarrow> innerarg [(k, v)] v"

inductive arg :: "'v terminal list \<Rightarrow> 'v \<Rightarrow> bool" where
  "k \<in> set word_kinds \<Longrightarrow> arg [(k, v)] v"
| "innerarg ws v \<Longrightarrow> arg ((QUOTE, a) # ws @ [(QUOTE, b)]) v"

inductive argslist :: "'v terminal list \<Rightarrow> 'v event list \<Rightarrow> bool" where
  "argslist [] []"
| "argslist ws es \<Longrightarrow> arg us v \<Longrightarrow> argslist (ws @ us) (es @ [Add_arg v])"

inductive taskopt :: "'v terminal list \<Rightarrow> 'v event list \<Rightarrow> bool" where
  name: "taskname ws v \<Longrightarrow> taskopt ((TOKENNAME, a) # ws @ [(SEMICOLON, b)]) [Set_name v]"
| path: "taskopt [(TOKENPATH, a), (PATH, v), (SEMICOLON, b)] [Set_path v]"
| args: "argslist ws es \<Longrightarrow> taskopt ((TOKENARGS, a) # ws @ [(SEMICOLON, b)]) es"
| env: "taskopt [(TOKENENV, a), (ENVAR, v), (SEMICOLON, b)] [Add_env v]"
| dir: "taskopt [(TOKENDIR, a), (PATH, v), (SEMICOLON, b)] [Set_dir v]"

inductive taskopts :: "'v terminal list \<Rightarrow> 'v event list \<Rightarrow> bool" where
  "taskopts [] []"
| "taskopts ws es \<Longrightarrow> taskopt us fs \<Longrightarrow> taskopts (ws @ us) (es @ fs)"

inductive task_rule :: "'v terminal list \<Rightarrow> 'v event list \<Rightarrow> bool" where
  "taskopts ws es \<Longrightarrow> task_rule ((TOKENTASK, a) # (OPENBRACE, b) # ws @ [(ENDBRACE, c)]) (es @ [End_task])"

inductive tasks :: "'v terminal list \<Rightarrow> 'v event list \<Rightarrow> bool" where
  "tasks [] []"
| "tasks ws es \<Longrightarrow> task_rule us fs \<Longrightarrow> tasks (ws @ us) (es @ fs)"

section \<open>The machine\<close>

text \<open>A state is what was read of the current task; the semantic value that a reduction will use is in it. Each event
  comes with the last token of its production: in those states the reduction needs no look at the next token.\<close>

datatype 'v pstate =
    P_tasks | P_task | P_opts
  | P_name | P_name_quote | P_name_word 'v | P_name_end 'v
  | P_path | P_path_end 'v
  | P_args | P_arg_quote | P_arg_word 'v
  | P_env | P_env_end 'v
  | P_dir | P_dir_end 'v

definition opts_shift :: "kind \<Rightarrow> ('v pstate \<times> 'v event list) option" where
  "opts_shift k = (case k of
     ENDBRACE \<Rightarrow> Some (P_tasks, [End_task])
   | TOKENNAME \<Rightarrow> Some (P_name, [])
   | TOKENPATH \<Rightarrow> Some (P_path, [])
   | TOKENARGS \<Rightarrow> Some (P_args, [])
   | TOKENENV \<Rightarrow> Some (P_env, [])
   | TOKENDIR \<Rightarrow> Some (P_dir, [])
   | _ \<Rightarrow> None)"

fun expect :: "kind \<Rightarrow> kind \<Rightarrow> 'v pstate \<Rightarrow> 'v event list \<Rightarrow> ('v pstate \<times> 'v event list) option" where
  "expect k k' st es = (if k = k' then Some (st, es) else None)"

fun shift :: "'v pstate \<Rightarrow> 'v terminal \<Rightarrow> ('v pstate \<times> 'v event list) option" where
  "shift P_tasks (k, v) = expect k TOKENTASK P_task []"
| "shift P_task (k, v) = expect k OPENBRACE P_opts []"
| "shift P_opts (k, v) = opts_shift k"
| "shift P_name (k, v) = (if k = STRING \<or> k = ALPHAWORD then Some (P_name_end v, []) else expect k QUOTE P_name_quote [])"
| "shift P_name_quote (k, v) = expect k ALPHAWORD (P_name_word v) []"
| "shift (P_name_word u) (k, v) = expect k QUOTE (P_name_end u) []"
| "shift (P_name_end u) (k, v) = expect k SEMICOLON P_opts [Set_name u]"
| "shift P_path (k, v) = expect k PATH (P_path_end v) []"
| "shift (P_path_end u) (k, v) = expect k SEMICOLON P_opts [Set_path u]"
| "shift P_args (k, v) =
     (if k \<in> set word_kinds then Some (P_args, [Add_arg v])
      else if k = QUOTE then Some (P_arg_quote, []) else expect k SEMICOLON P_opts [])"
| "shift P_arg_quote (k, v) = (if k \<in> set word_kinds then Some (P_arg_word v, []) else None)"
| "shift (P_arg_word u) (k, v) = expect k QUOTE P_args [Add_arg u]"
| "shift P_env (k, v) = expect k ENVAR (P_env_end v) []"
| "shift (P_env_end u) (k, v) = expect k SEMICOLON P_opts [Add_env u]"
| "shift P_dir (k, v) = expect k PATH (P_dir_end v) []"
| "shift (P_dir_end u) (k, v) = expect k SEMICOLON P_opts [Set_dir u]"

fun parse :: "'v pstate \<Rightarrow> 'v terminal list \<Rightarrow> ('v pstate \<times> 'v event list) option" where
  "parse st [] = Some (st, [])"
| "parse st (w # ws) = (case shift st w of None \<Rightarrow> None
     | Some (st', es) \<Rightarrow> (case parse st' ws of None \<Rightarrow> None | Some (st'', fs) \<Rightarrow> Some (st'', es @ fs)))"

section \<open>The machine reads what the grammar derives\<close>

lemma parse_append: "parse st ws = Some (st', es) \<Longrightarrow> parse st' us = Some (st'', fs) \<Longrightarrow> parse st (ws @ us) = Some (st'', es @ fs)"
  by (induction ws arbitrary: st es) (auto split: option.splits)

lemma parse_taskname: "taskname ws v \<Longrightarrow> parse P_name (ws @ [(SEMICOLON, b)]) = Some (P_opts, [Set_name v])"
  by (induction ws v rule: taskname.induct) simp_all

lemma parse_arg: "arg ws v \<Longrightarrow> parse P_args ws = Some (P_args, [Add_arg v])"
  by (auto simp: word_kinds_def elim!: arg.cases innerarg.cases)

lemma parse_argslist: "argslist ws es \<Longrightarrow> parse P_args ws = Some (P_args, es)"
  by (induction ws es rule: argslist.induct) (auto intro: parse_append parse_arg)

lemma parse_taskopt: "taskopt ws es \<Longrightarrow> parse P_opts ws = Some (P_opts, es)"
proof (induction ws es rule: taskopt.induct)
  case (args ws es a b)
  then show ?case using parse_append [OF parse_argslist [OF args], of "[(SEMICOLON, b)]" P_opts "[]"]
    by (simp add: opts_shift_def word_kinds_def)
qed (simp_all add: opts_shift_def parse_taskname)

lemma parse_taskopts: "taskopts ws es \<Longrightarrow> parse P_opts ws = Some (P_opts, es)"
  by (induction ws es rule: taskopts.induct) (auto intro: parse_append parse_taskopt)

lemma parse_task: "task_rule ws es \<Longrightarrow> parse P_tasks ws = Some (P_tasks, es)"
proof (induction ws es rule: task_rule.induct)
  case (1 ws es a b c)
  then show ?case using parse_append [OF parse_taskopts [OF 1], of "[(ENDBRACE, c)]" P_tasks "[End_task]"]
    by (simp add: opts_shift_def)
qed

lemma parse_tasks: "tasks ws es \<Longrightarrow> parse P_tasks ws = Some (P_tasks, es)"
  by (induction ws es rule: tasks.induct) (auto intro: parse_append parse_task)

section \<open>The grammar derives what the machine reads\<close>

text \<open>What was read when the machine is in a state: some tasks, and the beginning of a next one.\<close>

definition in_task :: "'v terminal list \<Rightarrow> 'v event list \<Rightarrow> bool" where
  "in_task ws es \<longleftrightarrow> (\<exists>ws1 es1 a b ws2 es2. tasks ws1 es1 \<and> taskopts ws2 es2 \<and>
     ws = ws1 @ [(TOKENTASK, a), (OPENBRACE, b)] @ ws2 \<and> es = es1 @ es2)"

definition in_opt :: "kind \<Rightarrow> 'v terminal list \<Rightarrow> 'v event list \<Rightarrow> 'v terminal list \<Rightarrow> 'v event list \<Rightarrow> bool" where
  "in_opt k us fs ws es \<longleftrightarrow> (\<exists>ws1 es1 a. in_task ws1 es1 \<and> ws = ws1 @ (k, a) # us \<and> es = es1 @ fs)"

fun viable :: "'v pstate \<Rightarrow> 'v terminal list \<Rightarrow> 'v event list \<Rightarrow> bool" where
  "viable P_tasks ws es = tasks ws es"
| "viable P_task ws es = (\<exists>ws1 a. tasks ws1 es \<and> ws = ws1 @ [(TOKENTASK, a)])"
| "viable P_opts ws es = in_task ws es"
| "viable P_name ws es = in_opt TOKENNAME [] [] ws es"
| "viable P_name_quote ws es = (\<exists>a. in_opt TOKENNAME [(QUOTE, a)] [] ws es)"
| "viable (P_name_word v) ws es = (\<exists>a. in_opt TOKENNAME [(QUOTE, a), (ALPHAWORD, v)] [] ws es)"
| "viable (P_name_end v) ws es = (\<exists>us. taskname us v \<and> in_opt TOKENNAME us [] ws es)"
| "viable P_path ws es = in_opt TOKENPATH [] [] ws es"
| "viable (P_path_end v) ws es = in_opt TOKENPATH [(PATH, v)] [] ws es"
| "viable P_args ws es = (\<exists>us fs. argslist us fs \<and> in_opt TOKENARGS us fs ws es)"
| "viable P_arg_quote ws es = (\<exists>us fs a. argslist us fs \<and> in_opt TOKENARGS (us @ [(QUOTE, a)]) fs ws es)"
| "viable (P_arg_word v) ws es = (\<exists>us fs vs a. argslist us fs \<and> innerarg vs v \<and> in_opt TOKENARGS (us @ (QUOTE, a) # vs) fs ws es)"
| "viable P_env ws es = in_opt TOKENENV [] [] ws es"
| "viable (P_env_end v) ws es = in_opt TOKENENV [(ENVAR, v)] [] ws es"
| "viable P_dir ws es = in_opt TOKENDIR [] [] ws es"
| "viable (P_dir_end v) ws es = in_opt TOKENDIR [(PATH, v)] [] ws es"

lemma in_task_start: "tasks ws es \<Longrightarrow> in_task (ws @ [(TOKENTASK, a), (OPENBRACE, b)]) es"
  unfolding in_task_def using taskopts.intros(1) by fastforce

lemma in_task_end: "in_task ws es \<Longrightarrow> tasks (ws @ [(ENDBRACE, c)]) (es @ [End_task])"
  unfolding in_task_def using tasks.intros(2) [OF _ task_rule.intros] by fastforce

lemma in_opt_start: "in_task ws es \<Longrightarrow> in_opt k [] [] (ws @ [(k, a)]) es"
  by (auto simp: in_opt_def)

lemma in_opt_more: "in_opt k us fs ws es \<Longrightarrow> in_opt k (us @ vs) (fs @ gs) (ws @ vs) (es @ gs)"
  by (auto simp: in_opt_def)

lemma in_opt_end:
  assumes "in_opt k us fs ws es" "\<And>a. taskopt ((k, a) # us @ [(SEMICOLON, b)]) (fs @ gs)"
  shows "in_task (ws @ [(SEMICOLON, b)]) (es @ gs)"
proof -
  obtain ws1 es1 a where t: "in_task ws1 es1" and ws: "ws = ws1 @ (k, a) # us" "es = es1 @ fs" using assms(1) by (auto simp: in_opt_def)
  obtain ws0 es0 c d ws2 es2 where w: "tasks ws0 es0" "taskopts ws2 es2" "ws1 = ws0 @ [(TOKENTASK, c), (OPENBRACE, d)] @ ws2" "es1 = es0 @ es2"
    using t by (auto simp: in_task_def)
  have "taskopts (ws2 @ (k, a) # us @ [(SEMICOLON, b)]) (es2 @ fs @ gs)" by (rule taskopts.intros(2) [OF w(2) assms(2)])
  then show ?thesis unfolding in_task_def using w(1) ws w(3,4) by fastforce
qed

lemma viable_shift: "viable st ws es \<Longrightarrow> shift st (k, v) = Some (st', fs) \<Longrightarrow> viable st' (ws @ [(k, v)]) (es @ fs)"
proof (cases st)
  case P_opts
  assume "viable st ws es" "shift st (k, v) = Some (st', fs)"
  with P_opts show ?thesis
    by (cases k) (auto simp: opts_shift_def intro: in_task_end in_opt_start argslist.intros(1))
next
  case P_task
  assume "viable st ws es" "shift st (k, v) = Some (st', fs)"
  with P_task show ?thesis using in_task_start by (fastforce split: if_splits)
next
  case P_name
  assume s: "viable st ws es" "shift st (k, v) = Some (st', fs)"
  with P_name have "in_opt TOKENNAME [(k, v)] [] (ws @ [(k, v)]) es" using in_opt_more [of TOKENNAME "[]" "[]" ws es "[(k, v)]" "[]"] by simp
  with P_name s show ?thesis by (auto split: if_splits) (blast intro: taskname.intros)+
next
  case P_name_quote
  assume s: "viable st ws es" "shift st (k, v) = Some (st', fs)"
  with P_name_quote obtain a where "in_opt TOKENNAME [(QUOTE, a)] [] ws es" by auto
  with P_name_quote s show ?thesis using in_opt_more [of TOKENNAME "[(QUOTE, a)]" "[]" ws es "[(k, v)]" "[]"] by (auto split: if_splits)
next
  case (P_name_word u)
  assume s: "viable st ws es" "shift st (k, v) = Some (st', fs)"
  with P_name_word obtain a where "in_opt TOKENNAME [(QUOTE, a), (ALPHAWORD, u)] [] ws es" by auto
  with P_name_word s show ?thesis
    using in_opt_more [of TOKENNAME "[(QUOTE, a), (ALPHAWORD, u)]" "[]" ws es "[(k, v)]" "[]"]
    by (auto split: if_splits) (blast intro: taskname.intros)+
next
  case (P_name_end u)
  assume s: "viable st ws es" "shift st (k, v) = Some (st', fs)"
  with P_name_end obtain us where "taskname us u" "in_opt TOKENNAME us [] ws es" by auto
  with P_name_end s show ?thesis using in_opt_end [of TOKENNAME us "[]" ws es v "[Set_name u]"] by (auto split: if_splits intro: taskopt.name)
next
  case P_path
  assume s: "viable st ws es" "shift st (k, v) = Some (st', fs)"
  with P_path show ?thesis using in_opt_more [of TOKENPATH "[]" "[]" ws es "[(k, v)]" "[]"] by (auto split: if_splits)
next
  case (P_path_end u)
  assume s: "viable st ws es" "shift st (k, v) = Some (st', fs)"
  with P_path_end show ?thesis
    using in_opt_end [of TOKENPATH "[(PATH, u)]" "[]" ws es v "[Set_path u]"] by (auto split: if_splits intro: taskopt.path)
next
  case P_args
  assume s: "viable st ws es" "shift st (k, v) = Some (st', fs)"
  with P_args obtain us gs where a: "argslist us gs" "in_opt TOKENARGS us gs ws es" by auto
  consider "k \<in> set word_kinds" "st' = P_args" "fs = [Add_arg v]" | "k = QUOTE" "st' = P_arg_quote" "fs = []" | "k = SEMICOLON" "st' = P_opts" "fs = []"
    using s(2) P_args by (auto split: if_splits)
  then show ?thesis
  proof cases
    case 1
    then have "argslist (us @ [(k, v)]) (gs @ [Add_arg v])" by (intro argslist.intros(2) [OF a(1)] arg.intros(1))
    with 1 show ?thesis using in_opt_more [OF a(2), of "[(k, v)]" "[Add_arg v]"] by auto
  next
    case 2
    then show ?thesis using a(1) in_opt_more [OF a(2), of "[(k, v)]" "[]"] by auto
  next
    case 3
    then show ?thesis using in_opt_end [OF a(2), of v "[]"] taskopt.args [OF a(1)] by simp
  qed
next
  case P_arg_quote
  assume s: "viable st ws es" "shift st (k, v) = Some (st', fs)"
  with P_arg_quote obtain us gs a where a: "argslist us gs" "in_opt TOKENARGS (us @ [(QUOTE, a)]) gs ws es" by auto
  have st: "k \<in> set word_kinds" "st' = P_arg_word v" "fs = []" using s(2) P_arg_quote by (auto split: if_splits)
  have "in_opt TOKENARGS (us @ (QUOTE, a) # [(k, v)]) gs (ws @ [(k, v)]) (es @ fs)"
    using in_opt_more [OF a(2), of "[(k, v)]" "[]"] st(3) by simp
  then show ?thesis unfolding st(2) viable.simps using a(1) innerarg.intros [OF st(1), of v] by blast
next
  case (P_arg_word u)
  assume s: "viable st ws es" "shift st (k, v) = Some (st', fs)"
  with P_arg_word obtain us gs vs a where a: "argslist us gs" "innerarg vs u" "in_opt TOKENARGS (us @ (QUOTE, a) # vs) gs ws es" by auto
  have "argslist (us @ (QUOTE, a) # vs @ [(QUOTE, v)]) (gs @ [Add_arg u])" by (intro argslist.intros(2) [OF a(1)] arg.intros(2) [OF a(2)])
  with P_arg_word s show ?thesis using in_opt_more [OF a(3), of "[(k, v)]" "[Add_arg u]"] by (auto split: if_splits)
next
  case P_env
  assume s: "viable st ws es" "shift st (k, v) = Some (st', fs)"
  with P_env show ?thesis using in_opt_more [of TOKENENV "[]" "[]" ws es "[(k, v)]" "[]"] by (auto split: if_splits)
next
  case (P_env_end u)
  assume s: "viable st ws es" "shift st (k, v) = Some (st', fs)"
  with P_env_end show ?thesis
    using in_opt_end [of TOKENENV "[(ENVAR, u)]" "[]" ws es v "[Add_env u]"] by (auto split: if_splits intro: taskopt.env)
next
  case P_dir
  assume s: "viable st ws es" "shift st (k, v) = Some (st', fs)"
  with P_dir show ?thesis using in_opt_more [of TOKENDIR "[]" "[]" ws es "[(k, v)]" "[]"] by (auto split: if_splits)
next
  case (P_dir_end u)
  assume s: "viable st ws es" "shift st (k, v) = Some (st', fs)"
  with P_dir_end show ?thesis
    using in_opt_end [of TOKENDIR "[(PATH, u)]" "[]" ws es v "[Set_dir u]"] by (auto split: if_splits intro: taskopt.dir)
qed (auto split: if_splits)

lemma viable_parse: "viable st ws es \<Longrightarrow> parse st us = Some (st', fs) \<Longrightarrow> viable st' (ws @ us) (es @ fs)"
proof (induction us arbitrary: st ws es fs)
  case (Cons u us)
  obtain k v where u: "u = (k, v)" by (cases u)
  obtain st1 fs1 fs2 where 1: "shift st (k, v) = Some (st1, fs1)" "parse st1 us = Some (st', fs2)" "fs = fs1 @ fs2"
    using Cons.prems(2) by (auto simp: u split: option.splits)
  from Cons.IH [OF viable_shift [OF Cons.prems(1) 1(1)] 1(2)] show ?case by (simp add: u 1(3))
qed simp

lemma machine_reads: "parse P_tasks ws = Some (P_tasks, es) \<longleftrightarrow> tasks ws es"
  using parse_tasks [of ws es] viable_parse [of P_tasks "[]" "[]" ws P_tasks es] tasks.intros(1) by auto

section \<open>The properties\<close>

text \<open>C40: The machine that reads the configuration accepts exactly the token sequences that the grammar derives, and performs
  for each the actions of its derivation, in order; so the actions of a sequence do not depend on the derivation.\<close>

theorem parse_equals_grammar:
  "(parse P_tasks ws = Some (P_tasks, es) \<longleftrightarrow> tasks ws es) \<and> (tasks ws es \<and> tasks ws fs \<longrightarrow> es = fs)"
proof (intro conjI machine_reads impI)
  show "es = fs" if "tasks ws es \<and> tasks ws fs"
    using machine_reads [of ws es] machine_reads [of ws fs] that by simp
qed

theorem parse_equals_grammar_witness:
  "tasks [(TOKENTASK, 0), (OPENBRACE, 1), (TOKENNAME, 2), (QUOTE, 3), (ALPHAWORD, 4), (QUOTE, 5), (SEMICOLON, 6),
     (TOKENARGS, 7), (NUMBER, 8), (ARGKEY, 9), (SEMICOLON, 10), (ENDBRACE, 11)] [Set_name 4, Add_arg 8, Add_arg 9, End_task :: nat event]"
  by (rule iffD1 [OF conjunct1 [OF parse_equals_grammar [where fs = "[]"]]]) (simp add: opts_shift_def word_kinds_def)

end
