(* ===== verification/Conf_Parse.thy ===== *)
theory Conf_Parse
  imports Conf_Gram Conf
begin

text \<open>
  The parser of \<open>src/conf_gram.y\<close> with its actions: the static variable \<open>task\<close>, the macros \<open>check_task\<close> and
  \<open>check_task_member\<close>, what a reduction does with the values of the tokens, and \<open>yyerror\<close>. The scanner's \<open>strdup\<close>
  makes the values. What the scanner echoes goes to the buffer of \<open>stdout\<close>, which is not part of the state.
\<close>

section \<open>What is used of the C library\<close>

text \<open>The copy ends at the first NUL of the text.\<close>

definition strdup :: "os \<Rightarrow> string \<Rightarrow> addr prog" where
  "strdup os yytext =
     (let t = takeWhile (\<lambda>c. c \<noteq> CHR 0x00) yytext in
      bindr (malloc os (length t + 1)) (\<lambda>p.
      bindr (whenr (p \<noteq> NULL) (modify (\<lambda>s. s\<lparr>w_bytes := (w_bytes s)(p \<mapsto> cstr t)\<rparr>))) (\<lambda>_.
      ret p)))"

text \<open>\<open>realloc\<close> of an array to \<open>n\<close> pointers. The new block may overlap the old one; when there is none, the old one
  stays. What the old array did not fill is indeterminate.\<close>

definition sizeof_ptr :: nat where "sizeof_ptr = 8"

definition realloc_ptrs :: "os \<Rightarrow> addr \<Rightarrow> nat \<Rightarrow> addr prog" where
  "realloc_ptrs os p n =
     bindr (if p = NULL then ret [] else getsome (\<lambda>s. deref (w_ptrs s) p)) (\<lambda>old s.
     case free p s of
       Some (Ret _, s') \<Rightarrow>
         (let q = os_malloc os s' (n * sizeof_ptr) in
          if q = NULL then Some (Ret NULL, s)
          else Some (Ret q, s'\<lparr>w_blocks := (q, n * sizeof_ptr) # w_blocks s',
            w_ptrs := (w_ptrs s')(q \<mapsto> take n (old @ replicate n None))\<rparr>))
     | _ \<Rightarrow> None)"

definition get_ptr :: "addr \<Rightarrow> nat \<Rightarrow> addr prog" where
  "get_ptr p i = getsome (\<lambda>s. do { ps \<leftarrow> deref (w_ptrs s) p; if i < length ps then ps ! i else None })"

definition set_ptr :: "addr \<Rightarrow> nat \<Rightarrow> addr \<Rightarrow> unit prog" where
  "set_ptr p i v = modifysome (\<lambda>s. do {
     ps \<leftarrow> deref (w_ptrs s) p;
     if i < length ps then Some (s\<lparr>w_ptrs := (w_ptrs s)(p \<mapsto> ps[i := Some v])\<rparr>) else None })"

section \<open>The macros\<close>

definition CONF_DEFAULT_LEN :: nat where "CONF_DEFAULT_LEN = 10"

definition get_conf :: "addr \<Rightarrow> addr prog" where
  "get_conf cnf = getsome (\<lambda>s. peek cf_ctx (w_confs s) cnf)"

definition check_task :: "os \<Rightarrow> addr \<Rightarrow> unit prog" where
  "check_task os cnf =
     bindr (gets g_task) (\<lambda>task.
     if task \<noteq> NULL then ret () else
     bindr (bindr (get_conf cnf) (task_create os)) (\<lambda>task.
     bindr (modify (\<lambda>s. s\<lparr>g_task := task\<rparr>)) (\<lambda>_.
     if task = NULL then ret () else
     bindr (bindr (get_conf cnf) (task_init task)) (\<lambda>_.
     ret ()))))"

text \<open>The parameter \<open>member\<close> of \<open>check_task_member\<close> is \<open>args\<close> or \<open>envp\<close>.\<close>

datatype member = M_args | M_envp

fun member_ptr :: "member \<Rightarrow> task \<Rightarrow> addr" where
  "member_ptr M_args k = tk_args k"
| "member_ptr M_envp k = tk_envp k"

fun member_len :: "member \<Rightarrow> task \<Rightarrow> nat" where
  "member_len M_args k = tk_args_len k"
| "member_len M_envp k = tk_envp_len k"

fun member_total :: "member \<Rightarrow> task \<Rightarrow> nat" where
  "member_total M_args k = tk_args_total k"
| "member_total M_envp k = tk_envp_total k"

fun set_member :: "member \<Rightarrow> addr \<Rightarrow> nat \<Rightarrow> nat \<Rightarrow> task \<Rightarrow> task" where
  "set_member M_args p len room k = k\<lparr>tk_args := p, tk_args_len := len, tk_args_total := room\<rparr>"
| "set_member M_envp p len room k = k\<lparr>tk_envp := p, tk_envp_len := len, tk_envp_total := room\<rparr>"

definition check_task_member :: "os \<Rightarrow> addr \<Rightarrow> member \<Rightarrow> nat \<Rightarrow> nat \<Rightarrow> unit prog" where
  "check_task_member os task m needsize incrsize =
     bindr (get_task (\<lambda>k. k) task) (\<lambda>k.
     whenr (member_len m k + needsize > member_total m k)
       (bindr (realloc_ptrs os (member_ptr m k) (member_total m k + incrsize)) (\<lambda>p.
        set_task task (\<lambda>k. set_member m p (member_len m k) (member_total m k + incrsize) k))))"

text \<open>\<open>task->member[task->member_len++] = v\<close>\<close>

definition append_member :: "addr \<Rightarrow> member \<Rightarrow> addr \<Rightarrow> unit prog" where
  "append_member task m v =
     bindr (get_task (\<lambda>k. k) task) (\<lambda>k.
     bindr (set_ptr (member_ptr m k) (member_len m k) v) (\<lambda>_.
     set_task task (\<lambda>k. set_member m (member_ptr m k) (member_len m k + 1) (member_total m k) k)))"

section \<open>The actions\<close>

text \<open>\<open>for (i = task->args_len; i > 0; i--) task->args[i] = task->args[i - 1];\<close>\<close>

fun shift_args :: "addr \<Rightarrow> nat \<Rightarrow> unit prog" where
  "shift_args task 0 = ret ()"
| "shift_args task (Suc i) =
     bindr (get_task tk_args task) (\<lambda>args.
     bindr (get_ptr args i) (\<lambda>v.
     bindr (set_ptr args (Suc i) v) (\<lambda>_.
     shift_args task i)))"

definition end_task :: "os \<Rightarrow> addr \<Rightarrow> unit prog" where
  "end_task os cnf =
     bindr (gets g_task) (\<lambda>task.
     bindr (check_task_member os task M_args 2 2) (\<lambda>_.
     bindr (bindr (get_task tk_args_len task) (shift_args task)) (\<lambda>_.
     bindr (get_task tk_path task) (\<lambda>path.
     bindr (bindr (get_task tk_args task) (\<lambda>args. set_ptr args 0 path)) (\<lambda>_.
     bindr (set_task task (\<lambda>k. k\<lparr>tk_args_len := tk_args_len k + 1\<rparr>)) (\<lambda>_.
     bindr (append_member task M_args NULL) (\<lambda>_.
     bindr (get_task tk_envp task) (\<lambda>envp.
     bindr (whenr (envp \<noteq> NULL)
       (bindr (check_task_member os task M_envp 1 1) (\<lambda>_. append_member task M_envp NULL))) (\<lambda>_.
     bindr (modifysome (\<lambda>s. do {
       ls \<leftarrow> list_add (w_lists s) (task_list task) (conf_tasks_list cnf);
       Some (s\<lparr>w_lists := ls\<rparr>) })) (\<lambda>_.
     modify (\<lambda>s. s\<lparr>g_task := NULL\<rparr>)))))))))))"

fun do_event :: "os \<Rightarrow> addr \<Rightarrow> addr event \<Rightarrow> unit prog" where
  "do_event os cnf (Set_name v) =
     bindr (check_task os cnf) (\<lambda>_. bindr (gets g_task) (\<lambda>task. set_task task (\<lambda>k. k\<lparr>tk_name := v\<rparr>)))"
| "do_event os cnf (Set_path v) =
     bindr (check_task os cnf) (\<lambda>_. bindr (gets g_task) (\<lambda>task. set_task task (\<lambda>k. k\<lparr>tk_path := v\<rparr>)))"
| "do_event os cnf (Set_dir v) =
     bindr (check_task os cnf) (\<lambda>_. bindr (gets g_task) (\<lambda>task. set_task task (\<lambda>k. k\<lparr>tk_dir := v\<rparr>)))"
| "do_event os cnf (Add_arg v) =
     bindr (check_task os cnf) (\<lambda>_. bindr (gets g_task) (\<lambda>task.
     bindr (check_task_member os task M_args 1 CONF_DEFAULT_LEN) (\<lambda>_. append_member task M_args v)))"
| "do_event os cnf (Add_env v) =
     bindr (check_task os cnf) (\<lambda>_. bindr (gets g_task) (\<lambda>task.
     bindr (check_task_member os task M_envp 1 CONF_DEFAULT_LEN) (\<lambda>_. append_member task M_envp v)))"
| "do_event os cnf End_task = end_task os cnf"

fun do_events :: "os \<Rightarrow> addr \<Rightarrow> addr event list \<Rightarrow> unit prog" where
  "do_events os cnf [] = ret ()"
| "do_events os cnf (e # es) = bindr (do_event os cnf e) (\<lambda>_. do_events os cnf es)"

section \<open>The parser\<close>

text \<open>The scanner never sets the location: \<open>first_line\<close> is always 1.\<close>

definition yyerror :: "os \<Rightarrow> string \<Rightarrow> unit prog" where
  "yyerror os str = bz_log_stderr os [Lit ''error in you config file: '', Txt str, Lit '' near line: '', Dec 1]"

fun yyparse_from :: "os \<Rightarrow> addr \<Rightarrow> addr pstate \<Rightarrow> token list \<Rightarrow> int prog" where
  "yyparse_from os cnf st [] =
     (if st = P_tasks then ret 0 else bindr (yyerror os ''syntax error'') (\<lambda>_. ret 1))"
| "yyparse_from os cnf st ((k, t) # ts) =
     bindr (case t of None \<Rightarrow> ret NULL | Some yytext \<Rightarrow> strdup os yytext) (\<lambda>yylval.
     case shift st (k, yylval) of
       None \<Rightarrow> bindr (yyerror os ''syntax error'') (\<lambda>_. ret 1)
     | Some (st', es) \<Rightarrow> bindr (do_events os cnf es) (\<lambda>_. yyparse_from os cnf st' ts))"

definition yyparse :: "os \<Rightarrow> addr \<Rightarrow> string \<Rightarrow> int prog" where
  "yyparse os cnf bytes = yyparse_from os cnf P_tasks (tokens bytes)"

end
