(* ===== verification/Conf_Heap.thy ===== *)
theory Conf_Heap
  imports Conf_Parse Task_Close
begin

text \<open>
  What the parser does to the memory: it allocates, it moves the arrays of the current task, and it writes into that
  task. \<open>steps X s s'\<close> says that from \<open>s\<close> to \<open>s'\<close> all blocks but those in \<open>X\<close> stayed as they were.
\<close>

section \<open>Steps that stay away from blocks\<close>

definition same_at :: "world \<Rightarrow> world \<Rightarrow> addr \<Rightarrow> bool" where
  "same_at s s' q \<longleftrightarrow> w_bytes s' q = w_bytes s q \<and> w_ptrs s' q = w_ptrs s q \<and> w_tasks s' q = w_tasks s q \<and>
     w_lists s' q = w_lists s q \<and> w_nodes s' q = w_nodes s q \<and> w_logs s' q = w_logs s q \<and> w_confs s' q = w_confs s q \<and>
     w_ctxs s' q = w_ctxs s q \<and> w_insts s' q = w_insts s q"

text \<open>All that is not memory, nor the variable \<open>task\<close> of the parser.\<close>

definition non_memory :: "world \<Rightarrow> world" where
  "non_memory s = s\<lparr>w_blocks := [], w_bytes := Map.empty, w_ptrs := Map.empty, w_tasks := Map.empty, w_lists := Map.empty,
     w_nodes := Map.empty, w_logs := Map.empty, w_confs := Map.empty, w_ctxs := Map.empty, w_insts := Map.empty, g_task := NULL\<rparr>"

definition tidy :: "world \<Rightarrow> bool" where
  "tidy s \<longleftrightarrow> separate s \<and> in_blocks s"

definition steps :: "addr set \<Rightarrow> world \<Rightarrow> world \<Rightarrow> bool" where
  "steps X s s' \<longleftrightarrow> tidy s' \<and> (\<forall>b q. within s b q \<longrightarrow> b \<notin> X \<longrightarrow> within s' b q \<and> same_at s s' q) \<and> non_memory s' = non_memory s"

lemma steps_refl: "tidy s \<Longrightarrow> steps X s s"
  by (simp add: steps_def same_at_def)

lemma steps_trans: "steps X s s' \<Longrightarrow> steps Y s' s'' \<Longrightarrow> steps (X \<union> Y) s s''"
  unfolding steps_def same_at_def by (elim conjE, intro conjI allI impI) (simp_all, metis+)

lemma steps_mono: "steps X s s' \<Longrightarrow> X \<subseteq> Y \<Longrightarrow> steps Y s s'"
  by (auto simp: steps_def)

lemma steps_within: "steps X s s' \<Longrightarrow> within s b q \<Longrightarrow> b \<notin> X \<Longrightarrow> within s' b q"
  by (simp add: steps_def)

lemma steps_same:
  assumes "steps X s s'" "within s b q" "b \<notin> X"
  shows "deref (w_bytes s') q = deref (w_bytes s) q" "deref (w_ptrs s') q = deref (w_ptrs s) q" "deref (w_tasks s') q = deref (w_tasks s) q"
    "w_lists s' q = w_lists s q" "deref (w_nodes s') q = deref (w_nodes s) q" "deref (w_logs s') q = deref (w_logs s) q"
    "deref (w_confs s') q = deref (w_confs s) q" "deref (w_ctxs s') q = deref (w_ctxs s) q" "deref (w_insts s') q = deref (w_insts s) q"
    "str_at s' q = str_at s q"
  using assms by (simp_all add: steps_def same_at_def deref_def str_at_def)

lemma steps_tidy: "steps X s s' \<Longrightarrow> tidy s'"
  by (simp add: steps_def)

text \<open>A block is the only one its addresses lie in.\<close>

lemma within_unique: "separate s \<Longrightarrow> within s b q \<Longrightarrow> within s b' q \<Longrightarrow> b = b'"
  unfolding separate_def within_def by fastforce

lemma object_within:
  assumes "tidy s" "q \<in> objects s"
  obtains b where "within s b q"
proof -
  obtain b n where "(b, n) \<in> set (w_blocks s)" "b \<le> q" "q < b + n" using assms unfolding tidy_def in_blocks_def by blast
  then have "within s b q" by (auto simp: within_def)
  then show thesis by (rule that)
qed

lemma objects_same_at: "same_at s s' q \<Longrightarrow> q \<in> objects s' \<longleftrightarrow> q \<in> objects s"
  by (simp add: same_at_def objects_def dom_def)

text \<open>A new block.\<close>

lemma steps_new:
  assumes t: "tidy s" and f: "fresh_block (w_blocks s) a n" and b: "w_blocks s' = (a, n) # w_blocks s"
    and same: "\<And>q. q < a \<or> a + n \<le> q \<Longrightarrow> same_at s s' q" and m: "non_memory s' = non_memory s"
  shows "steps {} s s'" "a \<notin> live s" "live s' = insert a (live s)" "0 < n \<Longrightarrow> within s' a a"
proof -
  have apart: "a \<noteq> c \<and> (a + n \<le> c \<or> c + m \<le> a)" if "(c, m) \<in> set (w_blocks s)" for c m
    using f that by (auto simp: fresh_block_def list_all_iff)
  show a: "a \<notin> live s" using apart unfolding live_def by fastforce
  show "live s' = insert a (live s)" by (simp add: live_def b)
  show "0 < n \<Longrightarrow> within s' a a" by (auto simp: within_def b)
  have "distinct (map fst (w_blocks s'))" using a t by (simp add: b tidy_def separate_def live_def)
  moreover have "\<forall>(c, m) \<in> set (w_blocks s'). \<forall>(d, k) \<in> set (w_blocks s'). c \<noteq> d \<longrightarrow> c + m \<le> d \<or> d + k \<le> c"
    using t apart by (fastforce simp: b tidy_def separate_def)
  ultimately have "separate s'" by (simp add: separate_def)
  moreover have "in_blocks s'"
    unfolding in_blocks_def
  proof
    fix q
    assume q: "q \<in> objects s'"
    show "\<exists>c m. (c, m) \<in> set (w_blocks s') \<and> c \<le> q \<and> q < c + m"
    proof (cases "q < a \<or> a + n \<le> q")
      case True
      then have "q \<in> objects s" using q objects_same_at [OF same] by blast
      then show ?thesis using t by (fastforce simp: b tidy_def in_blocks_def)
    next
      case False
      then show ?thesis by (intro exI [of _ a] exI [of _ n]) (simp add: b)
    qed
  qed
  moreover have "within s' c q \<and> same_at s s' q" if w: "within s c q" for c q
  proof -
    obtain m where c: "(c, m) \<in> set (w_blocks s)" "c \<le> q" "q < c + m" using w by (auto simp: within_def)
    then have "q < a \<or> a + n \<le> q" using apart [OF c(1)] by linarith
    with same c show ?thesis by (auto simp: within_def b)
  qed
  ultimately show "steps {} s s'" using m by (simp add: steps_def tidy_def)
qed

text \<open>A block that is given back.\<close>

lemma steps_release:
  assumes t: "tidy s" and p: "p \<in> live s"
  shows "steps {p} s (release p s)"
proof -
  have sep: "separate s" using t by (simp add: tidy_def)
  have same: "within (release p s) b q \<and> same_at s (release p s) q" if "within s b q" "b \<noteq> p" for b q
    using that within_release release_same [OF sep that] by (simp add: same_at_def)
  obtain n where n: "map_of (w_blocks s) p = Some n" using p by (auto simp: live_def dest: weak_map_of_SomeI)
  have "in_blocks (release p s)"
    unfolding in_blocks_def
  proof
    fix q
    assume q: "q \<in> objects (release p s)"
    then have out: "\<not> (p \<le> q \<and> q < p + n)" and "q \<in> objects s" using n
      by (auto simp: release_def objects_def without_def dom_def split: if_splits)
    from object_within [OF t this(2)] obtain b where b: "within s b q" by blast
    have "b \<noteq> p"
    proof
      assume "b = p"
      with b obtain m where m: "(p, m) \<in> set (w_blocks s)" "p \<le> q" "q < p + m" by (auto simp: within_def)
      have "m = n" using sep n m(1) by (simp add: separate_def)
      with m out show False by simp
    qed
    with b have "within (release p s) b q" by (rule within_release)
    then show "\<exists>c m. (c, m) \<in> set (w_blocks (release p s)) \<and> c \<le> q \<and> q < c + m" by (auto simp: within_def)
  qed
  moreover have "non_memory (release p s) = non_memory s" by (simp add: non_memory_def release_def split: option.split)
  ultimately show ?thesis using same sep by (simp add: steps_def tidy_def)
qed

text \<open>A change of the objects at one address.\<close>

lemma steps_touch:
  assumes t: "tidy s" and p: "within s p q0" and b: "w_blocks s' = w_blocks s"
    and same: "\<And>q. q \<noteq> q0 \<Longrightarrow> same_at s s' q" and m: "non_memory s' = non_memory s"
  shows "steps {p} s s'" "live s' = live s" "within s' = within s"
proof -
  show w: "within s' = within s" by (intro ext) (simp add: within_def b)
  show "live s' = live s" by (simp add: live_def b)
  have "in_blocks s'"
    unfolding in_blocks_def
  proof
    fix q
    assume q: "q \<in> objects s'"
    have "\<exists>c. within s' c q"
    proof (cases "q = q0")
      case False
      then have "q \<in> objects s" using q objects_same_at [OF same] by blast
      then show ?thesis using object_within [OF t] w by metis
    qed (use p w in auto)
    then show "\<exists>c m. (c, m) \<in> set (w_blocks s') \<and> c \<le> q \<and> q < c + m" by (auto simp: within_def)
  qed
  moreover have "separate s'" using t by (simp add: tidy_def separate_def b)
  moreover have "same_at s s' q" if "within s c q" "c \<noteq> p" for c q
  proof -
    have "q \<noteq> q0" using within_unique [OF _ that(1), of p] t p that(2) by (auto simp: tidy_def)
    then show ?thesis by (rule same)
  qed
  ultimately show "steps {p} s s'" using m w by (simp add: steps_def tidy_def)
qed

section \<open>Allocation\<close>

text \<open>A system with enough memory.\<close>

definition roomy :: "os \<Rightarrow> bool" where
  "roomy os \<longleftrightarrow> malloc_fresh os \<and> (\<forall>s n. os_malloc os s n \<noteq> NULL)"

lemma roomy_block: "roomy os \<Longrightarrow> os_malloc os s n \<noteq> NULL \<and> fresh_block (w_blocks s) (os_malloc os s n) n"
  by (simp add: roomy_def malloc_fresh_def)

lemma roomy_malloc:
  assumes "roomy os"
  obtains a where "malloc os n s = Some (Ret a, s\<lparr>w_blocks := (a, n) # w_blocks s\<rparr>)" "a \<noteq> NULL" "fresh_block (w_blocks s) a n"
  using roomy_block [OF assms, of s n] that [of "os_malloc os s n"] by (simp add: malloc_def Let_def)

definition has_str :: "world \<Rightarrow> addr \<Rightarrow> string \<Rightarrow> bool" where
  "has_str s p t \<longleftrightarrow> p \<noteq> NULL \<and> within s p p \<and> str_at s p = Some t"

lemma has_str_steps: "has_str s p t \<Longrightarrow> steps X s s' \<Longrightarrow> p \<notin> X \<Longrightarrow> has_str s' p t"
  unfolding has_str_def using steps_within steps_same(10) by (metis (no_types))

text \<open>The text of a token as a C string.\<close>

definition c_text :: "string \<Rightarrow> string" where
  "c_text t = takeWhile (\<lambda>c. c \<noteq> CHR 0x00) t"

lemma c_text_no_nul: "no_nul (c_text t)"
  by (auto simp: no_nul_def c_text_def list_all_iff dest: set_takeWhileD)

lemma strdup_run:
  assumes "roomy os" "tidy s"
  shows "returns (strdup os t) (\<lambda>p s'. steps {} s s' \<and> p \<notin> live s \<and> live s' = insert p (live s) \<and> has_str s' p (c_text t) \<and>
    g_task s' = g_task s \<and> w_lists s' = w_lists s) s"
proof -
  obtain a where a: "malloc os (length (c_text t) + 1) s = Some (Ret a, s\<lparr>w_blocks := (a, length (c_text t) + 1) # w_blocks s\<rparr>)" "a \<noteq> NULL"
    "fresh_block (w_blocks s) a (length (c_text t) + 1)" using assms(1) by (rule roomy_malloc)
  define s' where "s' = s\<lparr>w_blocks := (a, length (c_text t) + 1) # w_blocks s, w_bytes := (w_bytes s)(a \<mapsto> cstr (c_text t))\<rparr>"
  have run: "strdup os t s = Some (Ret a, s')"
    using a(1,2) unfolding strdup_def Let_def c_text_def [symmetric] by (simp add: run_simps s'_def)
  have same: "same_at s s' q" if "q < a \<or> a + (length (c_text t) + 1) \<le> q" for q
    using that by (auto simp: same_at_def s'_def)
  have "non_memory s' = non_memory s" by (simp add: s'_def non_memory_def)
  note new = steps_new [OF assms(2) a(3) _ same this]
  have "str_at s' a = Some (c_text t)"
    using a(2) cstring_cstr [OF c_text_no_nul, of t "[]"] by (simp add: str_at_def s'_def deref_def)
  then show ?thesis using run new a(2) by (simp add: returns_def has_str_def) (simp add: s'_def)
qed

section \<open>Arrays of pointers\<close>

text \<open>An array of room for \<open>room\<close> pointers that begins with \<open>xs\<close>; without an array there is nothing in it.\<close>

definition vec :: "world \<Rightarrow> addr \<Rightarrow> addr list \<Rightarrow> nat \<Rightarrow> bool" where
  "vec s p xs room \<longleftrightarrow> (if p = NULL then xs = [] \<and> room = 0
     else within s p p \<and> (\<exists>junk. deref (w_ptrs s) p = Some (map Some xs @ junk) \<and> length xs + length junk = room))"

lemma vec_steps: "vec s p xs room \<Longrightarrow> steps X s s' \<Longrightarrow> p \<notin> X \<Longrightarrow> vec s' p xs room"
  unfolding vec_def using steps_within [of X s s' p p] steps_same(2) [of X s s' p p] by (cases "p = NULL") simp_all

lemma vec_cong: "within s' = within s \<Longrightarrow> w_ptrs s' = w_ptrs s \<Longrightarrow> vec s' = vec s"
  by (intro ext) (simp add: vec_def)

lemma vec_room: "vec s p xs room \<Longrightarrow> length xs \<le> room"
  by (auto simp: vec_def split: if_splits)

lemma release_g_task [simp]: "g_task (release p s) = g_task s"
  by (simp add: release_def split: option.split)

lemma realloc_run:
  assumes "roomy os" "tidy s" "vec s p xs room" "0 < incr"
  shows "returns (realloc_ptrs os p (room + incr)) (\<lambda>q s'. q \<noteq> NULL \<and> steps (set (owned p)) s s' \<and> vec s' q xs (room + incr) \<and>
    q \<notin> live s - set (owned p) \<and> live s' = insert q (live s - set (owned p)) \<and> g_task s' = g_task s \<and> within s' q q) s"
proof -
  let ?n = "(room + incr) * sizeof_ptr"
  define s1 where "s1 = (if p = NULL then s else release p s)"
  define q where "q = os_malloc os s1 ?n"
  have q: "q \<noteq> NULL" "fresh_block (w_blocks s1) q ?n" using roomy_block [OF assms(1)] by (simp_all add: q_def)
  have p: "p \<in> live s" if "p \<noteq> NULL" using assms(3) that within_live by (auto simp: vec_def)
  have free: "free p s = Some (Ret (), s1)" using p by (simp add: s1_def free_live)
  have s1: "steps (set (owned p)) s s1" "live s1 = live s - set (owned p)" "g_task s1 = g_task s"
    using steps_release [OF assms(2) p] steps_refl [OF assms(2)] by (simp_all add: s1_def owned_def)
  obtain junk where junk: "(if p = NULL then [] else the (deref (w_ptrs s) p)) = map Some xs @ junk" "length xs + length junk = room"
    using assms(3) by (auto simp: vec_def split: if_splits)
  define old where "old = map Some xs @ junk"
  define s2 where "s2 = s1\<lparr>w_blocks := (q, ?n) # w_blocks s1, w_ptrs := (w_ptrs s1)(q \<mapsto> take (room + incr) (old @ replicate (room + incr) None))\<rparr>"
  have old: "bindr (if p = NULL then ret [] else getsome (\<lambda>s. deref (w_ptrs s) p)) f s = f old s" for f :: "addr option list \<Rightarrow> addr prog"
    using assms(3) junk(1) by (auto simp: old_def vec_def run_simps split: if_splits)
  have run: "realloc_ptrs os p (room + incr) s = Some (Ret q, s2)"
    using q(1) free unfolding realloc_ptrs_def old by (simp add: Let_def q_def s2_def)
  have same: "same_at s1 s2 r" if "r < q \<or> q + ?n \<le> r" for r
    using that assms(4) by (auto simp: same_at_def s2_def sizeof_ptr_def)
  have "non_memory s2 = non_memory s1" by (simp add: s2_def non_memory_def)
  note new = steps_new [OF steps_tidy [OF s1(1)] q(2) _ same this]
  have "steps (set (owned p) \<union> {}) s s2" by (rule steps_trans [OF s1(1) new(1)]) (simp_all add: s2_def)
  moreover have "take (room + incr) (old @ replicate (room + incr) None) = map Some xs @ (junk @ replicate incr None)"
    using junk(2) by (simp add: old_def)
  then have "deref (w_ptrs s2) q = Some (map Some xs @ (junk @ replicate incr None))" using q(1) by (simp add: s2_def deref_def)
  moreover have "within s2 q q" "q \<notin> live s1" "live s2 = insert q (live s1)" using new(2-4) assms(4) by (simp_all add: s2_def sizeof_ptr_def)
  moreover have "g_task s2 = g_task s" using s1(3) by (simp add: s2_def)
  ultimately show ?thesis using run q(1) s1(2) junk(2) by (simp add: returns_def vec_def)
qed

section \<open>The current task\<close>

text \<open>What the options of a task say, with values of any kind: addresses in the memory, texts in the file.\<close>

datatype 'v spec = Spec (sp_name: "'v option") (sp_path: "'v option") (sp_dir: "'v option") (sp_args: "'v list") (sp_env: "'v list")

primrec addr_of :: "addr option \<Rightarrow> addr" where
  "addr_of None = NULL"
| "addr_of (Some p) = p"

abbreviation pointers :: "task \<Rightarrow> addr list" where
  "pointers k \<equiv> owned (tk_args k) @ owned (tk_envp k)"

text \<open>The task at \<open>t\<close> is \<open>k\<close>, as the options \<open>d\<close> set it, and its two arrays begin with \<open>C M_args\<close> and \<open>C M_envp\<close>.\<close>

definition task_base :: "addr \<Rightarrow> task \<Rightarrow> addr spec \<Rightarrow> bool" where
  "task_base c k d \<longleftrightarrow> tk_ctx k = c \<and> tk_pid k = 0 \<and> tk_status k = TASK_INIT \<and> tk_log_path k = NULL \<and>
     tk_name k = addr_of (sp_name d) \<and> tk_path k = addr_of (sp_path d) \<and> tk_dir k = addr_of (sp_dir d)"

definition task_at :: "world \<Rightarrow> addr \<Rightarrow> task \<Rightarrow> bool" where
  "task_at s t k \<longleftrightarrow> deref (w_tasks s) t = Some k \<and> within s t t \<and> within s t (task_list t) \<and> within s t (task_node t) \<and>
     w_lists s (task_list t) \<noteq> None \<and> deref (w_nodes s) (task_node t) \<noteq> None \<and> distinct (t # pointers k)"

definition shaped :: "world \<Rightarrow> addr \<Rightarrow> addr \<Rightarrow> task \<Rightarrow> addr spec \<Rightarrow> (member \<Rightarrow> addr list) \<Rightarrow> bool" where
  "shaped s c t k d C \<longleftrightarrow> tidy s \<and> task_base c k d \<and> task_at s t k \<and>
     (\<forall>m. vec s (member_ptr m k) (C m) (member_total m k) \<and> member_len m k = length (C m))"

text \<open>From \<open>s\<close> to \<open>s'\<close> only the task and its arrays changed: the arrays may have moved to new blocks.\<close>

definition reworks :: "addr \<Rightarrow> world \<Rightarrow> task \<Rightarrow> world \<Rightarrow> task \<Rightarrow> bool" where
  "reworks t s k s' k' \<longleftrightarrow> steps (set (t # pointers k)) s s' \<and> set (pointers k') \<inter> (live s - set (pointers k)) = {} \<and>
     live s' = live s - set (pointers k) \<union> set (pointers k') \<and> g_task s' = g_task s"

lemma shaped_pointers: "shaped s c t k d C \<Longrightarrow> set (pointers k) \<subseteq> live s"
proof -
  assume s: "shaped s c t k d C"
  have "within s p p" if "p \<in> set (owned (member_ptr m k))" for p m
    using s that by (auto simp: shaped_def vec_def owned_def split: if_splits)
  from this [of _ M_args] this [of _ M_envp] show ?thesis by (auto intro: within_live)
qed

lemma reworks_trans: "reworks t s k s1 k1 \<Longrightarrow> reworks t s1 k1 s2 k2 \<Longrightarrow> reworks t s k s2 k2"
proof -
  assume 1: "reworks t s k s1 k1" and 2: "reworks t s1 k1 s2 k2"
  have a: "steps (set (t # pointers k) \<union> set (t # pointers k1)) s s2"
    using 1 2 steps_trans unfolding reworks_def by blast
  have "b \<in> live s" if "within s b q" for b q using that by (force simp: within_def live_def)
  then have "steps (set (t # pointers k)) s s2" using a 1 unfolding steps_def reworks_def by (metis (no_types, lifting) Diff_iff Int_iff Un_iff empty_iff list.set_intros set_ConsD)
  then show ?thesis using 1 2 unfolding reworks_def by auto
qed

lemma member_pointers: "set (owned (member_ptr m k)) \<subseteq> set (pointers k)"
  by (cases m) auto

lemma steps_reworks:
  assumes "steps X s s'" "X \<subseteq> set (t # pointers k)" "pointers k' = pointers k" "live s' = live s" "g_task s' = g_task s"
    "set (pointers k) \<subseteq> live s"
  shows "reworks t s k s' k'"
  using assms steps_mono [OF assms(1,2)] by (auto simp: reworks_def)

text \<open>An assignment to fields of the task.\<close>

lemma set_task_works:
  assumes s: "shaped s c t k d C" and base: "task_base c (u k) d'"
    and mem: "\<And>m. member_ptr m (u k) = member_ptr m k" "\<And>m. member_total m (u k) = member_total m k" "\<And>m. member_len m (u k) = length (C' m)"
      "\<And>m. C' m = C m \<or> vec s (member_ptr m k) (C' m) (member_total m k)"
  shows "returns (set_task t u) (\<lambda>_ s'. shaped s' c t (u k) d' C' \<and> reworks t s k s' (u k) \<and> s' = s\<lparr>w_tasks := (w_tasks s)(t \<mapsto> u k)\<rparr>) s"
proof -
  let ?s' = "s\<lparr>w_tasks := (w_tasks s)(t \<mapsto> u k)\<rparr>"
  have t: "tidy s" "task_at s t k" "deref (w_tasks s) t = Some k" using s by (simp_all add: shaped_def task_at_def)
  then have tn: "t \<noteq> NULL" by (auto dest: deref_not_NULL)
  have run: "set_task t u s = Some (Ret (), ?s')" using t(3) by (simp add: set_task_def modifysome_def poke_def)
  have same: "same_at s ?s' q" if "q \<noteq> t" for q using that by (simp add: same_at_def)
  have "within s t t" using t(2) by (simp add: task_at_def)
  note touch = steps_touch [OF t(1) this _ same]
  have st: "steps {t} s ?s'" "live ?s' = live s" "within ?s' = within s" by (rule touch; simp add: non_memory_def)+
  have ptrs: "pointers (u k) = pointers k" using mem(1) [of M_args] mem(1) [of M_envp] by simp
  have "vec ?s' (member_ptr m (u k)) (C' m) (member_total m (u k))" for m
  proof -
    have "vec s (member_ptr m k) (C' m) (member_total m k)" using s mem(4) [of m] by (auto simp: shaped_def)
    then show ?thesis using st(3) by (simp add: vec_def mem(1,2))
  qed
  moreover have "task_at ?s' t (u k)" using t(2) st(3) ptrs tn by (simp add: task_at_def deref_def)
  ultimately have "shaped ?s' c t (u k) d' C'" using base mem(3) steps_tidy [OF st(1)] by (simp add: shaped_def)
  moreover have "reworks t s k ?s' (u k)"
    by (rule steps_reworks [OF st(1) _ ptrs st(2) _ shaped_pointers [OF s]]) simp_all
  ultimately show ?thesis using run by (simp add: returns_def)
qed

lemma owned_ptr [simp]: "p \<noteq> NULL \<Longrightarrow> owned p = [p]"
  by (simp add: owned_def)

fun other :: "member \<Rightarrow> member" where
  "other M_args = M_envp"
| "other M_envp = M_args"

lemma set_member_simps [simp]:
  "member_ptr m (set_member m p l r k) = p" "member_len m (set_member m p l r k) = l" "member_total m (set_member m p l r k) = r"
  "member_ptr (other m) (set_member m p l r k) = member_ptr (other m) k" "member_len (other m) (set_member m p l r k) = member_len (other m) k"
  "member_total (other m) (set_member m p l r k) = member_total (other m) k"
  "task_base c (set_member m p l r k) d = task_base c k d"
  by (cases m; simp add: task_base_def)+

lemma member_cases: "(\<And>n. n = m \<or> n = other m \<Longrightarrow> P n) \<Longrightarrow> P n"
  by (cases m; cases n) auto

lemma pointers_member: "set (pointers k) = set (owned (member_ptr m k)) \<union> set (owned (member_ptr (other m) k))"
  by (cases m) auto

lemma distinct_pointers:
  "distinct (t # pointers k) \<longleftrightarrow> t \<notin> set (owned (member_ptr m k)) \<and> t \<notin> set (owned (member_ptr (other m) k)) \<and>
     set (owned (member_ptr m k)) \<inter> set (owned (member_ptr (other m) k)) = {}"
  by (cases m) (auto simp: owned_def)

text \<open>\<open>check_task_member\<close> makes room and keeps what is in the array.\<close>

lemma check_task_member_works:
  assumes os: "roomy os" and s: "shaped s c t k d C" and need: "0 < need" "need \<le> incr"
  shows "returns (check_task_member os t m need incr) (\<lambda>_ s'. \<exists>k'. shaped s' c t k' d C \<and> reworks t s k s' k' \<and>
    length (C m) + need \<le> member_total m k' \<and> member_ptr m k' \<noteq> NULL \<and> (member_ptr (other m) k' = member_ptr (other m) k)) s"
proof -
  have t: "tidy s" "task_at s t k" "deref (w_tasks s) t = Some k" and len: "member_len m k = length (C m)"
    and v: "\<And>m. vec s (member_ptr m k) (C m) (member_total m k)" using s by (simp_all add: shaped_def task_at_def)
  show ?thesis
  proof (cases "member_len m k + need > member_total m k")
    case False
    then have "member_ptr m k \<noteq> NULL" using v [of m] need(1) by (auto simp: vec_def split: if_splits)
    then show ?thesis using False len s steps_refl [OF t(1)] shaped_pointers [OF s]
      by (auto simp: check_task_member_def returns_def get_ok(1) [OF t(3)] whenr_def run_ret reworks_def intro!: exI [of _ k])
  next
    case True
    let ?p = "member_ptr m k" and ?r = "member_total m k + incr"
    from realloc_run [OF os t(1) v [of m], of incr] need obtain q s1 where
      run: "realloc_ptrs os ?p ?r s = Some (Ret q, s1)" and q: "q \<noteq> NULL" "vec s1 q (C m) ?r" "within s1 q q" and
      s1: "steps (set (owned ?p)) s s1" "q \<notin> live s - set (owned ?p)" "live s1 = insert q (live s - set (owned ?p))" "g_task s1 = g_task s"
      unfolding returns_def by auto
    define k1 where "k1 = set_member m q (member_len m k) ?r k"
    let ?s2 = "s1\<lparr>w_tasks := (w_tasks s1)(t \<mapsto> k1)\<rparr>"
    have dis: "t \<notin> set (owned ?p)" "t \<notin> set (owned (member_ptr (other m) k))" "set (owned ?p) \<inter> set (owned (member_ptr (other m) k)) = {}"
      using t(2) distinct_pointers [of t k m] by (simp_all add: task_at_def)
    have keep: "deref (w_tasks s1) t = Some k" "within s1 t t" "within s1 t (task_list t)" "within s1 t (task_node t)"
      "w_lists s1 (task_list t) \<noteq> None" "deref (w_nodes s1) (task_node t) \<noteq> None"
      using t(2) steps_within [OF s1(1)] steps_same [OF s1(1)] dis(1) unfolding task_at_def by (metis (no_types, lifting))+
    have tn: "t \<noteq> NULL" using t(3) by (auto dest: deref_not_NULL)
    have "same_at s1 ?s2 r" if "r \<noteq> t" for r using that by (simp add: same_at_def)
    note touch = steps_touch [OF steps_tidy [OF s1(1)] keep(2) _ this]
    have s2: "steps {t} s1 ?s2" "live ?s2 = live s1" "within ?s2 = within s1" by (rule touch; simp add: non_memory_def)+
    have live: "t \<in> live s" "set (owned (member_ptr (other m) k)) \<subseteq> live s"
      using t(2) shaped_pointers [OF s] pointers_member [of k m] by (auto simp: task_at_def intro: within_live)
    have fresh: "q \<noteq> t" "q \<notin> set (owned (member_ptr (other m) k))" using s1(2) live dis by auto
    have oth: "vec s1 (member_ptr (other m) k) (C (other m)) (member_total (other m) k)"
      using vec_steps [OF v [of "other m"] s1(1)] v [of "other m"] dis(3) by (cases "member_ptr (other m) k = NULL") (auto simp: vec_def)
    have vec2: "vec ?s2 = vec s1" by (rule vec_cong [OF s2(3)]) simp
    have "vec ?s2 (member_ptr n k1) (C n) (member_total n k1) \<and> member_len n k1 = length (C n)" for n
      unfolding vec2 by (rule member_cases [of m]) (use q oth len s in \<open>auto simp: k1_def shaped_def\<close>)
    moreover have "task_at ?s2 t k1"
      using keep tn q(1) fresh dis s2(3) distinct_pointers [of t k1 m] unfolding task_at_def by (simp add: k1_def deref_def)
    moreover have "task_base c k1 d" using s by (simp add: k1_def shaped_def)
    ultimately have shaped: "shaped ?s2 c t k1 d C" using steps_tidy [OF s2(1)] by (simp add: shaped_def)
    have "steps (set (owned ?p) \<union> {t}) s ?s2" by (rule steps_trans [OF s1(1) s2(1)])
    then have "steps (set (t # pointers k)) s ?s2" by (rule steps_mono) (use member_pointers [of m k] in auto)
    moreover have "set (pointers k1) = insert q (set (owned (member_ptr (other m) k)))"
      using q(1) pointers_member [of k1 m] by (simp add: k1_def)
    ultimately have "reworks t s k ?s2 k1"
      unfolding reworks_def using s1(2-4) s2(2) live(2) pointers_member [of k m] dis by auto
    moreover have "check_task_member os t m need incr s = Some (Ret (), ?s2)"
      using True run keep(1) unfolding check_task_member_def get_ok(1) [OF t(3)]
      by (simp add: whenr_def bindr_Ret run set_task_def modifysome_def poke_def k1_def)
    ultimately show ?thesis using shaped True len need q(1) vec_room [OF v [of m]]
      by (auto simp: returns_def k1_def intro!: exI [of _ k1])
  qed
qed

text \<open>An assignment to an element of an array.\<close>

lemma set_ptr_works:
  assumes s: "shaped s c t k d C" and ps: "deref (w_ptrs s) (member_ptr m k) = Some ps" and i: "i < length ps"
    and C': "\<exists>junk. ps[i := Some v] = map Some xs @ junk" "length xs = length (C m)"
  shows "returns (set_ptr (member_ptr m k) i v) (\<lambda>_ s'. shaped s' c t k d (C(m := xs)) \<and> reworks t s k s' k \<and>
    deref (w_ptrs s') (member_ptr m k) = Some (ps[i := Some v])) s"
proof -
  let ?p = "member_ptr m k" and ?s' = "s\<lparr>w_ptrs := (w_ptrs s)(member_ptr m k \<mapsto> ps[i := Some v])\<rparr>"
  have v: "\<And>m. vec s (member_ptr m k) (C m) (member_total m k)" and t: "tidy s" "task_at s t k" using s by (simp_all add: shaped_def)
  have p: "?p \<noteq> NULL" using ps by (auto dest: deref_not_NULL)
  then have w: "within s ?p ?p" using v [of m] by (simp add: vec_def)
  have "same_at s ?s' r" if "r \<noteq> ?p" for r using that by (simp add: same_at_def)
  note touch = steps_touch [OF t(1) w _ this]
  have st: "steps {?p} s ?s'" "live ?s' = live s" "within ?s' = within s" by (rule touch; simp add: non_memory_def)+
  have new: "deref (w_ptrs ?s') ?p = Some (ps[i := Some v])" using p by (simp add: deref_def)
  have room: "length ps = member_total m k" using v [of m] p ps by (auto simp: vec_def)
  have other: "member_ptr (other m) k \<noteq> ?p \<or> ?p = NULL"
    using t(2) distinct_pointers [of t k m] by (auto simp: task_at_def owned_def split: if_splits)
  have "vec ?s' (member_ptr n k) ((C(m := xs)) n) (member_total n k)" for n
  proof (cases "n = m")
    case True
    obtain junk where junk: "ps[i := Some v] = map Some xs @ junk" using C'(1) by blast
    then have "length xs + length junk = member_total m k" using room by (metis length_append length_list_update length_map)
    then show ?thesis using True p w st(3) new junk by (simp add: vec_def)
  next
    case False
    then have "n = other m" by (cases n; cases m) simp_all
    then show ?thesis using other p v [of n] st(3) False by (auto simp: vec_def deref_def)
  qed
  moreover have "task_at ?s' t k" using t(2) st(3) by (simp add: task_at_def)
  ultimately have "shaped ?s' c t k d (C(m := xs))" using s C'(2) steps_tidy [OF st(1)] by (simp add: shaped_def)
  moreover have "reworks t s k ?s' k"
    by (rule steps_reworks [OF st(1) _ _ st(2) _ shaped_pointers [OF s]]) (use p member_pointers [of m k] in auto)
  ultimately show ?thesis using new ps i by (simp add: returns_def set_ptr_def modifysome_def)
qed

text \<open>\<open>append_member\<close> adds to the array when there is room.\<close>

lemma append_member_works:
  assumes s: "shaped s c t k d C" and room: "length (C m) < member_total m k"
  shows "returns (append_member t m v) (\<lambda>_ s'. \<exists>k'. shaped s' c t k' d (C(m := C m @ [v])) \<and> reworks t s k s' k' \<and>
    member_ptr m k' = member_ptr m k \<and> member_total m k' = member_total m k \<and> member_ptr (other m) k' = member_ptr (other m) k) s"
proof -
  have v: "vec s (member_ptr m k) (C m) (member_total m k)" and k: "deref (w_tasks s) t = Some k" and len: "\<And>m. member_len m k = length (C m)"
    and base: "task_base c k d" using s by (simp_all add: shaped_def task_at_def)
  then obtain junk where ps: "deref (w_ptrs s) (member_ptr m k) = Some (map Some (C m) @ junk)" "length (C m) + length junk = member_total m k"
    using room by (auto simp: vec_def split: if_splits)
  obtain x junk' where junk: "junk = x # junk'" using ps(2) room by (cases junk) auto
  let ?ps = "(map Some (C m) @ junk)[length (C m) := Some v]"
  have upd: "?ps = map Some (C m) @ Some v # junk'"
    using list_update_length [of "map Some (C m)" x junk' "Some v"] by (simp add: junk)
  have "returns (set_ptr (member_ptr m k) (length (C m)) v) (\<lambda>_ s'. shaped s' c t k d (C(m := C m)) \<and> reworks t s k s' k \<and>
    deref (w_ptrs s') (member_ptr m k) = Some ?ps) s"
    by (rule set_ptr_works [OF s ps(1)]) (use upd in \<open>auto simp: junk\<close>)
  then obtain s1 where 1: "set_ptr (member_ptr m k) (length (C m)) v s = Some (Ret (), s1)" "shaped s1 c t k d C" "reworks t s k s1 k"
    "deref (w_ptrs s1) (member_ptr m k) = Some ?ps" by (auto elim!: returnsE)
  let ?u = "\<lambda>k. set_member m (member_ptr m k) (member_len m k + 1) (member_total m k) k"
  have p: "member_ptr m k \<noteq> NULL" using ps(1) by (auto dest: deref_not_NULL)
  have "vec s1 (member_ptr m k) (C m) (member_total m k)" using 1(2) by (simp add: shaped_def)
  then have w: "within s1 (member_ptr m k) (member_ptr m k)" using p by (simp add: vec_def)
  have "deref (w_ptrs s1) (member_ptr m k) = Some (map Some (C m @ [v]) @ junk')" using 1(4) unfolding upd by simp
  moreover have "length (C m @ [v]) + length junk' = member_total m k" using ps(2) by (simp add: junk)
  ultimately have vec: "vec s1 (member_ptr m k) (C m @ [v]) (member_total m k)" using p w by (simp add: vec_def)
  have "returns (set_task t ?u) (\<lambda>_ s'. shaped s' c t (?u k) d (C(m := C m @ [v])) \<and> reworks t s1 k s' (?u k) \<and>
      s' = s1\<lparr>w_tasks := (w_tasks s1)(t \<mapsto> ?u k)\<rparr>) s1"
  proof (rule set_task_works [OF 1(2)])
    show "task_base c (?u k) d" using base by simp
    fix n
    have "n = m \<or> n = other m" by (cases m; cases n; simp)
    then show "member_ptr n (?u k) = member_ptr n k" "member_total n (?u k) = member_total n k" by auto
    have "other m \<noteq> m" by (cases m) simp_all
    then show "member_len n (?u k) = length ((C(m := C m @ [v])) n)"
      "(C(m := C m @ [v])) n = C n \<or> vec s1 (member_ptr n k) ((C(m := C m @ [v])) n) (member_total n k)"
      using \<open>n = m \<or> n = other m\<close> len vec by auto
  qed
  then obtain s2 where 2: "set_task t ?u s1 = Some (Ret (), s2)" "shaped s2 c t (?u k) d (C(m := C m @ [v]))" "reworks t s1 k s2 (?u k)"
    by (auto elim!: returnsE)
  have "append_member t m v s = Some (Ret (), s2)"
    unfolding append_member_def get_ok(1) [OF k] len [of m] by (subst bindr_Ret [where f = "\<lambda>_. set_task t ?u"]) (rule 1(1), rule 2(1))
  moreover have "member_ptr m (?u k) = member_ptr m k" "member_total m (?u k) = member_total m k"
    "member_ptr (other m) (?u k) = member_ptr (other m) k" by simp_all
  ultimately show ?thesis unfolding returns_def using 2(2) reworks_trans [OF 1(3) 2(3)] by blast
qed

end
