(* ===== verification/Conf_Actions.thy ===== *)
theory Conf_Actions
  imports Conf_Heap
begin

text \<open>
  What the actions of the parser do to the current task: each option is written into it, and the end of the task completes
  its two arrays and puts it in front of the list.
\<close>

section \<open>The end of a task: its arguments move up by one\<close>

lemma reworks_refl: "shaped s c t k d C \<Longrightarrow> reworks t s k s k"
  using shaped_pointers [of s c t k d C] steps_refl [of s] by (auto simp: reworks_def shaped_def)

lemma shift_args_works:
  assumes "shaped s c t k d (C(M_args := ys))" "deref (w_ptrs s) (tk_args k) = Some ps" "i \<le> length ys" "length ys < length ps"
  shows "returns (shift_args t i) (\<lambda>_ s'. \<exists>ys'. length ys' = length ys \<and> shaped s' c t k d (C(M_args := ys')) \<and> reworks t s k s' k \<and>
    deref (w_ptrs s') (tk_args k) = Some (take 1 ps @ take i ps @ drop (Suc i) ps)) s"
  using assms
proof (induction i arbitrary: s ys ps)
  case 0
  then have "take 1 ps @ drop (Suc 0) ps = ps" by (metis One_nat_def append_take_drop_id)
  with 0 reworks_refl [OF 0(1)] show ?case by auto
next
  case (Suc i)
  note s = Suc.prems(1)
  have k: "deref (w_tasks s) t = Some k" and vec: "vec s (tk_args k) ys (tk_args_total k)" using s
    by (auto simp: shaped_def task_at_def dest: spec [of _ M_args])
  have "tk_args k \<noteq> NULL" using Suc.prems(2) by (auto dest: deref_not_NULL)
  then obtain junk where ps: "ps = map Some ys @ junk" using vec Suc.prems(2) by (auto simp: vec_def)
  then have get: "ps ! i = Some (ys ! i)" using Suc.prems(3) by (simp add: nth_append)
  let ?ps = "ps[Suc i := Some (ys ! i)]" and ?ys = "ys[Suc i := ys ! i]"
  have "\<exists>junk. ?ps = map Some ?ys @ junk"
    by (cases "Suc i < length ys") (simp_all add: ps list_update_append map_update list_update_beyond)
  then have "returns (set_ptr (member_ptr M_args k) (Suc i) (ys ! i)) (\<lambda>_ s'. shaped s' c t k d ((C(M_args := ys))(M_args := ?ys)) \<and>
    reworks t s k s' k \<and> deref (w_ptrs s') (member_ptr M_args k) = Some ?ps) s"
    using Suc.prems by (intro set_ptr_works [OF s]) simp_all
  then obtain s1 where 1: "set_ptr (tk_args k) (Suc i) (ys ! i) s = Some (Ret (), s1)" "shaped s1 c t k d (C(M_args := ?ys))"
    "reworks t s k s1 k" "deref (w_ptrs s1) (tk_args k) = Some ?ps" by (auto elim!: returnsE)
  have "get_ptr (tk_args k) i s = Some (Ret (ys ! i), s)"
    using Suc.prems get by (simp add: get_ptr_def getsome_def)
  then have run: "shift_args t (Suc i) s = shift_args t i s1" using 1(1) by (simp add: get_ok(1) [OF k] bindr_Ret)
  have "take (Suc i) ps = take i ps @ [Some (ys ! i)]" using get Suc.prems by (simp add: take_Suc_conv_app_nth)
  moreover have "take 1 ?ps = take 1 ps" "take i ?ps = take i ps" "drop (Suc i) ?ps = Some (ys ! i) # drop (Suc (Suc i)) ps"
    using Suc.prems by (simp_all add: take_update_cancel Cons_nth_drop_Suc [symmetric])
  ultimately have list: "take 1 ?ps @ take i ?ps @ drop (Suc i) ?ps = take 1 ps @ take (Suc i) ps @ drop (Suc (Suc i)) ps" by simp
  have "returns (shift_args t i) (\<lambda>_ s'. \<exists>ys'. length ys' = length ?ys \<and> shaped s' c t k d (C(M_args := ys')) \<and> reworks t s1 k s' k \<and>
    deref (w_ptrs s') (tk_args k) = Some (take 1 ?ps @ take i ?ps @ drop (Suc i) ?ps)) s1"
    using Suc.prems by (intro Suc.IH [OF 1(2,4)]) simp_all
  then obtain s2 ys2 where 2: "shift_args t i s1 = Some (Ret (), s2)" "length ys2 = length ys" "shaped s2 c t k d (C(M_args := ys2))"
    "reworks t s1 k s2 k" "deref (w_ptrs s2) (tk_args k) = Some (take 1 ?ps @ take i ?ps @ drop (Suc i) ?ps)" by (auto elim!: returnsE)
  show ?case unfolding returns_def run
    using 2(1,2,3) reworks_trans [OF 1(3) 2(4)] 2(5) [unfolded list] by blast
qed

text \<open>The contents of the two arrays while the options of a task are read, and once it is complete.\<close>

fun drafted :: "addr spec \<Rightarrow> member \<Rightarrow> addr list" where
  "drafted d M_args = sp_args d"
| "drafted d M_envp = sp_env d"

fun completed :: "addr \<Rightarrow> addr spec \<Rightarrow> member \<Rightarrow> addr list" where
  "completed envp d M_args = addr_of (sp_path d) # sp_args d @ [NULL]"
| "completed envp d M_envp = (if envp = NULL then [] else sp_env d @ [NULL])"

text \<open>All of \<open>end_task\<close> before the task is put into the list.\<close>

definition complete_args :: "os \<Rightarrow> addr \<Rightarrow> unit prog" where
  "complete_args os task =
     bindr (check_task_member os task M_args 2 2) (\<lambda>_.
     bindr (bindr (get_task tk_args_len task) (shift_args task)) (\<lambda>_.
     bindr (get_task tk_path task) (\<lambda>path.
     bindr (bindr (get_task tk_args task) (\<lambda>args. set_ptr args 0 path)) (\<lambda>_.
     bindr (set_task task (\<lambda>k. k\<lparr>tk_args_len := tk_args_len k + 1\<rparr>)) (\<lambda>_.
     append_member task M_args NULL)))))"

definition complete_envp :: "os \<Rightarrow> addr \<Rightarrow> unit prog" where
  "complete_envp os task =
     bindr (get_task tk_envp task) (\<lambda>envp.
     whenr (envp \<noteq> NULL) (bindr (check_task_member os task M_envp 1 1) (\<lambda>_. append_member task M_envp NULL)))"

lemma end_task_parts:
  "end_task os cnf = bindr (gets g_task) (\<lambda>task.
     bindr (complete_args os task) (\<lambda>_.
     bindr (complete_envp os task) (\<lambda>_.
     bindr (modifysome (\<lambda>s. do { ls \<leftarrow> list_add (w_lists s) (task_list task) (conf_tasks_list cnf); Some (s\<lparr>w_lists := ls\<rparr>) })) (\<lambda>_.
     modify (\<lambda>s. s\<lparr>g_task := NULL\<rparr>)))))"
  by (simp add: end_task_def complete_args_def complete_envp_def bindr_assoc)

lemma complete_args_works:
  assumes os: "roomy os" and s: "shaped s c t k d C" and C: "C M_args = sp_args d"
  shows "returns (complete_args os t) (\<lambda>_ s'. \<exists>k'. shaped s' c t k' d (C(M_args := addr_of (sp_path d) # sp_args d @ [NULL])) \<and>
    reworks t s k s' k' \<and> tk_args k' \<noteq> NULL \<and> tk_envp k' = tk_envp k) s"
proof -
  let ?xs = "sp_args d" and ?path = "addr_of (sp_path d)"
  from check_task_member_works [OF os s, of 2 2 M_args] obtain s1 k1 where
    1: "check_task_member os t M_args 2 2 s = Some (Ret (), s1)" "shaped s1 c t k1 d C" "reworks t s k s1 k1"
    "length ?xs + 2 \<le> tk_args_total k1" "tk_args k1 \<noteq> NULL" "tk_envp k1 = tk_envp k"
    by (auto simp: C elim!: returnsE)
  have k1: "deref (w_tasks s1) t = Some k1" "tk_args_len k1 = length ?xs" "tk_path k1 = ?path" "vec s1 (tk_args k1) ?xs (tk_args_total k1)"
    using 1(2) C by (auto simp: shaped_def task_at_def task_base_def dest: spec [of _ M_args])
  then obtain junk where ps: "deref (w_ptrs s1) (tk_args k1) = Some (map Some ?xs @ junk)" "length ?xs + length junk = tk_args_total k1"
    using 1(5) by (auto simp: vec_def)
  let ?ps = "map Some ?xs @ junk"
  have C1: "C(M_args := ?xs) = C" by (simp add: C [symmetric])
  from shift_args_works [of s1 c t k1 d C ?xs ?ps "length ?xs"] 1(2,4) ps obtain s2 ys where
    2: "shift_args t (length ?xs) s1 = Some (Ret (), s2)" "length ys = length ?xs" "shaped s2 c t k1 d (C(M_args := ys))" "reworks t s1 k1 s2 k1"
    "deref (w_ptrs s2) (tk_args k1) = Some (take 1 ?ps @ take (length ?xs) ?ps @ drop (Suc (length ?xs)) ?ps)"
    by (auto simp: C1 elim!: returnsE)
  obtain x y junk' where junk: "junk = x # y # junk'" using ps(2) 1(4) by (cases junk; cases "tl junk") auto
  define ps2 where "ps2 = take 1 ?ps @ map Some ?xs @ y # junk'"
  have ps2: "deref (w_ptrs s2) (tk_args k1) = Some ps2" using 2(5) by (simp add: ps2_def junk)
  obtain z where z: "take 1 ?ps = [z]" by (cases ?xs) (simp_all add: junk)
  let ?ps3 = "Some ?path # map Some ?xs @ y # junk'"
  have upd: "ps2[0 := Some ?path] = ?ps3" unfolding ps2_def z by simp
  have "?ps3 = map Some (take (length ?xs) (?path # ?xs)) @ map Some (drop (length ?xs) (?path # ?xs)) @ y # junk'"
    by (simp only: append_assoc [symmetric] map_append [symmetric] append_take_drop_id) simp
  then have "\<exists>junk. ps2[0 := Some ?path] = map Some (take (length ?xs) (?path # ?xs)) @ junk" unfolding upd by blast
  then have "returns (set_ptr (member_ptr M_args k1) 0 ?path) (\<lambda>_ s'. shaped s' c t k1 d ((C(M_args := ys))(M_args := take (length ?xs) (?path # ?xs))) \<and>
      reworks t s2 k1 s' k1 \<and> deref (w_ptrs s') (member_ptr M_args k1) = Some (ps2[0 := Some ?path])) s2"
    using ps2 2(2) by (intro set_ptr_works [OF 2(3)]) (simp_all add: ps2_def)
  then obtain s3 where 3: "set_ptr (tk_args k1) 0 ?path s2 = Some (Ret (), s3)" "shaped s3 c t k1 d (C(M_args := take (length ?xs) (?path # ?xs)))"
    "reworks t s2 k1 s3 k1" "deref (w_ptrs s3) (tk_args k1) = Some ?ps3" unfolding upd by (auto elim!: returnsE)
  let ?C3 = "C(M_args := take (length ?xs) (?path # ?xs))" and ?C4 = "C(M_args := ?path # ?xs)"
  let ?u = "\<lambda>k. k\<lparr>tk_args_len := tk_args_len k + 1\<rparr>"
  have vec3: "vec s3 (tk_args k1) (?path # ?xs) (tk_args_total k1)"
  proof -
    have "vec s3 (tk_args k1) (?C3 M_args) (tk_args_total k1)" using 3(2) by (auto simp: shaped_def dest: spec [of _ M_args])
    then have "within s3 (tk_args k1) (tk_args k1)" using 1(5) by (simp add: vec_def)
    moreover have "deref (w_ptrs s3) (tk_args k1) = Some (map Some (?path # ?xs) @ y # junk')" using 3(4) by simp
    moreover have "length (?path # ?xs) + length (y # junk') = tk_args_total k1" using ps(2) by (simp add: junk)
    ultimately show ?thesis using 1(5) unfolding vec_def by auto
  qed
  have "returns (set_task t ?u) (\<lambda>_ s'. shaped s' c t (?u k1) d ?C4 \<and> reworks t s3 k1 s' (?u k1) \<and> s' = s3\<lparr>w_tasks := (w_tasks s3)(t \<mapsto> ?u k1)\<rparr>) s3"
  proof (rule set_task_works [OF 3(2)])
    show "task_base c (?u k1) d" using 1(2) by (simp add: shaped_def task_base_def)
    fix m
    show "member_ptr m (?u k1) = member_ptr m k1" "member_total m (?u k1) = member_total m k1" by (cases m; simp)+
    show "?C4 m = ?C3 m \<or> vec s3 (member_ptr m k1) (?C4 m) (member_total m k1)" using vec3 by (cases m) simp_all
    have "member_len M_envp k1 = length (C M_envp)" using 1(2) by (simp add: shaped_def)
    then show "member_len m (?u k1) = length (?C4 m)" using k1(2) by (cases m) simp_all
  qed
  then obtain s4 where 4: "set_task t ?u s3 = Some (Ret (), s4)" "shaped s4 c t (?u k1) d ?C4" "reworks t s3 k1 s4 (?u k1)" by (auto elim!: returnsE)
  from append_member_works [OF 4(2), of M_args NULL] 1(4) obtain s5 k5 where
    5: "append_member t M_args NULL s4 = Some (Ret (), s5)" "shaped s5 c t k5 d (?C4(M_args := ?C4 M_args @ [NULL]))" "reworks t s4 (?u k1) s5 k5"
    "tk_args k5 = tk_args k1" "tk_envp k5 = tk_envp k1" by (auto elim!: returnsE)
  have k3: "deref (w_tasks s2) t = Some k1" using 2(3) by (simp add: shaped_def task_at_def)
  have run: "complete_args os t s = Some (Ret (), s5)"
    unfolding complete_args_def
    by (simp add: bindr_assoc bindr_Ret 1(1) get_ok(1) [OF k1(1)] k1(2) 2(1) get_ok(1) [OF k3] k1(3) 3(1) 4(1) [simplified] 5(1))
  have "reworks t s k s5 k5" using 1(3) 2(4) 3(3) 4(3) 5(3) reworks_trans by blast
  moreover have "?C4(M_args := ?C4 M_args @ [NULL]) = C(M_args := ?path # ?xs @ [NULL])" by simp
  ultimately show ?thesis using run 5(2,4,5) 1(5,6) unfolding returns_def by auto
qed

lemma complete_envp_works:
  assumes os: "roomy os" and s: "shaped s c t k d C" and C: "C M_envp = sp_env d"
  shows "returns (complete_envp os t) (\<lambda>_ s'. \<exists>k'. shaped s' c t k' d (C(M_envp := if tk_envp k = NULL then [] else sp_env d @ [NULL])) \<and>
    reworks t s k s' k' \<and> tk_args k' = tk_args k \<and> (tk_envp k' = NULL \<longleftrightarrow> tk_envp k = NULL)) s"
proof (cases "tk_envp k = NULL")
  case True
  have k: "deref (w_tasks s) t = Some k" "vec s (tk_envp k) (C M_envp) (tk_envp_total k)"
    using s by (auto simp: shaped_def task_at_def dest: spec [of _ M_envp])
  then have "C M_envp = []" using True by (simp add: vec_def)
  then have "C(M_envp := []) = C" by (simp add: fun_upd_idem)
  then show ?thesis using True s k(1) reworks_refl [OF s]
    by (auto simp: complete_envp_def returns_def get_ok whenr_def run_ret intro!: exI [of _ k])
next
  case False
  from check_task_member_works [OF os s, of 1 1 M_envp] obtain s1 k1 where
    1: "check_task_member os t M_envp 1 1 s = Some (Ret (), s1)" "shaped s1 c t k1 d C" "reworks t s k s1 k1"
    "length (C M_envp) + 1 \<le> tk_envp_total k1" "tk_envp k1 \<noteq> NULL" "tk_args k1 = tk_args k"
    by (auto elim!: returnsE)
  from append_member_works [OF 1(2), of M_envp NULL] 1(4) obtain s2 k2 where
    2: "append_member t M_envp NULL s1 = Some (Ret (), s2)" "shaped s2 c t k2 d (C(M_envp := C M_envp @ [NULL]))" "reworks t s1 k1 s2 k2"
    "tk_envp k2 = tk_envp k1" "tk_args k2 = tk_args k1" by (auto elim!: returnsE)
  have k: "deref (w_tasks s) t = Some k" using s by (simp add: shaped_def task_at_def)
  have "complete_envp os t s = Some (Ret (), s2)"
    using False by (simp add: complete_envp_def get_ok(1) [OF k] whenr_def bindr_Ret 1(1) [simplified] 2(1))
  then show ?thesis using False 1(5,6) 2(2,4,5) reworks_trans [OF 1(3) 2(3)] by (auto simp: returns_def C intro!: exI [of _ k2])
qed

text \<open>Together: the arrays of a complete task.\<close>

lemma completed_eq: "(C(M_args := addr_of (sp_path d) # sp_args d @ [NULL]))(M_envp := if e = NULL then [] else sp_env d @ [NULL]) = completed e d"
proof
  fix m
  show "((C(M_args := addr_of (sp_path d) # sp_args d @ [NULL]))(M_envp := if e = NULL then [] else sp_env d @ [NULL])) m = completed e d m"
    by (cases m) simp_all
qed

lemma completed_cong: "(e = NULL \<longleftrightarrow> e' = NULL) \<Longrightarrow> completed e d = completed e' d"
proof
  fix m
  assume "e = NULL \<longleftrightarrow> e' = NULL"
  then show "completed e d m = completed e' d m" by (cases m) auto
qed

lemma complete_works:
  assumes os: "roomy os" and s: "shaped s c t k d (drafted d)"
  shows "\<exists>s' k'. bindr (complete_args os t) (\<lambda>_. bindr (complete_envp os t) f) s = f () s' \<and>
    shaped s' c t k' d (completed (tk_envp k') d) \<and> reworks t s k s' k' \<and> tk_args k' \<noteq> NULL \<and> (tk_envp k' = NULL \<longleftrightarrow> tk_envp k = NULL)"
proof -
  from complete_args_works [OF os s] obtain s1 k1 where
    1: "complete_args os t s = Some (Ret (), s1)" "shaped s1 c t k1 d ((drafted d)(M_args := addr_of (sp_path d) # sp_args d @ [NULL]))"
    "reworks t s k s1 k1" "tk_args k1 \<noteq> NULL" "tk_envp k1 = tk_envp k" by (auto elim!: returnsE)
  from complete_envp_works [OF os 1(2)] obtain s2 k2 where
    2: "complete_envp os t s1 = Some (Ret (), s2)" "shaped s2 c t k2 d (completed (tk_envp k1) d)" "reworks t s1 k1 s2 k2"
    "tk_args k2 = tk_args k1" "tk_envp k2 = NULL \<longleftrightarrow> tk_envp k1 = NULL"
    by (auto simp: completed_eq elim!: returnsE)
  have "completed (tk_envp k1) d = completed (tk_envp k2) d" by (rule completed_cong) (simp add: 2(5))
  then show ?thesis using 1(1,4,5) 2(1,2,4,5) reworks_trans [OF 1(3) 2(3)]
    by (intro exI [of _ s2] exI [of _ k2]) (simp add: bindr_Ret)
qed

section \<open>The first option of a task creates it\<close>

definition no_spec :: "'v spec" where
  "no_spec = Spec None None None [] []"

definition fresh_task :: "addr \<Rightarrow> task" where
  "fresh_task c = \<lparr>tk_pid = 0, tk_start_sec = 0, tk_start_usec = 0, tk_start_count = 0, tk_ctx = c, tk_log_path = NULL,
     tk_path = NULL, tk_name = NULL, tk_dir = NULL, tk_args = NULL, tk_args_len = 0, tk_args_total = 0, tk_envp = NULL,
     tk_envp_len = 0, tk_envp_total = 0, tk_status = TASK_INIT\<rparr>"

lemma task_init_run:
  "deref (w_tasks s) t = Some k \<Longrightarrow> task_init t c s = Some (Ret BZ_OK, s\<lparr>w_tasks := (w_tasks s)(t \<mapsto> fresh_task c)\<rparr>)"
  by (cases k) (simp add: task_init_def set_task_def run_simps poke_def fresh_task_def)

lemma task_create_run:
  assumes os: "roomy os" and cx: "deref (w_ctxs s) c = Some x"
  obtains t where "fresh_block (w_blocks s) t sizeof_task" "t \<noteq> NULL"
    "task_create os c s = Some (Ret t, s\<lparr>w_blocks := (t, sizeof_task) # w_blocks s, w_tasks := (w_tasks s)(t \<mapsto> fresh_task c),
       w_lists := (w_lists s)(task_list t \<mapsto> os_junk_list os (w_trace s)), w_nodes := (w_nodes s)(task_node t \<mapsto> os_junk_node os (w_trace s))\<rparr>)"
proof -
  obtain t where t: "malloc os sizeof_task s = Some (Ret t, s\<lparr>w_blocks := (t, sizeof_task) # w_blocks s\<rparr>)" "t \<noteq> NULL"
    "fresh_block (w_blocks s) t sizeof_task" using os by (rule roomy_malloc)
  let ?s1 = "new_task os t (s\<lparr>w_blocks := (t, sizeof_task) # w_blocks s\<rparr>)"
  have "deref (w_tasks ?s1) t = Some (os_junk_task os (w_trace s))" using t(2) by (simp add: new_task_def deref_def)
  note init = task_init_run [OF this]
  have "task_create os c s = bindr (task_init t c) (\<lambda>_. ret t) ?s1"
    using t(1,2) by (simp add: task_create_def get_ok(2) [OF cx] bz_alloc_def bindr_assoc bindr_Ret whenr_def bindr_basic(2))
  also have "\<dots> = Some (Ret t, ?s1\<lparr>w_tasks := (w_tasks ?s1)(t \<mapsto> fresh_task c)\<rparr>)" by (simp add: bindr_Ret init run_ret)
  finally show thesis using that [OF t(3,2)] by (simp add: new_task_def)
qed

lemma check_task_works:
  assumes os: "roomy os" and t: "tidy s" and cx: "deref (w_ctxs s) c = Some x" and cf: "deref (w_confs s) cnf = Some cf" "cf_ctx cf = c"
    and g: "g_task s = NULL"
  shows "returns (check_task os cnf) (\<lambda>_ s'. shaped s' c (g_task s') (fresh_task c) no_spec (drafted no_spec) \<and> steps {} s s' \<and>
    g_task s' \<notin> live s \<and> live s' = insert (g_task s') (live s)) s"
proof -
  from task_create_run [OF os cx] obtain t where t: "fresh_block (w_blocks s) t sizeof_task" "t \<noteq> NULL"
    "task_create os c s = Some (Ret t, s\<lparr>w_blocks := (t, sizeof_task) # w_blocks s, w_tasks := (w_tasks s)(t \<mapsto> fresh_task c),
       w_lists := (w_lists s)(task_list t \<mapsto> os_junk_list os (w_trace s)), w_nodes := (w_nodes s)(task_node t \<mapsto> os_junk_node os (w_trace s))\<rparr>)"
    by blast
  let ?s1 = "s\<lparr>w_blocks := (t, sizeof_task) # w_blocks s, w_tasks := (w_tasks s)(t \<mapsto> fresh_task c),
       w_lists := (w_lists s)(task_list t \<mapsto> os_junk_list os (w_trace s)), w_nodes := (w_nodes s)(task_node t \<mapsto> os_junk_node os (w_trace s)), g_task := t\<rparr>"
  have get: "bindr (get_conf cnf) f r = f c r" if "w_confs r = w_confs s" for f :: "addr \<Rightarrow> 'b prog" and r
    using cf that by (simp add: get_conf_def run_simps peek_def)
  have init: "task_init t c ?s1 = Some (Ret BZ_OK, ?s1)"
    using task_init_run [of ?s1 t "fresh_task c" c] t(2) by (simp add: deref_def)
  have run: "check_task os cnf s = Some (Ret (), ?s1)"
    using g t(2) by (simp add: check_task_def bindr_basic bindr_assoc get bindr_Ret t(3) init run_ret)
  have same: "same_at s ?s1 q" if "q < t \<or> t + sizeof_task \<le> q" for q
    using that by (auto simp: same_at_def sizeof_task_def task_list_def task_node_def)
  have "non_memory ?s1 = non_memory s" by (simp add: non_memory_def)
  note new = steps_new [OF \<open>tidy s\<close> t(1) _ same this]
  have in_block: "within ?s1 t q" if "t \<le> q" "q < t + sizeof_task" for q using that by (auto simp: within_def)
  have "task_at ?s1 t (fresh_task c)"
    using t(2) in_block by (simp add: task_at_def deref_def fresh_task_def owned_def task_list_def task_node_def sizeof_task_def)
  moreover have "vec ?s1 (member_ptr m (fresh_task c)) (drafted no_spec m) (member_total m (fresh_task c)) \<and>
      member_len m (fresh_task c) = length (drafted no_spec m)" for m
    by (cases m) (simp_all add: fresh_task_def no_spec_def vec_def)
  moreover have "task_base c (fresh_task c) no_spec" by (simp add: task_base_def fresh_task_def no_spec_def)
  moreover have "steps {} s ?s1" "t \<notin> live s" "live ?s1 = insert t (live s)" using new(1-3) by simp_all
  ultimately show ?thesis using run steps_tidy by (simp add: returns_def shaped_def)
qed

end
