(* ===== verification/Conf_Build.thy ===== *)
theory Conf_Build
  imports Conf_Actions Shutdown
begin

text \<open>
  What a file says, apart from the memory: the events of the parser describe a list of tasks (\<open>describes\<close>), and which events
  there are depends on the kinds of the tokens only (\<open>drive\<close>).
\<close>

section \<open>What the events say\<close>

fun with_option :: "'v event \<Rightarrow> 'v spec \<Rightarrow> 'v spec" where
  "with_option (Set_name v) (Spec n p d as es) = Spec (Some v) p d as es"
| "with_option (Set_path v) (Spec n p d as es) = Spec n (Some v) d as es"
| "with_option (Set_dir v) (Spec n p d as es) = Spec n p (Some v) as es"
| "with_option (Add_arg v) (Spec n p d as es) = Spec n p d (as @ [v]) es"
| "with_option (Add_env v) (Spec n p d as es) = Spec n p d as (es @ [v])"
| "with_option End_task d = d"

text \<open>The current task and the finished ones, the last one first. The end of a task without options is an error.\<close>

fun current :: "'v spec option \<Rightarrow> 'v spec" where
  "current None = no_spec"
| "current (Some d) = d"

fun describe :: "'v spec option \<times> 'v spec list \<Rightarrow> 'v event \<Rightarrow> ('v spec option \<times> 'v spec list) option" where
  "describe (now, ds) End_task = (case now of None \<Rightarrow> None | Some d \<Rightarrow> Some (None, d # ds))"
| "describe (now, ds) e = Some (Some (with_option e (current now)), ds)"

fun describes :: "'v spec option \<times> 'v spec list \<Rightarrow> 'v event list \<Rightarrow> ('v spec option \<times> 'v spec list) option" where
  "describes x [] = Some x"
| "describes x (e # es) = Option.bind (describe x e) (\<lambda>x. describes x es)"

lemma describes_append: "describes x (es @ fs) = Option.bind (describes x es) (\<lambda>x. describes x fs)"
  by (induction es arbitrary: x) (simp_all add: Option.bind_assoc)

text \<open>The events up to the end of the file or to the first token that does not fit, and whether the file is accepted.\<close>

fun drive :: "'v pstate \<Rightarrow> 'v terminal list \<Rightarrow> bool \<times> 'v event list" where
  "drive st [] = (st = P_tasks, [])"
| "drive st (w # ws) = (case shift st w of None \<Rightarrow> (False, [])
     | Some (st', es) \<Rightarrow> (case drive st' ws of (ok, fs) \<Rightarrow> (ok, es @ fs)))"

lemma drive_parse: "parse st ws = Some (P_tasks, es) \<longleftrightarrow> drive st ws = (True, es)"
proof (induction ws arbitrary: st es)
  case (Cons w ws)
  show ?case
  proof (cases "shift st w")
    case (Some x)
    obtain st' es1 where x: "x = (st', es1)" by (cases x)
    have "parse st (w # ws) = Some (P_tasks, es) \<longleftrightarrow> (\<exists>fs. parse st' ws = Some (P_tasks, fs) \<and> es = es1 @ fs)"
      using Some x by (auto split: option.splits)
    moreover have "drive st (w # ws) = (True, es) \<longleftrightarrow> (\<exists>fs. drive st' ws = (True, fs) \<and> es = es1 @ fs)"
      using Some x by (cases "drive st' ws") auto
    ultimately show ?thesis by (simp only: Cons.IH)
  qed simp
qed auto

text \<open>Reading does not depend on what the values are.\<close>

abbreviation map_terminals :: "('v \<Rightarrow> 'w) \<Rightarrow> 'v terminal list \<Rightarrow> 'w terminal list" where
  "map_terminals f \<equiv> map (map_prod id f)"

lemma shift_map: "shift (map_pstate f st) (k, f v) = map_option (map_prod (map_pstate f) (map (map_event f))) (shift st (k, v))"
  by (cases st) (auto simp: opts_shift_def split: kind.split)

lemma describe_map:
  "describe (map_option (map_spec f) now, map (map_spec f) ds) (map_event f e) =
     map_option (map_prod (map_option (map_spec f)) (map (map_spec f))) (describe (now, ds) e)"
proof -
  have c: "current (map_option (map_spec f) now) = map_spec f (current now)" by (cases now) (simp_all add: no_spec_def)
  obtain n p d as es where s: "current now = Spec n p d as es" by (cases "current now")
  show ?thesis by (cases e) (simp_all add: c s option.map_comp comp_def split: option.split)
qed

lemma describes_map:
  "describes (map_option (map_spec f) now, map (map_spec f) ds) (map (map_event f) es) =
     map_option (map_prod (map_option (map_spec f)) (map (map_spec f))) (describes (now, ds) es)"
proof (induction es arbitrary: now ds)
  case (Cons e es)
  show ?case
  proof (cases "describe (now, ds) e")
    case (Some x)
    obtain now' ds' where "x = (now', ds')" by (cases x)
    with Some show ?thesis by (simp add: describe_map Cons.IH)
  qed (simp add: describe_map)
qed simp

section \<open>Where the values go\<close>

fun event_vals :: "'v event \<Rightarrow> 'v list" where
  "event_vals (Set_name v) = [v]"
| "event_vals (Set_path v) = [v]"
| "event_vals (Set_dir v) = [v]"
| "event_vals (Add_arg v) = [v]"
| "event_vals (Add_env v) = [v]"
| "event_vals End_task = []"

fun state_vals :: "'v pstate \<Rightarrow> 'v list" where
  "state_vals (P_name_word v) = [v]"
| "state_vals (P_name_end v) = [v]"
| "state_vals (P_path_end v) = [v]"
| "state_vals (P_arg_word v) = [v]"
| "state_vals (P_env_end v) = [v]"
| "state_vals (P_dir_end v) = [v]"
| "state_vals _ = []"

definition text_kinds :: "kind set" where
  "text_kinds = {STRING, ARGKEY, ALPHAWORD, ALNUMWORD, NUMBER, PATH, ENVAR}"

text \<open>A token with a value keeps it for one event, or hands it over at once; the others hand over what was kept.\<close>

lemma shift_vals:
  assumes "shift st (k, v) = Some (st', es)"
  shows "state_vals st' @ concat (map event_vals es) \<in> {[], state_vals st} \<or>
    k \<in> text_kinds \<and> state_vals st' @ concat (map event_vals es) = [v]"
  using assms by (cases st) (auto simp: opts_shift_def text_kinds_def word_kinds_def split: if_splits kind.splits)

definition opt_list :: "'v option \<Rightarrow> 'v list" where
  "opt_list x = (case x of None \<Rightarrow> [] | Some v \<Rightarrow> [v])"

lemma opt_list_simps [simp]: "opt_list None = []" "opt_list (Some v) = [v]"
  by (simp_all add: opt_list_def)

definition spec_vals :: "'v spec \<Rightarrow> 'v list" where
  "spec_vals d = opt_list (sp_name d) @ opt_list (sp_path d) @ opt_list (sp_dir d) @ sp_args d @ sp_env d"

lemma spec_vals_with_option:
  "set (spec_vals (with_option e d)) \<subseteq> set (event_vals e) \<union> set (spec_vals d)"
  "distinct (event_vals e @ spec_vals d) \<Longrightarrow> distinct (spec_vals (with_option e d))"
  by (cases e; cases d; auto simp: spec_vals_def)+

end
