(* ===== verification/Conf_Run.thy ===== *)
theory Conf_Run
  imports Conf_Build
begin

text \<open>
  What an event does to the memory. \<open>building\<close> is the state while a file is read: the finished tasks are in the list, the current
  one is behind the static variable \<open>task\<close>, the blocks of all of them are their own, and nothing that was there before has
  changed. Every event keeps it and does to the descriptions of the tasks what \<open>describe\<close> says.
\<close>

section \<open>The memory while the file is read\<close>

lemma steps_fresh: "steps (Y \<union> X) s0 s \<Longrightarrow> X \<inter> live s0 = {} \<Longrightarrow> steps Y s0 s"
  unfolding steps_def live_def within_def by force

lemma shaped_steps:
  assumes s: "shaped s c t k d C" and st: "steps X s s'" "X \<inter> set (t # pointers k) = {}"
  shows "shaped s' c t k d C"
proof -
  have t: "t \<notin> X" using st(2) by auto
  have at_t: "task_at s t k" and v: "\<And>m. vec s (member_ptr m k) (C m) (member_total m k)" using s by (simp_all add: shaped_def)
  have "task_at s' t k" using at_t steps_within [OF st(1)] steps_same [OF st(1)] t unfolding task_at_def by (metis (no_types, lifting))
  moreover have "vec s' (member_ptr m k) (C m) (member_total m k)" for m
  proof (cases "member_ptr m k = NULL")
    case False
    then have "member_ptr m k \<notin> X" using member_pointers [of m k] st(2) by auto
    then show ?thesis by (rule vec_steps [OF v st(1)])
  qed (use v [of m] in \<open>simp add: vec_def\<close>)
  ultimately show ?thesis using s steps_tidy [OF st(1)] by (simp add: shaped_def)
qed

text \<open>A task with the address and the specification it was built from, and its blocks.\<close>

type_synonym entry = "addr \<times> task \<times> addr spec"

definition entry_spec :: "entry \<Rightarrow> addr spec" where "entry_spec e = snd (snd e)"

fun entry_blocks :: "entry \<Rightarrow> addr list" where
  "entry_blocks (t, k, d) = t # pointers k"

definition blocks_of :: "entry list \<Rightarrow> addr set" where
  "blocks_of es = set (concat (map entry_blocks es))"

definition vals_of :: "entry list \<Rightarrow> addr list" where
  "vals_of es = concat (map (spec_vals \<circ> entry_spec) es)"

fun finished_task :: "world \<Rightarrow> addr \<Rightarrow> entry \<Rightarrow> bool" where
  "finished_task s c (t, k, d) \<longleftrightarrow> shaped s c t k d (completed (tk_envp k) d) \<and> tk_args k \<noteq> NULL \<and> (tk_envp k = NULL \<longleftrightarrow> sp_env d = [])"

fun current_task :: "world \<Rightarrow> addr \<Rightarrow> entry option \<Rightarrow> bool" where
  "current_task s c None \<longleftrightarrow> g_task s = NULL"
| "current_task s c (Some (t, k, d)) \<longleftrightarrow> g_task s = t \<and> shaped s c t k d (drafted d) \<and> (tk_envp k = NULL \<longleftrightarrow> sp_env d = [])"

text \<open>\<open>V\<close> holds the values of the tokens that were read, \<open>vs\<close> those that wait for their event.\<close>

definition rooted :: "world \<Rightarrow> addr \<Rightarrow> addr \<Rightarrow> entry list \<Rightarrow> world \<Rightarrow> bool" where
  "rooted s0 c cnf es s \<longleftrightarrow> steps {cnf} s0 s \<and> (\<exists>cf. deref (w_confs s) cnf = Some cf \<and> cf_ctx cf = c) \<and> within s cnf cnf \<and>
     within s cnf (conf_tasks_list cnf) \<and> cnf \<in> live s0 \<and> within s0 c c \<and> deref (w_ctxs s0) c \<noteq> None \<and> c \<noteq> cnf \<and>
     list_holds (w_lists s) (conf_tasks_list cnf) (map (task_list \<circ> fst) es) \<and> (\<forall>e \<in> set es. finished_task s c e)"

definition separated :: "world \<Rightarrow> (addr \<rightharpoonup> string) \<Rightarrow> entry list \<Rightarrow> world \<Rightarrow> bool" where
  "separated s0 V es s \<longleftrightarrow> distinct (concat (map entry_blocks es)) \<and> live s0 \<inter> dom V = {} \<and> (live s0 \<union> dom V) \<inter> blocks_of es = {} \<and>
     live s = live s0 \<union> dom V \<union> blocks_of es \<and> (\<forall>p x. V p = Some x \<longrightarrow> has_str s p x)"

definition building :: "world \<Rightarrow> addr \<Rightarrow> addr \<Rightarrow> (addr \<rightharpoonup> string) \<Rightarrow> addr list \<Rightarrow> entry option \<Rightarrow> entry list \<Rightarrow> world \<Rightarrow> bool" where
  "building s0 c cnf V vs now es s \<longleftrightarrow> rooted s0 c cnf es s \<and> separated s0 V (opt_list now @ es) s \<and> current_task s c now \<and>
     distinct (vs @ vals_of (opt_list now @ es)) \<and> set (vs @ vals_of (opt_list now @ es)) \<subseteq> dom V"

lemma blocks_simps [simp]: "blocks_of [] = {}" "blocks_of (e # es) = set (entry_blocks e) \<union> blocks_of es" "blocks_of (es @ fs) = blocks_of es \<union> blocks_of fs"
  by (auto simp: blocks_of_def)

lemma entry_in_blocks: "e \<in> set es \<Longrightarrow> set (entry_blocks e) \<subseteq> blocks_of es"
  by (auto simp: blocks_of_def)

lemma vals_simps [simp]: "vals_of [] = []" "vals_of (e # es) = spec_vals (entry_spec e) @ vals_of es" "vals_of (es @ fs) = vals_of es @ vals_of fs"
  by (simp_all add: vals_of_def)

text \<open>What stays when only blocks outside of the finished tasks change.\<close>

lemma rooted_steps:
  assumes r: "rooted s0 c cnf es s" and st: "steps X s s'" "X \<inter> (live s0 \<union> blocks_of es) = {}"
  shows "rooted s0 c cnf es s'"
proof -
  have cnf: "cnf \<notin> X" using r st(2) by (auto simp: rooted_def)
  have "steps ({cnf} \<union> X) s0 s'" by (rule steps_trans [OF _ st(1)]) (use r in \<open>simp add: rooted_def\<close>)
  then have "steps {cnf} s0 s'" by (rule steps_fresh) (use st(2) in auto)
  moreover have fin: "finished_task s' c e" if e: "e \<in> set es" for e
  proof -
    obtain t k d where tkd: "e = (t, k, d)" by (cases e)
    have "X \<inter> set (t # pointers k) = {}" using st(2) entry_in_blocks [OF e] by (auto simp: tkd)
    moreover have "finished_task s c (t, k, d)" using r e by (auto simp: rooted_def tkd)
    ultimately show ?thesis using shaped_steps [OF _ st(1)] by (simp add: tkd)
  qed
  moreover have "list_holds (w_lists s') (conf_tasks_list cnf) (map (task_list \<circ> fst) es)"
  proof -
    have "w_lists s' q = w_lists s q" if "q \<in> set (conf_tasks_list cnf # map (task_list \<circ> fst) es)" for q
    proof -
      from that consider "q = conf_tasks_list cnf" | e where "e \<in> set es" "q = task_list (fst e)" by auto
      then show ?thesis
      proof cases
        case 1
        then show ?thesis using r cnf steps_same(4) [OF st(1)] by (auto simp: rooted_def)
      next
        case 2
        obtain t k d where tkd: "e = (t, k, d)" by (cases e)
        have "finished_task s c (t, k, d)" using r 2(1) by (auto simp: rooted_def tkd)
        then have "within s t (task_list t)" by (simp add: shaped_def task_at_def)
        moreover have "t \<notin> X" using st(2) entry_in_blocks [OF 2(1)] by (auto simp: tkd)
        ultimately show ?thesis using steps_same(4) [OF st(1)] 2(2) by (simp add: tkd)
      qed
    qed
    then show ?thesis using r list_holds_cong by (metis rooted_def)
  qed
  moreover have "deref (w_confs s') cnf = deref (w_confs s) cnf" "within s' cnf cnf" "within s' cnf (conf_tasks_list cnf)"
    using r cnf steps_within [OF st(1)] steps_same(7) [OF st(1)] by (auto simp: rooted_def)
  ultimately show ?thesis using r by (simp add: rooted_def)
qed

lemma strings_steps: "(\<forall>p x. V p = Some x \<longrightarrow> has_str s p x) \<Longrightarrow> steps X s s' \<Longrightarrow> X \<inter> dom V = {} \<Longrightarrow> (\<forall>p x. V p = Some x \<longrightarrow> has_str s' p x)"
  using has_str_steps by blast

text \<open>A step of the current task: its blocks change, and it takes values that wait.\<close>

lemma building_current:
  assumes b: "building s0 c cnf V vs now es s" and st: "steps X s s'" "X \<subseteq> blocks_of (opt_list now)"
    and new: "distinct (concat (map entry_blocks (opt_list now')))" "blocks_of (opt_list now') \<inter> (live s - blocks_of (opt_list now)) = {}"
      "live s' = live s - blocks_of (opt_list now) \<union> blocks_of (opt_list now')" "current_task s' c now'"
    and vals: "distinct (vs' @ vals_of (opt_list now'))" "set (vs' @ vals_of (opt_list now')) \<subseteq> set (vs @ vals_of (opt_list now))"
  shows "building s0 c cnf V vs' now' es s'"
proof -
  have r: "rooted s0 c cnf es s" and sep: "separated s0 V (opt_list now @ es) s" and dv: "distinct (vs @ vals_of (opt_list now @ es))"
    "set (vs @ vals_of (opt_list now @ es)) \<subseteq> dom V" using b by (simp_all add: building_def)
  have d: "blocks_of (opt_list now) \<inter> blocks_of es = {}" "live s = live s0 \<union> dom V \<union> blocks_of (opt_list now) \<union> blocks_of es"
    "(live s0 \<union> dom V) \<inter> (blocks_of (opt_list now) \<union> blocks_of es) = {}" "distinct (concat (map entry_blocks es))"
    using sep by (auto simp: separated_def blocks_of_def)
  have X: "X \<inter> (live s0 \<union> dom V \<union> blocks_of es) = {}" using st(2) d(1,3) by blast
  have "rooted s0 c cnf es s'" by (rule rooted_steps [OF r st(1)]) (use X in blast)
  moreover have "separated s0 V (opt_list now' @ es) s'"
    unfolding separated_def
  proof (intro conjI)
    have "blocks_of (opt_list now') \<inter> blocks_of es = {}" using new(2) d(1,2) by blast
    then show "distinct (concat (map entry_blocks (opt_list now' @ es)))" using new(1) d(4) by (simp add: blocks_of_def)
    show "live s0 \<inter> dom V = {}" using sep by (simp add: separated_def)
    show "(live s0 \<union> dom V) \<inter> blocks_of (opt_list now' @ es) = {}" using new(2) d by (simp, blast)
    show "live s' = live s0 \<union> dom V \<union> blocks_of (opt_list now' @ es)" unfolding new(3) d(2) using d(1,3) by (simp, blast)
    show "\<forall>p x. V p = Some x \<longrightarrow> has_str s' p x" by (rule strings_steps [OF _ st(1)]) (use sep X in \<open>auto simp: separated_def\<close>)
  qed
  moreover have "distinct (vs' @ vals_of (opt_list now' @ es))" using vals dv(1) by (auto 0 3)
  moreover have "set (vs' @ vals_of (opt_list now' @ es)) \<subseteq> dom V" using vals(2) dv(2) by (simp, blast)
  ultimately show ?thesis using new(4) by (simp add: building_def)
qed

text \<open>The value of a token is a new block.\<close>

lemma strdup_building:
  assumes os: "roomy os" and b: "building s0 c cnf V vs now es s"
  shows "returns (strdup os t) (\<lambda>p s'. p \<notin> dom V \<and> building s0 c cnf (V(p \<mapsto> c_text t)) (p # vs) now es s') s"
proof -
  have r: "rooted s0 c cnf es s" and sep: "separated s0 V (opt_list now @ es) s" and dv: "distinct (vs @ vals_of (opt_list now @ es))"
    "set (vs @ vals_of (opt_list now @ es)) \<subseteq> dom V" "current_task s c now" using b by (simp_all add: building_def)
  have "tidy s" using r by (auto simp: rooted_def dest: steps_tidy)
  from strdup_run [OF os this, of t] obtain p s' where
    run: "strdup os t s = Some (Ret p, s')" and p: "steps {} s s'" "p \<notin> live s" "live s' = insert p (live s)" "has_str s' p (c_text t)"
    "g_task s' = g_task s" by (auto elim!: returnsE)
  have new: "p \<notin> live s0" "p \<notin> dom V" "p \<notin> blocks_of (opt_list now @ es)" using p(2) sep by (auto simp: separated_def)
  have "rooted s0 c cnf es s'" by (rule rooted_steps [OF r p(1)]) simp
  moreover have "separated s0 (V(p \<mapsto> c_text t)) (opt_list now @ es) s'"
  proof -
    have "has_str s' q x" if "V q = Some x" for q x using sep that has_str_steps [OF _ p(1)] by (auto simp: separated_def)
    then show ?thesis using sep new p(3,4) unfolding separated_def by auto
  qed
  moreover have "current_task s' c now"
  proof (cases now)
    case (Some e)
    obtain t k d where "e = (t, k, d)" by (cases e)
    with Some dv(3) show ?thesis using p(5) shaped_steps [OF _ p(1)] by simp
  qed (use dv(3) p(5) in simp)
  moreover have "distinct (p # vs @ vals_of (opt_list now @ es))" using dv(1,2) new(2) by auto
  moreover have "set (p # vs @ vals_of (opt_list now @ es)) \<subseteq> dom (V(p \<mapsto> c_text t))" using dv(2) by auto
  ultimately show ?thesis unfolding returns_def building_def using run new(2) by simp
qed

lemma building_drop:
  assumes "building s0 c cnf V vs now es s" "distinct vs'" "set vs' \<subseteq> set vs"
  shows "building s0 c cnf V vs' now es s"
  using assms by (auto simp: building_def)
section \<open>The actions\<close>

lemma building_facts:
  assumes "building s0 c cnf V vs now es s"
  shows "tidy s" "\<exists>x. deref (w_ctxs s) c = Some x" "\<exists>cf. deref (w_confs s) cnf = Some cf \<and> cf_ctx cf = c" "current_task s c now"
proof -
  have r: "rooted s0 c cnf es s" "current_task s c now" using assms by (simp_all add: building_def)
  then show "tidy s" "\<exists>cf. deref (w_confs s) cnf = Some cf \<and> cf_ctx cf = c" by (auto simp: rooted_def dest: steps_tidy)
  have st: "steps {cnf} s0 s" and c: "within s0 c c" "deref (w_ctxs s0) c \<noteq> None" "c \<notin> {cnf}" using r(1) by (simp_all add: rooted_def)
  show "\<exists>x. deref (w_ctxs s) c = Some x" using steps_same(8) [OF st c(1,3)] c(2) by auto
  show "current_task s c now" by (rule r(2))
qed

definition now_spec :: "entry option \<Rightarrow> addr spec option" where
  "now_spec now = map_option entry_spec now"

lemma check_task_building:
  assumes os: "roomy os" and b: "building s0 c cnf V vs now es s"
  shows "returns (check_task os cnf) (\<lambda>_ s'. \<exists>t k. building s0 c cnf V vs (Some (t, k, current (now_spec now))) es s') s"
proof (cases now)
  case (Some e)
  obtain t k d where e: "e = (t, k, d)" by (cases e)
  then have "g_task s = t" "t \<noteq> NULL" using building_facts(4) [OF b] Some by (auto simp: shaped_def task_at_def dest: deref_not_NULL)
  then have "check_task os cnf s = Some (Ret (), s)" by (simp add: check_task_def run_simps)
  then show ?thesis using b Some e by (auto simp: returns_def now_spec_def entry_spec_def)
next
  case None
  note f = building_facts [OF b]
  obtain x cf where x: "deref (w_ctxs s) c = Some x" "deref (w_confs s) cnf = Some cf" "cf_ctx cf = c" using f(2,3) by blast
  have "g_task s = NULL" using f(4) None by simp
  from check_task_works [OF os f(1) x this] obtain s1 where
    1: "check_task os cnf s = Some (Ret (), s1)" "shaped s1 c (g_task s1) (fresh_task c) no_spec (drafted no_spec)" "steps {} s s1"
    "g_task s1 \<notin> live s" "live s1 = insert (g_task s1) (live s)" by (auto elim!: returnsE)
  have "pointers (fresh_task c) = []" by (simp add: fresh_task_def owned_def)
  then have "building s0 c cnf V vs (Some (g_task s1, fresh_task c, no_spec)) es s1"
    by (intro building_current [OF b 1(3)])
      (use None 1 b in \<open>auto simp: entry_spec_def no_spec_def spec_vals_def fresh_task_def building_def\<close>)
  then show ?thesis using 1(1) None by (auto simp: returns_def now_spec_def)
qed

text \<open>An option of the current task.\<close>

lemma building_option:
  assumes b: "building s0 c cnf V vs (Some (t, k, d)) es s" and r: "reworks t s k s' k'" and s: "shaped s' c t k' d' (drafted d')"
    and env: "tk_envp k' = NULL \<longleftrightarrow> sp_env d' = []" and vals: "distinct (vs' @ spec_vals d')" "set (vs' @ spec_vals d') \<subseteq> set (vs @ spec_vals d)"
  shows "building s0 c cnf V vs' (Some (t, k', d')) es s'"
proof (rule building_current [OF b])
  have cur: "g_task s = t" "shaped s c t k d (drafted d)" using building_facts(4) [OF b] by simp_all
  have t: "t \<in> live s" "t \<notin> set (pointers k)" "distinct (t # pointers k')" using cur(2) s by (auto simp: shaped_def task_at_def intro: within_live)
  show "steps (set (t # pointers k)) s s'" using r by (simp add: reworks_def)
  show "set (t # pointers k) \<subseteq> blocks_of (opt_list (Some (t, k, d)))" by simp
  show "distinct (concat (map entry_blocks (opt_list (Some (t, k', d')))))" using t(3) by simp
  show "blocks_of (opt_list (Some (t, k', d'))) \<inter> (live s - blocks_of (opt_list (Some (t, k, d)))) = {}"
    using r by (auto simp: reworks_def)
  show "live s' = live s - blocks_of (opt_list (Some (t, k, d))) \<union> blocks_of (opt_list (Some (t, k', d')))"
    using r t(1,2) by (auto simp: reworks_def)
  show "current_task s' c (Some (t, k', d'))" using s env r cur(1) by (simp add: reworks_def)
  show "distinct (vs' @ vals_of (opt_list (Some (t, k', d'))))" "set (vs' @ vals_of (opt_list (Some (t, k', d')))) \<subseteq> set (vs @ vals_of (opt_list (Some (t, k, d))))"
    using vals by (simp_all add: entry_spec_def)
qed

lemma building_vals:
  assumes "building s0 c cnf V (event_vals e @ vs) (Some (t, k, d)) es s"
  shows "distinct (vs @ spec_vals (with_option e d))" "set (vs @ spec_vals (with_option e d)) \<subseteq> set ((event_vals e @ vs) @ spec_vals d)"
proof -
  have "distinct (event_vals e @ vs @ spec_vals d)" using assms by (auto simp: building_def entry_spec_def)
  then show "distinct (vs @ spec_vals (with_option e d))" "set (vs @ spec_vals (with_option e d)) \<subseteq> set ((event_vals e @ vs) @ spec_vals d)"
    using spec_vals_with_option [of e d] by auto
qed

lemma set_task_building:
  assumes b: "building s0 c cnf V (event_vals e @ vs) (Some (t, k, d)) es s" and base: "task_base c (u k) (with_option e d)"
    and mem: "\<And>m. member_ptr m (u k) = member_ptr m k" "\<And>m. member_total m (u k) = member_total m k" "\<And>m. member_len m (u k) = member_len m k"
    and same: "sp_args (with_option e d) = sp_args d" "sp_env (with_option e d) = sp_env d"
  shows "returns (set_task t u) (\<lambda>_ s'. building s0 c cnf V vs (Some (t, u k, with_option e d)) es s') s"
proof -
  have cur: "shaped s c t k d (drafted d)" "tk_envp k = NULL \<longleftrightarrow> sp_env d = []" using building_facts(4) [OF b] by simp_all
  have dr: "drafted (with_option e d) = drafted d"
  proof
    fix m show "drafted (with_option e d) m = drafted d m" by (cases m) (simp_all add: same)
  qed
  have "returns (set_task t u) (\<lambda>_ s'. shaped s' c t (u k) (with_option e d) (drafted d) \<and> reworks t s k s' (u k) \<and> s' = s\<lparr>w_tasks := (w_tasks s)(t \<mapsto> u k)\<rparr>) s"
    by (rule set_task_works [where u = u, OF cur(1)]) (use base mem cur(1) in \<open>simp_all add: shaped_def\<close>)
  then show ?thesis
  proof (rule returns_mono, elim conjE)
    fix s'
    assume s': "shaped s' c t (u k) (with_option e d) (drafted d)" "reworks t s k s' (u k)"
    show "building s0 c cnf V vs (Some (t, u k, with_option e d)) es s'"
      by (rule building_option [OF b s'(2) _ _ building_vals [OF b]])
        (use s'(1) dr cur(2) same(2) mem(1) [of M_envp] in simp_all)
  qed
qed

lemma append_building:
  assumes os: "roomy os" and b: "building s0 c cnf V (event_vals e @ vs) (Some (t, k, d)) es s"
    and e: "drafted (with_option e d) = (drafted d)(m := drafted d m @ [v])" "\<And>k. task_base c k (with_option e d) = task_base c k d"
  shows "returns (bindr (check_task_member os t m 1 CONF_DEFAULT_LEN) (\<lambda>_. append_member t m v))
    (\<lambda>_ s'. \<exists>k'. building s0 c cnf V vs (Some (t, k', with_option e d)) es s') s"
proof -
  have cur: "shaped s c t k d (drafted d)" "tk_envp k = NULL \<longleftrightarrow> sp_env d = []" using building_facts(4) [OF b] by simp_all
  from check_task_member_works [OF os cur(1), of 1 CONF_DEFAULT_LEN m] obtain s1 k1 where
    1: "check_task_member os t m 1 CONF_DEFAULT_LEN s = Some (Ret (), s1)" "shaped s1 c t k1 d (drafted d)" "reworks t s k s1 k1"
    "length (drafted d m) + 1 \<le> member_total m k1" "member_ptr m k1 \<noteq> NULL" "member_ptr (other m) k1 = member_ptr (other m) k"
    by (auto simp: CONF_DEFAULT_LEN_def elim!: returnsE)
  from append_member_works [OF 1(2), of m v] 1(4) obtain s2 k2 where
    2: "append_member t m v s1 = Some (Ret (), s2)" "shaped s2 c t k2 d ((drafted d)(m := drafted d m @ [v]))" "reworks t s1 k1 s2 k2"
    "member_ptr m k2 = member_ptr m k1" "member_ptr (other m) k2 = member_ptr (other m) k1" by (auto elim!: returnsE)
  have sh: "shaped s2 c t k2 (with_option e d) (drafted (with_option e d))" using 2(2) e(1,2) by (simp add: shaped_def)
  have env: "tk_envp k2 = NULL \<longleftrightarrow> sp_env (with_option e d) = []"
  proof (cases m)
    case M_args
    then have "sp_env (with_option e d) = sp_env d" using fun_cong [OF e(1), of M_envp] by simp
    then show ?thesis using M_args 1(6) 2(5) cur(2) by simp
  next
    case M_envp
    then have "sp_env (with_option e d) = sp_env d @ [v]" using fun_cong [OF e(1), of M_envp] by simp
    then show ?thesis using M_envp 1(5) 2(4) by simp
  qed
  have "building s0 c cnf V vs (Some (t, k2, with_option e d)) es s2"
    by (rule building_option [OF b reworks_trans [OF 1(3) 2(3)] sh env building_vals [OF b]])
  then show ?thesis using 1(1) 2(1) by (auto simp: returns_def bindr_Ret)
qed


lemma option_event:
  assumes os: "roomy os" and b: "building s0 c cnf V (event_vals e @ vs) now es s" and e: "e \<noteq> End_task"
  shows "returns (do_event os cnf e) (\<lambda>_ s'. \<exists>t k. building s0 c cnf V vs (Some (t, k, with_option e (current (now_spec now)))) es s') s"
proof -
  define d where "d = current (now_spec now)"
  from check_task_building [OF os b] obtain s1 t k where
    run: "check_task os cnf s = Some (Ret (), s1)" and b1: "building s0 c cnf V (event_vals e @ vs) (Some (t, k, d)) es s1"
    by (auto simp: d_def elim!: returnsE)
  have cur: "g_task s1 = t" "task_base c k d" using building_facts(4) [OF b1] by (simp_all add: shaped_def)
  obtain n p dr as xs where d: "d = Spec n p dr as xs" by (cases d)
  let ?goal = "\<lambda>_ s'. \<exists>t k. building s0 c cnf V vs (Some (t, k, with_option e d)) es s'"
  have set_f: "returns (set_task t u) ?goal s1"
    if "task_base c (u k) (with_option e d)" "tk_args (u k) = tk_args k" "tk_args_total (u k) = tk_args_total k" "tk_args_len (u k) = tk_args_len k"
      "tk_envp (u k) = tk_envp k" "tk_envp_total (u k) = tk_envp_total k" "tk_envp_len (u k) = tk_envp_len k"
      "sp_args (with_option e d) = sp_args d" "sp_env (with_option e d) = sp_env d" for u
  proof -
    have m: "member_ptr m (u k) = member_ptr m k \<and> member_total m (u k) = member_total m k \<and> member_len m (u k) = member_len m k" for m
      using that by (cases m) simp_all
    show ?thesis
      by (rule returns_mono [OF set_task_building [where u = u, OF b1 that(1)]]) (use m that in blast)+
  qed
  have app: "returns (bindr (check_task_member os t m 1 CONF_DEFAULT_LEN) (\<lambda>_. append_member t m v)) ?goal s1"
    if "drafted (with_option e d) = (drafted d)(m := drafted d m @ [v])" "\<And>k. task_base c k (with_option e d) = task_base c k d" for m v
    by (rule returns_mono [OF append_building [OF os b1 that]]) blast
  have up: "f = g" if "f M_args = g M_args" "f M_envp = g M_envp" for f g :: "member \<Rightarrow> addr list"
  proof
    fix m show "f m = g m" using that by (cases m) simp_all
  qed
  have go: "returns (bindr (check_task os cnf) (\<lambda>_. bindr (gets g_task) F)) P s = returns (F t) P s1" for F :: "addr \<Rightarrow> unit prog" and P
    by (simp add: returns_def bindr_Ret run bindr_basic cur(1))
  show ?thesis
    unfolding d_def [symmetric]
  proof (cases e)
    case (Set_name v)
    have "returns (set_task t (\<lambda>k. k\<lparr>tk_name := v\<rparr>)) ?goal s1"
      by (rule set_f) (use cur(2) in \<open>simp_all add: d task_base_def Set_name\<close>)
    then show "returns (do_event os cnf e) ?goal s" by (simp only: Set_name do_event.simps go)
  next
    case (Set_path v)
    have "returns (set_task t (\<lambda>k. k\<lparr>tk_path := v\<rparr>)) ?goal s1"
      by (rule set_f) (use cur(2) in \<open>simp_all add: d task_base_def Set_path\<close>)
    then show "returns (do_event os cnf e) ?goal s" by (simp only: Set_path do_event.simps go)
  next
    case (Set_dir v)
    have "returns (set_task t (\<lambda>k. k\<lparr>tk_dir := v\<rparr>)) ?goal s1"
      by (rule set_f) (use cur(2) in \<open>simp_all add: d task_base_def Set_dir\<close>)
    then show "returns (do_event os cnf e) ?goal s" by (simp only: Set_dir do_event.simps go)
  next
    case (Add_arg v)
    have "returns (bindr (check_task_member os t M_args 1 CONF_DEFAULT_LEN) (\<lambda>_. append_member t M_args v)) ?goal s1"
      by (rule app, rule up) (simp_all add: d task_base_def Add_arg)
    then show "returns (do_event os cnf e) ?goal s" by (simp only: Add_arg do_event.simps go)
  next
    case (Add_env v)
    have "returns (bindr (check_task_member os t M_envp 1 CONF_DEFAULT_LEN) (\<lambda>_. append_member t M_envp v)) ?goal s1"
      by (rule app, rule up) (simp_all add: d task_base_def Add_env)
    then show "returns (do_event os cnf e) ?goal s" by (simp only: Add_env do_event.simps go)
  qed (use e in simp)
qed

section \<open>The end of a task\<close>

lemma list_add_dom: "list_add h n p = Some h' \<Longrightarrow> dom h' = dom h"
proof -
  have poke: "dom g' = dom g" if "poke g q f = Some g'" for g g' :: lheap and q f
    using that by (cases "g q") (auto simp: poke_def deref_def split: if_splits)
  assume "list_add h n p = Some h'"
  then obtain x h1 h2 h3 where "poke h x (\<lambda>e. e\<lparr>lh_prev := n\<rparr>) = Some h1" "poke h1 n (\<lambda>e. e\<lparr>lh_next := x\<rparr>) = Some h2"
    "poke h2 n (\<lambda>e. e\<lparr>lh_prev := p\<rparr>) = Some h3" "poke h3 p (\<lambda>e. e\<lparr>lh_next := n\<rparr>) = Some h'"
    by (auto simp: list_add_def list_add_between_def bind_eq_Some_conv)
  then show ?thesis using poke by metis
qed

definition relink :: "lheap \<Rightarrow> addr \<Rightarrow> world \<Rightarrow> world" where
  "relink ls g s = s\<lparr>w_lists := ls, g_task := g\<rparr>"

lemma relink_memory:
  "within (relink ls g s) = within s" "live (relink ls g s) = live s" "has_str (relink ls g s) = has_str s" "vec (relink ls g s) = vec s"
proof -
  show w: "within (relink ls g s) = within s" by (intro ext) (simp add: within_def relink_def)
  show "live (relink ls g s) = live s" by (simp add: live_def relink_def)
  show "has_str (relink ls g s) = has_str s" "vec (relink ls g s) = vec s"
    by (intro ext; simp add: has_str_def vec_def w; simp add: str_at_def relink_def)+
qed

lemma relink_shaped:
  assumes "dom ls = dom (w_lists s)"
  shows "tidy (relink ls g s) = tidy s" "shaped (relink ls g s) = shaped s"
proof -
  show t: "tidy (relink ls g s) = tidy s" by (simp add: tidy_def separate_def in_blocks_def objects_def assms relink_def)
  have "ls q \<noteq> None \<longleftrightarrow> w_lists s q \<noteq> None" for q using assms by (auto simp: dom_def)
  then show "shaped (relink ls g s) = shaped s"
    by (intro ext) (simp add: shaped_def task_at_def t relink_memory, simp add: relink_def)
qed

text \<open>The list of the configuration and the nodes of its tasks lie outside of all other blocks.\<close>

lemma steps_relink:
  assumes st: "steps X s0 s" and ls: "dom ls = dom (w_lists s)" "\<And>b q. within s0 b q \<Longrightarrow> b \<notin> X \<Longrightarrow> ls q = w_lists s q"
  shows "steps X s0 (relink ls g s)"
proof -
  have "tidy (relink ls g s)" using st relink_shaped(1) [OF ls(1)] by (simp add: steps_def)
  moreover have "non_memory (relink ls g s) = non_memory s0" using st by (simp add: steps_def non_memory_def relink_def)
  moreover have "within (relink ls g s) b q \<and> same_at s0 (relink ls g s) q" if "within s0 b q" "b \<notin> X" for b q
  proof -
    have "within s b q" "same_at s0 s q" using st that by (simp_all add: steps_def)
    then show ?thesis using ls(2) [OF that] by (simp add: relink_memory(1)) (simp add: same_at_def relink_def)
  qed
  ultimately show ?thesis by (simp add: steps_def)
qed

lemma finished_node:
  assumes "rooted s0 c cnf es s" "e \<in> set es"
  shows "within s (fst e) (task_list (fst e))" "fst e \<in> blocks_of es"
proof -
  obtain t k d where e: "e = (t, k, d)" by (cases e)
  have "\<forall>e \<in> set es. finished_task s c e" using assms(1) unfolding rooted_def by (elim conjE)
  then have "finished_task s c (t, k, d)" using assms(2) unfolding e by (rule bspec)
  then show "within s (fst e) (task_list (fst e))" by (simp add: e shaped_def task_at_def)
  show "fst e \<in> blocks_of es" using entry_in_blocks [OF assms(2)] by (auto simp: e)
qed

lemma end_event:
  assumes os: "roomy os" and b: "building s0 c cnf V vs (Some (t, k, d)) es s"
  shows "returns (end_task os cnf) (\<lambda>_ s'. \<exists>k'. building s0 c cnf V vs None ((t, k', d) # es) s') s"
proof -
  have cur: "g_task s = t" "shaped s c t k d (drafted d)" "tk_envp k = NULL \<longleftrightarrow> sp_env d = []" using building_facts(4) [OF b] by simp_all
  from complete_works [OF os cur(2), of "\<lambda>_. bindr (modifysome (\<lambda>s. do { ls \<leftarrow> list_add (w_lists s) (task_list t) (conf_tasks_list cnf);
      Some (s\<lparr>w_lists := ls\<rparr>) })) (\<lambda>_. modify (\<lambda>s. s\<lparr>g_task := NULL\<rparr>))"] obtain s1 k1 where
    run1: "end_task os cnf s = bindr (modifysome (\<lambda>s. do { ls \<leftarrow> list_add (w_lists s) (task_list t) (conf_tasks_list cnf);
      Some (s\<lparr>w_lists := ls\<rparr>) })) (\<lambda>_. modify (\<lambda>s. s\<lparr>g_task := NULL\<rparr>)) s1" and
    1: "shaped s1 c t k1 d (completed (tk_envp k1) d)" "reworks t s k s1 k1" "tk_args k1 \<noteq> NULL" "tk_envp k1 = NULL \<longleftrightarrow> tk_envp k = NULL"
    by (auto simp: end_task_parts bindr_basic cur(1))
  have r: "rooted s0 c cnf es s" and sep: "separated s0 V ((t, k, d) # es) s" using b by (simp_all add: building_def)
  have dis: "distinct (concat (map entry_blocks es))" "set (t # pointers k) \<inter> blocks_of es = {}" "live s = live s0 \<union> dom V \<union> set (t # pointers k) \<union> blocks_of es"
    "(live s0 \<union> dom V) \<inter> (set (t # pointers k) \<union> blocks_of es) = {}" "t \<notin> set (pointers k)" "live s0 \<inter> dom V = {}"
    using sep by (auto simp: separated_def blocks_of_def)
  have st: "steps (set (t # pointers k)) s s1" "set (pointers k1) \<inter> (live s - set (pointers k)) = {}"
    "live s1 = live s - set (pointers k) \<union> set (pointers k1)" using 1(2) by (simp_all add: reworks_def)
  have r1: "rooted s0 c cnf es s1" by (rule rooted_steps [OF r st(1)]) (use dis in blast)
  let ?head = "conf_tasks_list cnf" and ?ns = "map (task_list \<circ> fst) es"
  have sep1: "separate s1" and ls1: "list_holds (w_lists s1) ?head ?ns" and cnf: "within s1 cnf ?head" "cnf \<in> live s0"
    using r1 by (auto simp: rooted_def dest!: steps_tidy) (simp add: tidy_def)
  have t1: "within s1 t (task_list t)" "w_lists s1 (task_list t) \<noteq> None" "distinct (t # pointers k1)" using 1(1) by (simp_all add: shaped_def task_at_def)
  have "task_list t \<noteq> ?head"
  proof
    assume "task_list t = ?head"
    then have "t = cnf" using within_unique [OF sep1 t1(1)] cnf(1) by simp
    then show False using cnf(2) dis(4) by auto
  qed
  moreover have "task_list t \<notin> set ?ns" using finished_node(2) [OF r] dis(2) by auto
  moreover have "nx (w_lists s1) (task_list t) \<noteq> None" using t1(2) by (auto simp: peek_def deref_def task_list_def)
  ultimately obtain ls where ls: "list_add (w_lists s1) (task_list t) ?head = Some ls" "list_holds ls ?head (task_list t # ?ns)"
    "same_outside (set (?head # task_list t # ?ns)) (w_lists s1) ls"
    using list_add_holds [OF ls1, of "task_list t"] by (auto elim!: ensuresE)
  note dom = list_add_dom [OF ls(1)]
  let ?s2 = "relink ls NULL s1" and ?e = "(t, k1, d)"
  have run: "end_task os cnf s = Some (Ret (), ?s2)" using ls(1) by (simp add: run1 bindr_getsome run_ret relink_def)
  have eb: "set (entry_blocks ?e) \<inter> (live s0 \<union> dom V \<union> blocks_of es) = {}" using st(2) dis(2-5) unfolding entry_blocks.simps list.set by blast
  have fin: "finished_task ?s2 c e" if "e \<in> set (?e # es)" for e
  proof -
    have "finished_task s1 c e" using that r1 1 cur(3) by (auto simp: rooted_def)
    then show ?thesis by (cases e) (simp add: relink_shaped(2) [OF dom])
  qed
  have "rooted s0 c cnf (?e # es) ?s2"
  proof -
    have "ls q = w_lists s1 q" if w: "within s0 b q" "b \<notin> {cnf}" for b q
    proof -
      have wb: "within s1 b q" "b \<in> live s0" using r1 w by (auto simp: rooted_def steps_def live_def within_def) force
      have "q \<notin> set (?head # task_list t # ?ns)"
      proof
        assume "q \<in> set (?head # task_list t # ?ns)"
        then consider "q = ?head" | "q = task_list t" | e where "e \<in> set es" "q = task_list (fst e)" by auto
        then have "\<exists>b'. within s1 b' q \<and> (b' = cnf \<or> b' = t \<or> b' \<in> blocks_of es)"
          by cases (use cnf(1) t1(1) finished_node [OF r1] in blast)+
        then show False using within_unique [OF sep1 wb(1)] wb(2) w(2) dis(4) by auto
      qed
      then show ?thesis using ls(3) by (simp add: same_outside_def)
    qed
    then have "steps {cnf} s0 ?s2" by (intro steps_relink dom) (use r1 in \<open>simp add: rooted_def\<close>)
    moreover have "w_confs ?s2 = w_confs s1" "w_lists ?s2 = ls" by (simp_all add: relink_def)
    ultimately show ?thesis using r1 ls(2) fin by (simp add: rooted_def relink_memory(1))
  qed
  moreover have "separated s0 V (?e # es) ?s2"
    unfolding separated_def
  proof (intro conjI)
    have "set (entry_blocks ?e) \<inter> set (concat (map entry_blocks es)) = {}" using eb unfolding blocks_of_def by blast
    then show "distinct (concat (map entry_blocks (?e # es)))" using dis(1) t1(3)
      by (simp only: list.map concat.simps distinct_append entry_blocks.simps)
    show "live s0 \<inter> dom V = {}" by (rule dis(6))
    show "(live s0 \<union> dom V) \<inter> blocks_of (?e # es) = {}" using eb dis(4) by (simp, blast)
    have "live s1 = live s0 \<union> dom V \<union> blocks_of (?e # es)" unfolding st(3) dis(3) using dis(2,4,5) by (simp, blast)
    then show "live ?s2 = live s0 \<union> dom V \<union> blocks_of (?e # es)" by (simp add: relink_memory(2))
    have "\<forall>p x. V p = Some x \<longrightarrow> has_str s1 p x"
      by (rule strings_steps [OF _ st(1)]) (use sep dis(4) in \<open>auto simp: separated_def\<close>)
    then show "\<forall>p x. V p = Some x \<longrightarrow> has_str ?s2 p x" by (simp add: relink_memory(3))
  qed
  moreover have "current_task ?s2 c None" by (simp add: relink_def)
  ultimately have "building s0 c cnf V vs None (?e # es) ?s2" using b by (simp add: building_def entry_spec_def)
  then show ?thesis using run by (auto simp: returns_def)
qed

end
