(* ===== verification/Conf_File.thy ===== *)
theory Conf_File
  imports Conf_Run
begin

text \<open>
  The loop of the parser over the tokens of a file: its copies of the texts, its events and its end, and what the tasks in the
  memory then say (\<open>parsed\<close>).
\<close>

section \<open>Reading a file\<close>

text \<open>The texts of the values, and the tokens of a file with their texts.\<close>

definition text_of :: "(addr \<rightharpoonup> string) \<Rightarrow> addr \<Rightarrow> string" where
  "text_of V p = (case V p of None \<Rightarrow> [] | Some x \<Rightarrow> x)"

definition texts :: "token list \<Rightarrow> string terminal list" where
  "texts ts = map (\<lambda>(k, t). (k, case t of None \<Rightarrow> [] | Some yytext \<Rightarrow> c_text yytext)) ts"

definition said :: "(addr \<rightharpoonup> string) \<Rightarrow> entry option \<Rightarrow> entry list \<Rightarrow> string spec option \<times> string spec list" where
  "said V now es = (map_option (map_spec (text_of V)) (now_spec now), map (map_spec (text_of V)) (map entry_spec es))"

lemma scan_actions: "(a, w) \<in> set (scan bol cs) \<Longrightarrow> a = ECHO \<or> a \<in> ru_action ` set rules"
proof (induction bol cs rule: scan.induct)
  case (1 bol cs)
  show ?case
  proof (cases "cs = []")
    case True
    with 1(2) show ?thesis by (simp add: scan.simps)
  next
    case False
    obtain a' n where step: "scan_step bol cs = (a', n)" by (cases "scan_step bol cs")
    have a': "a' = ECHO \<or> a' \<in> ru_action ` set rules"
      using step best_rule_in [of bol cs rules] by (fastforce simp: scan_step_def split: option.splits)
    have "(a, w) \<in> set ((a', take n cs) # scan (last (take n cs) = CHR 0x0A) (drop n cs))"
      using 1(2) False step by (subst (asm) scan.simps) (simp add: Let_def)
    with a' 1(1) [OF False step [symmetric] refl refl] show ?thesis by auto
  qed
qed

lemma tokens_text: "(k, t) \<in> set (tokens cs) \<Longrightarrow> k \<in> text_kinds \<Longrightarrow> t \<noteq> None"
proof -
  assume k: "(k, t) \<in> set (tokens cs)" "k \<in> text_kinds"
  then obtain a w where a: "(a, w) \<in> set (scan True cs)" "token_of (a, w) = Some (k, t)" by (auto simp: tokens_def map_filter_def)
  from scan_actions [OF a(1)] have "a \<noteq> Return k" using k(2) by (auto simp: rules_def text_kinds_def comment_def)
  with a(2) show "t \<noteq> None" by (cases a) auto
qed

section \<open>The events\<close>

lemma end_without_task: "building s0 c cnf V vs None es s \<Longrightarrow> end_task os cnf s = None"
  using building_facts(4) [of s0 c cnf V vs None es s]
  by (simp add: end_task_def bindr_basic check_task_member_def bindr_assoc get_task_def bindr_getsome peek_def)

lemma do_events_run:
  assumes os: "roomy os"
  shows "building s0 c cnf V (concat (map event_vals fs) @ vs) now es s \<Longrightarrow>
    (case describes (now_spec now, map entry_spec es) fs of None \<Rightarrow> do_events os cnf fs s = None
     | Some x \<Rightarrow> returns (do_events os cnf fs) (\<lambda>_ s'. \<exists>now' es'. building s0 c cnf V vs now' es' s' \<and> (now_spec now', map entry_spec es') = x) s)"
proof (induction fs arbitrary: now es s)
  case Nil
  then show ?case by auto
next
  case (Cons f fs)
  let ?w = "concat (map event_vals fs) @ vs"
  let ?ok = "\<lambda>x s'. \<exists>now' es'. building s0 c cnf V ?w now' es' s' \<and> (now_spec now', map entry_spec es') = x"
  have step: "case describe (now_spec now, map entry_spec es) f of None \<Rightarrow> do_event os cnf f s = None
      | Some x \<Rightarrow> returns (do_event os cnf f) (\<lambda>_. ?ok x) s"
  proof (cases "f = End_task")
    case True
    show ?thesis
    proof (cases now)
      case None
      then show ?thesis using True end_without_task [of s0 c cnf V ?w es s os] Cons.prems by (simp add: now_spec_def)
    next
      case (Some e)
      obtain t k d where e: "e = (t, k, d)" by (cases e)
      have b: "building s0 c cnf V ?w (Some (t, k, d)) es s" using Cons.prems True Some e by simp
      show ?thesis using end_event [OF os b] True Some e
        by (auto simp: now_spec_def entry_spec_def elim!: returns_mono)
    qed
  next
    case False
    have b: "building s0 c cnf V (event_vals f @ ?w) now es s" using Cons.prems by simp
    have "describe (now_spec now, map entry_spec es) f = Some (Some (with_option f (current (now_spec now))), map entry_spec es)"
      using False by (cases f) simp_all
    moreover have "returns (do_event os cnf f) (\<lambda>_. ?ok (Some (with_option f (current (now_spec now))), map entry_spec es)) s"
    proof (rule returns_mono [OF option_event [OF os b False]], elim exE)
      fix s' t k
      assume "building s0 c cnf V ?w (Some (t, k, with_option f (current (now_spec now)))) es s'"
      then show "?ok (Some (with_option f (current (now_spec now))), map entry_spec es) s'"
        by (intro exI conjI) (assumption, simp add: now_spec_def entry_spec_def)
    qed
    ultimately show ?thesis by simp
  qed
  show ?case
  proof (cases "describe (now_spec now, map entry_spec es) f")
    case None
    then show ?thesis using step by (simp add: bindr_def)
  next
    case (Some x)
    with step obtain s1 now1 es1 where 1: "do_event os cnf f s = Some (Ret (), s1)" "building s0 c cnf V ?w now1 es1 s1"
      "(now_spec now1, map entry_spec es1) = x" by (auto elim!: returnsE)
    have run: "do_events os cnf (f # fs) s = do_events os cnf fs s1" by (simp add: bindr_Ret 1(1))
    have more_events: "describes (now_spec now, map entry_spec es) (f # fs) = describes x fs" by (simp add: Some)
    show ?thesis using Cons.IH [OF 1(2)] unfolding 1(3) more_events returns_def run .
  qed
qed


section \<open>The tokens\<close>

lemma text_of_upd: "q \<in> dom V \<Longrightarrow> p \<notin> dom V \<Longrightarrow> text_of (V(p \<mapsto> x)) q = text_of V q"
  by (auto simp: text_of_def)

lemma set_pstate: "set_pstate st = set (state_vals st)"
  by (cases st) simp_all

lemma set_spec: "set_spec d = set (spec_vals d)"
  by (cases d) (auto simp: spec_vals_def opt_list_def split: option.splits)

lemma said_upd:
  assumes "building s0 c cnf V vs now es s" "p \<notin> dom V"
  shows "said (V(p \<mapsto> x)) now es = said V now es"
proof -
  have d: "set (vals_of (opt_list now @ es)) \<subseteq> dom V" using assms(1) by (simp add: building_def)
  have "map_spec (text_of (V(p \<mapsto> x))) (entry_spec e) = map_spec (text_of V) (entry_spec e)" if "e \<in> set (opt_list now @ es)" for e
  proof (rule spec.map_cong0)
    fix q assume "q \<in> set_spec (entry_spec e)"
    then have "q \<in> set (vals_of (opt_list now @ es))" using that by (auto simp: set_spec vals_of_def)
    then show "text_of (V(p \<mapsto> x)) q = text_of V q" using d text_of_upd [OF _ assms(2)] by blast
  qed
  then show ?thesis by (cases now) (simp_all add: said_def now_spec_def)
qed

lemma describes_said:
  "describes (said V now es) (map (map_event (text_of V)) fs) =
     map_option (map_prod (map_option (map_spec (text_of V))) (map (map_spec (text_of V)))) (describes (now_spec now, map entry_spec es) fs)"
  by (simp only: said_def describes_map)

lemma text_of_NULL: "building s0 c cnf V vs now es s \<Longrightarrow> text_of V NULL = []"
  by (auto simp: building_def separated_def has_str_def text_of_def split: option.split)

definition reported :: "os \<Rightarrow> world \<Rightarrow> world \<Rightarrow> bool" where
  "reported os s s' \<longleftrightarrow> yyerror os ''syntax error'' s = Some (Ret (), s')"

lemma yyerror_reported: "\<exists>s'. bindr (yyerror os ''syntax error'') f s = f () s' \<and> reported os s s'"
proof -
  have "render s [Lit ''error in you config file: '', Txt ''syntax error'', Lit '' near line: '', Dec 1] \<noteq> None" by simp
  from bz_log_stderr_loud [OF this, of os] show ?thesis
    by (auto simp: yyerror_def reported_def bindr_Ret elim!: returnsE)
qed

definition parsed :: "os \<Rightarrow> world \<Rightarrow> addr \<Rightarrow> addr \<Rightarrow> bool \<Rightarrow> string spec option \<times> string spec list \<Rightarrow> int \<Rightarrow> world \<Rightarrow> bool" where
  "parsed os s0 c cnf ok x r s' \<longleftrightarrow> (\<exists>V vs now es s1. building s0 c cnf V vs now es s1 \<and> said V now es = x \<and>
     (if ok then r = 0 \<and> s' = s1 else r = 1 \<and> reported os s1 s'))"

lemma parsedI:
  "building s0 c cnf V vs now es s \<Longrightarrow> parsed os s0 c cnf True (said V now es) 0 s"
  "building s0 c cnf V vs now es s \<Longrightarrow> reported os s s' \<Longrightarrow> parsed os s0 c cnf False (said V now es) 1 s'"
  by (simp_all add: parsed_def) (intro exI conjI, assumption, rule refl, assumption?)+

lemma yyparse_from_run:
  assumes os: "roomy os"
  shows "building s0 c cnf V (state_vals st) now es s \<Longrightarrow> (\<And>k t. (k, t) \<in> set ts \<Longrightarrow> k \<in> text_kinds \<Longrightarrow> t \<noteq> None) \<Longrightarrow>
    drive (map_pstate (text_of V) st) (texts ts) = (ok, fs) \<Longrightarrow>
    (case describes (said V now es) fs of None \<Rightarrow> yyparse_from os cnf st ts s = None
     | Some x \<Rightarrow> returns (yyparse_from os cnf st ts) (parsed os s0 c cnf ok x) s)"
proof (induction ts arbitrary: V st now es s ok fs)
  case Nil
  have fs: "fs = []" "ok = (st = P_tasks)" using Nil(3) by (cases st; auto simp: texts_def)+
  show ?case
  proof (cases "st = P_tasks")
    case True
    then show ?thesis using parsedI(1) [OF Nil(1)] fs by (simp add: returns_def run_ret)
  next
    case False
    obtain s' where "bindr (yyerror os ''syntax error'') (\<lambda>_. ret (1 :: int)) s = ret 1 s'" "reported os s s'"
      using yyerror_reported by blast
    then have "returns (yyparse_from os cnf st []) (parsed os s0 c cnf ok (said V now es)) s"
      using parsedI(2) [OF Nil(1)] fs False by (intro returns_run [of _ _ 1 s']) (simp_all add: run_ret)
    then show ?thesis by (simp add: fs)
  qed
next
  case (Cons w ts)
  obtain k t where w: "w = (k, t)" by (cases w)
  let ?txt = "case t of None \<Rightarrow> [] | Some yytext \<Rightarrow> c_text yytext"
  have "\<exists>p s1 V1. (case t of None \<Rightarrow> ret NULL | Some yytext \<Rightarrow> strdup os yytext) s = Some (Ret p, s1) \<and>
    building s0 c cnf V1 ((if t = None then [] else [p]) @ state_vals st) now es s1 \<and> text_of V1 p = ?txt \<and>
    said V1 now es = said V now es \<and> map_pstate (text_of V1) st = map_pstate (text_of V) st"
  proof (cases t)
    case None
    then show ?thesis using Cons.prems(1) text_of_NULL [OF Cons.prems(1)] by (auto simp: run_ret)
  next
    case (Some y)
    from strdup_building [OF os Cons.prems(1), of y] obtain p s1 where
      p: "strdup os y s = Some (Ret p, s1)" "p \<notin> dom V" "building s0 c cnf (V(p \<mapsto> c_text y)) (p # state_vals st) now es s1"
      by (auto elim!: returnsE)
    have "map_pstate (text_of (V(p \<mapsto> c_text y))) st = map_pstate (text_of V) st"
      by (rule pstate.map_cong0) (use Cons.prems(1) p(2) in \<open>auto simp: set_pstate building_def intro!: text_of_upd\<close>)
    then show ?thesis using Some p said_upd [OF Cons.prems(1) p(2)]
      by (intro exI [of _ p] exI [of _ s1] exI [of _ "V(p \<mapsto> c_text y)"]) (simp add: text_of_def)
  qed
  then obtain p s1 V1 where p: "(case t of None \<Rightarrow> ret NULL | Some yytext \<Rightarrow> strdup os yytext) s = Some (Ret p, s1)"
    "building s0 c cnf V1 ((if t = None then [] else [p]) @ state_vals st) now es s1" "text_of V1 p = ?txt"
    "said V1 now es = said V now es" "map_pstate (text_of V1) st = map_pstate (text_of V) st" by blast
  have run: "yyparse_from os cnf st (w # ts) s = (case shift st (k, p) of
       None \<Rightarrow> bindr (yyerror os ''syntax error'') (\<lambda>_. ret 1)
     | Some (st', es) \<Rightarrow> bindr (do_events os cnf es) (\<lambda>_. yyparse_from os cnf st' ts)) s1"
    by (simp add: w bindr_Ret p(1))
  have word: "texts (w # ts) = (k, ?txt) # texts ts" by (simp add: texts_def w)
  have sh: "shift (map_pstate (text_of V) st) (k, ?txt) = map_option (map_prod (map_pstate (text_of V1)) (map (map_event (text_of V1)))) (shift st (k, p))"
    using shift_map [of "text_of V1" st k p] by (simp only: p(3,5))
  show ?case
  proof (cases "shift st (k, p)")
    case None
    then have fs: "ok = False" "fs = []" using Cons.prems(3) sh unfolding word by simp_all
    obtain s' where "bindr (yyerror os ''syntax error'') (\<lambda>_. ret (1 :: int)) s1 = ret 1 s'" "reported os s1 s'" using yyerror_reported by blast
    then have "returns (yyparse_from os cnf st (w # ts)) (parsed os s0 c cnf ok (said V now es)) s"
      using parsedI(2) [OF p(2)] fs None run by (intro returns_run [of _ _ 1 s']) (simp_all add: run_ret p(4))
    then show ?thesis by (simp add: fs)
  next
    case (Some x)
    obtain st1 f1 where x: "x = (st1, f1)" by (cases x)
    obtain ok' f2 where d2: "drive (map_pstate (text_of V1) st1) (texts ts) = (ok', f2)" by (cases "drive (map_pstate (text_of V1) st1) (texts ts)")
    have fs: "ok = ok'" "fs = map (map_event (text_of V1)) f1 @ f2" using Cons.prems(3) sh d2 unfolding word by (simp_all add: Some x)
    let ?vs = "(if t = None then [] else [p]) @ state_vals st" and ?new = "state_vals st1 @ concat (map event_vals f1)"
    have vs: "distinct ?vs" using p(2) by (auto simp: building_def)
    have kt: "k \<in> text_kinds \<longrightarrow> t \<noteq> None" using Cons.prems(2) [of k t] by (simp add: w)
    consider "?new = []" | "?new = state_vals st" | "k \<in> text_kinds" "?new = [p]"
      using shift_vals [OF Some [unfolded x]] by blast
    then have new: "distinct ?new \<and> set ?new \<subseteq> set ?vs"
    proof cases
      case 1
      then show ?thesis unfolding 1 by simp
    next
      case 2
      then show ?thesis unfolding 2 using vs by simp
    next
      case 3
      then show ?thesis unfolding 3(2) using kt 3(1) by auto
    qed
    have b1: "building s0 c cnf V1 (concat (map event_vals f1) @ state_vals st1) now es s1"
      by (rule building_drop [OF p(2)]) (use new in \<open>simp_all only: distinct_append set_append Un_commute Int_commute conj_ac\<close>)
    have one: "describes (said V now es) (map (map_event (text_of V1)) f1) =
        map_option (map_prod (map_option (map_spec (text_of V1))) (map (map_spec (text_of V1)))) (describes (now_spec now, map entry_spec es) f1)"
      using describes_said [of V1 now es f1] by (simp only: p(4))
    show ?thesis
    proof (cases "describes (now_spec now, map entry_spec es) f1")
      case None
      then have "do_events os cnf f1 s1 = None" using do_events_run [OF os b1] by simp
      then have "yyparse_from os cnf st (w # ts) s = None" unfolding run by (simp add: Some x bindr_def)
      then show ?thesis using one None by (simp add: fs describes_append)
    next
      case (Some y)
      with do_events_run [OF os b1] obtain s2 now' es' where
        2: "do_events os cnf f1 s1 = Some (Ret (), s2)" "building s0 c cnf V1 (state_vals st1) now' es' s2" "y = (now_spec now', map entry_spec es')"
        by (auto elim!: returnsE)
      have said2: "describes (said V now es) fs = describes (said V1 now' es') f2"
        using one Some by (simp add: fs describes_append 2(3) said_def)
      have run2: "yyparse_from os cnf st (w # ts) s = yyparse_from os cnf st1 ts s2"
        unfolding run by (simp add: \<open>shift st (k, p) = Some x\<close> x bindr_Ret 2(1))
      have "case describes (said V1 now' es') f2 of None \<Rightarrow> yyparse_from os cnf st1 ts s2 = None
        | Some x \<Rightarrow> returns (yyparse_from os cnf st1 ts) (parsed os s0 c cnf ok x) s2"
        by (rule Cons.IH [OF 2(2)]) (use Cons.prems(2) d2 fs(1) in auto)
      then show ?thesis unfolding said2 returns_def run2 .
    qed
  qed
qed

end
