(* ===== verification/Conf_Result.thy ===== *)
theory Conf_Result
  imports Conf_File
begin

text \<open>
  What the parser leaves: the list of the tasks that the file describes, each with its options in its fields and
  arrays, and a memory in which every task owns its blocks, as the rest of the program needs it.
\<close>

section \<open>What a task says\<close>

definition opt_says :: "world \<Rightarrow> addr \<Rightarrow> string option \<Rightarrow> bool" where
  "opt_says s p w \<longleftrightarrow> (case w of None \<Rightarrow> p = NULL | Some x \<Rightarrow> p \<noteq> NULL \<and> str_at s p = Some x)"

definition array_says :: "world \<Rightarrow> addr \<Rightarrow> string option list \<Rightarrow> bool" where
  "array_says s p ws \<longleftrightarrow> (\<exists>ps junk. deref (w_ptrs s) p = Some (map Some ps @ junk) \<and> list_all2 (opt_says s) ps ws)"

definition options_say :: "world \<Rightarrow> addr \<Rightarrow> task \<Rightarrow> string spec \<Rightarrow> bool" where
  "options_say s c k d \<longleftrightarrow> tk_ctx k = c \<and> tk_pid k = 0 \<and> tk_status k = TASK_INIT \<and> tk_log_path k = NULL \<and>
     opt_says s (tk_name k) (sp_name d) \<and> opt_says s (tk_path k) (sp_path d) \<and> opt_says s (tk_dir k) (sp_dir d)"

text \<open>A task of the list: the argument vector is the path and the arguments, the environment is \<open>NULL\<close> or the variables; both
  end with a null pointer.\<close>

definition task_says :: "world \<Rightarrow> addr \<Rightarrow> addr \<Rightarrow> string spec \<Rightarrow> bool" where
  "task_says s c t d \<longleftrightarrow> (\<exists>k. deref (w_tasks s) t = Some k \<and> options_say s c k d \<and>
     array_says s (tk_args k) (sp_path d # map Some (sp_args d) @ [None]) \<and>
     (if sp_env d = [] then tk_envp k = NULL else array_says s (tk_envp k) (map Some (sp_env d) @ [None])))"

text \<open>The task that is being read, if any.\<close>

definition draft_says :: "world \<Rightarrow> addr \<Rightarrow> string spec option \<Rightarrow> bool" where
  "draft_says s c now \<longleftrightarrow> (case now of None \<Rightarrow> g_task s = NULL
     | Some d \<Rightarrow> (\<exists>k. deref (w_tasks s) (g_task s) = Some k \<and> options_say s c k d \<and>
         (sp_args d = [] \<or> array_says s (tk_args k) (map Some (sp_args d))) \<and>
         (sp_env d = [] \<or> array_says s (tk_envp k) (map Some (sp_env d)))))"

definition valued :: "world \<Rightarrow> (addr \<rightharpoonup> string) \<Rightarrow> addr list \<Rightarrow> bool" where
  "valued s V ps \<longleftrightarrow> (\<forall>p \<in> set ps. p \<noteq> NULL \<and> str_at s p = Some (text_of V p))"

lemma valued_simps [simp]:
  "valued s V []" "valued s V (p # ps) \<longleftrightarrow> p \<noteq> NULL \<and> str_at s p = Some (text_of V p) \<and> valued s V ps"
  "valued s V (ps @ qs) \<longleftrightarrow> valued s V ps \<and> valued s V qs"
  by (auto simp: valued_def)

lemma valued_spec:
  assumes "valued s V (spec_vals d)"
  shows "opt_says s (addr_of (sp_name d)) (map_option (text_of V) (sp_name d))" "opt_says s (addr_of (sp_path d)) (map_option (text_of V) (sp_path d))"
    "opt_says s (addr_of (sp_dir d)) (map_option (text_of V) (sp_dir d))"
    "list_all2 (opt_says s) (sp_args d) (map (Some \<circ> text_of V) (sp_args d))" "list_all2 (opt_says s) (sp_env d) (map (Some \<circ> text_of V) (sp_env d))"
proof -
  have o: "valued s V (opt_list x) \<Longrightarrow> opt_says s (addr_of x) (map_option (text_of V) x)" for x by (cases x) (simp_all add: opt_says_def)
  have l: "valued s V ps \<Longrightarrow> list_all2 (opt_says s) ps (map (Some \<circ> text_of V) ps)" for ps by (induction ps) (simp_all add: opt_says_def)
  show "opt_says s (addr_of (sp_name d)) (map_option (text_of V) (sp_name d))" "opt_says s (addr_of (sp_path d)) (map_option (text_of V) (sp_path d))"
    "opt_says s (addr_of (sp_dir d)) (map_option (text_of V) (sp_dir d))"
    "list_all2 (opt_says s) (sp_args d) (map (Some \<circ> text_of V) (sp_args d))" "list_all2 (opt_says s) (sp_env d) (map (Some \<circ> text_of V) (sp_env d))"
    using assms o l by (simp_all add: spec_vals_def)
qed

lemma options_say: "task_base c k d \<Longrightarrow> valued s V (spec_vals d) \<Longrightarrow> options_say s c k (map_spec (text_of V) d)"
  using valued_spec(1-3) [of s V d] by (simp add: options_say_def task_base_def spec.map_sel)

lemma vec_says:
  assumes "vec s p ps room" "p \<noteq> NULL" "list_all2 (opt_says s) ps ws"
  shows "array_says s p ws"
proof -
  obtain junk where "deref (w_ptrs s) p = Some (map Some ps @ junk)" using assms(1,2) by (auto simp: vec_def)
  then show ?thesis using assms(3) by (auto simp: array_says_def)
qed

lemma finished_says:
  assumes f: "finished_task s c (t, k, d)" and v: "valued s V (spec_vals d)"
  shows "task_says s c t (map_spec (text_of V) d)"
proof -
  note says = valued_spec [OF v]
  have s: "shaped s c t k d (completed (tk_envp k) d)" "tk_args k \<noteq> NULL" "tk_envp k = NULL \<longleftrightarrow> sp_env d = []" using f by simp_all
  have k: "deref (w_tasks s) t = Some k" "task_base c k d" using s(1) by (simp_all add: shaped_def task_at_def)
  have vec: "vec s (member_ptr m k) (completed (tk_envp k) d m) (member_total m k)" for m using s(1) by (simp add: shaped_def)
  have nil: "opt_says s NULL None" by (simp add: opt_says_def)
  have "array_says s (tk_args k) (map_option (text_of V) (sp_path d) # map (Some \<circ> text_of V) (sp_args d) @ [None])"
    by (rule vec_says [of s "tk_args k" "completed (tk_envp k) d M_args" "tk_args_total k"])
      (use vec [of M_args] s(2) says(2,4) nil in \<open>simp_all add: list_all2_appendI\<close>)
  moreover have "array_says s (tk_envp k) (map (Some \<circ> text_of V) (sp_env d) @ [None])" if "sp_env d \<noteq> []"
    by (rule vec_says [of s "tk_envp k" "completed (tk_envp k) d M_envp" "tk_envp_total k"])
      (use vec [of M_envp] s(3) that says(5) nil in \<open>simp_all add: list_all2_appendI\<close>)
  ultimately show ?thesis using k(1) options_say [OF k(2) v] s(3) unfolding task_says_def
    by (intro exI [of _ k]) (simp add: spec.map_sel)
qed

lemma current_says:
  assumes c: "current_task s c now" and v: "valued s V (vals_of (opt_list now))"
  shows "draft_says s c (map_option (map_spec (text_of V)) (now_spec now))"
proof (cases now)
  case (Some e)
  obtain t k d where e: "e = (t, k, d)" by (cases e)
  have s: "g_task s = t" "shaped s c t k d (drafted d)" using c by (simp_all add: Some e)
  have v': "valued s V (spec_vals d)" using v by (simp add: Some e entry_spec_def)
  note says = valued_spec [OF v']
  have k: "deref (w_tasks s) t = Some k" "task_base c k d" using s(2) by (simp_all add: shaped_def task_at_def)
  have vec: "vec s (member_ptr m k) (drafted d m) (member_total m k)" for m using s(2) by (simp add: shaped_def)
  have "array_says s (tk_args k) (map (Some \<circ> text_of V) (sp_args d))" if "sp_args d \<noteq> []"
    by (rule vec_says [of s "tk_args k" "drafted d M_args" "tk_args_total k"])
      (use vec [of M_args] says(4) that in \<open>auto simp: vec_def split: if_splits\<close>)
  moreover have "array_says s (tk_envp k) (map (Some \<circ> text_of V) (sp_env d))" if "sp_env d \<noteq> []"
    by (rule vec_says [of s "tk_envp k" "drafted d M_envp" "tk_envp_total k"])
      (use vec [of M_envp] says(5) that in \<open>auto simp: vec_def split: if_splits\<close>)
  ultimately show ?thesis using k(1) options_say [OF k(2) v'] s(1)
    by (auto simp: Some e now_spec_def entry_spec_def draft_says_def spec.map_sel)
qed (use c in \<open>simp add: now_spec_def draft_says_def\<close>)


section \<open>The result\<close>

text \<open>The configuration object and its context before a file is read.\<close>

definition conf_ready :: "world \<Rightarrow> addr \<Rightarrow> addr \<Rightarrow> bool" where
  "conf_ready s c cnf \<longleftrightarrow> tidy s \<and> within s c c \<and> deref (w_ctxs s) c \<noteq> None \<and> c \<noteq> cnf \<and> within s cnf cnf \<and> within s cnf (conf_tasks_list cnf) \<and>
     (\<exists>cf. deref (w_confs s) cnf = Some cf \<and> cf_ctx cf = c) \<and> list_holds (w_lists s) (conf_tasks_list cnf) [] \<and> g_task s = NULL"

lemma ready_building: "conf_ready s c cnf \<Longrightarrow> building s c cnf Map.empty [] None [] s"
  by (auto simp: conf_ready_def building_def rooted_def separated_def steps_refl intro: within_live)

lemma building_valued:
  assumes "building s0 c cnf V vs now es s" "set ps \<subseteq> set (vals_of (opt_list now @ es))"
  shows "valued s V ps"
  unfolding valued_def
proof
  fix p assume "p \<in> set ps"
  then have "p \<in> dom V" using assms by (auto simp: building_def)
  then obtain x where x: "V p = Some x" by auto
  then have "has_str s p x" using assms(1) by (simp add: building_def separated_def)
  then show "p \<noteq> NULL \<and> str_at s p = Some (text_of V p)" by (simp add: has_str_def text_of_def x)
qed

lemma building_says:
  assumes b: "building s0 c cnf V vs now es s" and said: "said V now es = (cur, ds)"
  shows "draft_says s c cur" "list_all2 (task_says s c) (map fst es) ds" "list_holds (w_lists s) (conf_tasks_list cnf) (map task_list (map fst es))"
    "steps {cnf} s0 s"
proof -
  have r: "rooted s0 c cnf es s" "current_task s c now" using b by (simp_all add: building_def)
  show "draft_says s c cur" using said current_says [OF r(2) building_valued [OF b]] by (auto simp: said_def)
  show "list_holds (w_lists s) (conf_tasks_list cnf) (map task_list (map fst es))" "steps {cnf} s0 s" using r(1) by (simp_all add: rooted_def)
  have fin: "\<forall>e \<in> set es. finished_task s c e" using r(1) unfolding rooted_def by (elim conjE)
  have "task_says s c (fst e) (map_spec (text_of V) (entry_spec e))" if e: "e \<in> set es" for e
  proof -
    obtain t k d where tkd: "e = (t, k, d)" by (cases e)
    have "valued s V (spec_vals d)" by (rule building_valued [OF b]) (use e tkd in \<open>force simp: vals_of_def entry_spec_def\<close>)
    moreover have "finished_task s c (t, k, d)" using fin e unfolding tkd by (rule bspec)
    ultimately show ?thesis using finished_says by (simp add: tkd entry_spec_def)
  qed
  moreover have "ds = map (\<lambda>e. map_spec (text_of V) (entry_spec e)) es" using said by (simp add: said_def comp_def)
  ultimately show "list_all2 (task_says s c) (map fst es) ds" by (simp add: list.rel_map list.rel_refl_strong)
qed

text \<open>The tokens of a file, and what the machine does with them.\<close>

definition file_events :: "string \<Rightarrow> bool \<times> string event list" where
  "file_events bytes = drive P_tasks (texts (tokens bytes))"

lemma yyparse_run:
  assumes "roomy os" "conf_ready s c cnf" "file_events bytes = (ok, fs)"
  shows "case describes (None, []) fs of None \<Rightarrow> yyparse os cnf bytes s = None
    | Some x \<Rightarrow> returns (yyparse os cnf bytes) (parsed os s c cnf ok x) s"
proof -
  have "case describes (said Map.empty None []) fs of None \<Rightarrow> yyparse_from os cnf P_tasks (tokens bytes) s = None
    | Some x \<Rightarrow> returns (yyparse_from os cnf P_tasks (tokens bytes)) (parsed os s c cnf ok x) s"
    by (rule yyparse_from_run [OF assms(1)]) (use ready_building [OF assms(2)] tokens_text assms(3) in \<open>auto simp: file_events_def\<close>)
  then show ?thesis unfolding yyparse_def by (simp add: said_def now_spec_def)
qed

section \<open>An example\<close>

definition ex_conf_world :: world where
  "ex_conf_world = ex_world\<lparr>w_blocks := [(300, sizeof_ctx), (900, sizeof_conf)], w_confs := [900 \<mapsto> \<lparr>cf_ctx = 300\<rparr>],
     w_ctxs := [300 \<mapsto> \<lparr>cx_conf = 900, cx_instance = 0, cx_log = 0, cx_callback = CB_NULL, cx_arg = 0, cx_origmask = [],
       cx_tree = \<lparr>rbt_root = 0, rbt_sentinel = 0\<rparr>\<rparr>],
     w_lists := [908 \<mapsto> \<lparr>lh_next = 908, lh_prev = 908\<rparr>]\<rparr>"

lemma ex_roomy: "roomy ex_os"
proof -
  have "os_malloc ex_os s n \<noteq> NULL" for s n using end_of_blocks(2) [of "w_blocks s"] by (simp add: ex_os_def)
  then show ?thesis using ex_os_fresh by (simp add: roomy_def)
qed

lemma ex_conf_ready: "conf_ready ex_conf_world 300 900"
proof -
  have "tidy ex_conf_world"
    by (auto simp: tidy_def separate_def in_blocks_def objects_def ex_conf_world_def ex_world_def sizeof_ctx_def sizeof_conf_def intro: exI [of _ 300] exI [of _ 900] split: if_splits)
  then show ?thesis
    by (simp add: conf_ready_def ex_conf_world_def ex_world_def within_def deref_def sizeof_ctx_def sizeof_conf_def
      conf_tasks_list_def list_holds_def peek_def)
qed

lemma ex_events: "file_events ''task{path /a;}'' = (True, [Set_path ''/a'', End_task])"
  by code_simp

section \<open>The parser is right\<close>

text \<open>C33: The parser reads the configuration file as its grammar says. The machine accepts the tokens of a file exactly when
  the grammar derives them. If no task of it is without options, then it returns 0, or after an error 1 with one message on the
  standard error; the list holds the tasks that were complete, the last one first, each with exactly the options that the file
  gives it, its arrays ended by null pointers; the variable \<open>task\<close> is \<open>NULL\<close> or, after an error, may be left with the task that
  was not complete; and nothing else that was in memory has changed. A task without options is undefined behaviour.\<close>

theorem yyparse_correct:
  assumes "roomy os" "conf_ready s c cnf" "file_events bytes = (ok, fs)"
  shows "(ok \<longleftrightarrow> tasks (texts (tokens bytes)) fs) \<and>
    (case describes (None, []) fs of
      None \<Rightarrow> yyparse os cnf bytes s = None
    | Some (now, ds) \<Rightarrow> returns (yyparse os cnf bytes) (\<lambda>r s'. r = (if ok then 0 else 1) \<and>
        (\<exists>ts s1. (if ok then s' = s1 else yyerror os ''syntax error'' s1 = Some (Ret (), s')) \<and>
           steps {cnf} s s1 \<and> list_holds (w_lists s1) (conf_tasks_list cnf) (map task_list ts) \<and>
           list_all2 (task_says s1 c) ts ds \<and> draft_says s1 c now)) s)"
proof
  have "tasks (texts (tokens bytes)) fs \<longleftrightarrow> drive P_tasks (texts (tokens bytes)) = (True, fs)"
    using drive_parse [of P_tasks "texts (tokens bytes)" fs] machine_reads [of "texts (tokens bytes)" fs] by simp
  then show "ok \<longleftrightarrow> tasks (texts (tokens bytes)) fs" using assms(3) by (simp add: file_events_def)
  show "case describes (None, []) fs of None \<Rightarrow> yyparse os cnf bytes s = None
    | Some (now, ds) \<Rightarrow> returns (yyparse os cnf bytes) (\<lambda>r s'. r = (if ok then 0 else 1) \<and>
        (\<exists>ts s1. (if ok then s' = s1 else yyerror os ''syntax error'' s1 = Some (Ret (), s')) \<and>
           steps {cnf} s s1 \<and> list_holds (w_lists s1) (conf_tasks_list cnf) (map task_list ts) \<and>
           list_all2 (task_says s1 c) ts ds \<and> draft_says s1 c now)) s"
    (is "case _ of None \<Rightarrow> _ | Some (now, ds) \<Rightarrow> returns _ (?post now ds) s")
  proof (cases "describes (None, []) fs")
    case None
    then show ?thesis using yyparse_run [OF assms] by simp
  next
    case (Some x)
    obtain now ds where x: "x = (now, ds)" by (cases x)
    have "returns (yyparse os cnf bytes) (?post now ds) s"
    proof (rule returns_mono)
      show "returns (yyparse os cnf bytes) (parsed os s c cnf ok (now, ds)) s" using yyparse_run [OF assms] by (simp add: Some x)
      fix r s'
      assume "parsed os s c cnf ok (now, ds) r s'"
      then obtain V vs cur es s1 where p: "building s c cnf V vs cur es s1" "said V cur es = (now, ds)"
        "if ok then r = 0 \<and> s' = s1 else r = 1 \<and> reported os s1 s'" unfolding parsed_def by blast
      show "?post now ds r s'" using p(3) building_says [OF p(1,2)]
        by (intro conjI exI [of _ "map fst es"] exI [of _ s1]) (auto simp: reported_def split: if_splits)
    qed
    then show ?thesis by (simp add: Some x)
  qed
qed

theorem yyparse_correct_witness:
  "returns (yyparse ex_os 900 ''task{path /a;}'') (\<lambda>r s'. r = 0 \<and> g_task s' = NULL \<and>
     (\<exists>t. list_holds (w_lists s') 908 [task_list t] \<and> task_says s' 300 t (Spec None (Some ''/a'') None [] []))) ex_conf_world"
proof -
  have d: "describes (None, []) [Set_path ''/a'', End_task] = Some (None, [Spec None (Some ''/a'') None [] []])" by (simp add: no_spec_def)
  from yyparse_correct [OF ex_roomy ex_conf_ready ex_events] show ?thesis
    unfolding d by (auto simp: draft_says_def conf_tasks_list_def list_all2_Cons2 elim!: returns_mono)
qed

end
