(* ===== verification/Conf_Owned.thy ===== *)
theory Conf_Owned
  imports Conf_Result
begin

text \<open>
  After a file of tasks with paths was read, every task owns its arrays and strings: what \<open>context_close\<close> relies on.
\<close>

section \<open>What the tasks own\<close>

fun task_owned :: "entry \<Rightarrow> addr list" where
  "task_owned (t, k, d) = task_blocks k (addr_of (sp_path d) # sp_args d) (sp_env d)"

lemma task_owned_set:
  assumes base: "task_base c k d" and path: "sp_path d \<noteq> None" and args: "tk_args k \<noteq> NULL" and null: "NULL \<notin> set (spec_vals d)"
  shows "set (task_owned (t, k, d)) = set (pointers k) \<union> set (spec_vals d)"
    "distinct (pointers k @ spec_vals d) \<Longrightarrow> distinct (task_owned (t, k, d))"
proof -
  obtain n p dr as es where d: "d = Spec n p dr as es" by (cases d)
  have o: "NULL \<notin> set (opt_list x) \<Longrightarrow> owned (addr_of x) = opt_list x" for x by (cases x) (simp_all add: owned_def)
  obtain q where q: "p = Some q" using path d by auto
  have f: "tk_name k = addr_of n" "tk_dir k = addr_of dr" "tk_log_path k = NULL" using base by (simp_all add: d task_base_def)
  have null': "NULL \<notin> set (opt_list n)" "NULL \<notin> set (opt_list dr)" using null by (simp_all add: d spec_vals_def)
  have "task_owned (t, k, d) = (q # as) @ [tk_args k] @ es @ owned (tk_envp k) @ opt_list n @ opt_list dr"
    by (simp add: d q task_blocks_def f o null') (simp add: owned_def)
  moreover have "spec_vals d = opt_list n @ q # opt_list dr @ as @ es" by (simp add: d q spec_vals_def)
  moreover have "owned (tk_args k) = [tk_args k]" using args by simp
  ultimately show "set (task_owned (t, k, d)) = set (pointers k) \<union> set (spec_vals d)"
    "distinct (pointers k @ spec_vals d) \<Longrightarrow> distinct (task_owned (t, k, d))" by auto
qed

lemma finished_owns:
  assumes f: "finished_task s c (t, k, d)" and path: "sp_path d \<noteq> None"
    and vals: "\<And>p. p \<in> set (spec_vals d) \<Longrightarrow> p \<noteq> NULL \<and> within s p p"
    and dist: "distinct (entry_blocks (t, k, d) @ spec_vals d)"
  shows "owns s t k (addr_of (sp_path d) # sp_args d) (sp_env d)" "within s t (task_list t)"
proof -
  have s: "shaped s c t k d (completed (tk_envp k) d)" "tk_args k \<noteq> NULL" "tk_envp k = NULL \<longleftrightarrow> sp_env d = []" using f by simp_all
  have at_t: "task_at s t k" and base: "task_base c k d" using s(1) by (simp_all add: shaped_def)
  have vec: "vec s (member_ptr m k) (completed (tk_envp k) d m) (member_total m k)" for m using s(1) by (simp add: shaped_def)
  have null: "NULL \<notin> set (spec_vals d)" using vals by blast
  obtain q where q: "sp_path d = Some q" using path by auto
  note own = task_owned_set [OF base path s(2) null, of t]
  have v: "vector_at s p qs" if "vec s p (qs @ [NULL]) n" "p \<noteq> NULL" "set qs \<subseteq> set (spec_vals d)" for p qs n
    using that null by (auto simp: vec_def vector_at_def)
  have "vector_at s (tk_args k) (addr_of (sp_path d) # sp_args d)"
    by (rule v [of _ _ "tk_args_total k"]) (use vec [of M_args] s(2) in \<open>auto simp: q spec_vals_def\<close>)
  moreover have "vector_at s (tk_envp k) (sp_env d)" if "tk_envp k \<noteq> NULL"
    by (rule v [of _ _ "tk_envp_total k"]) (use vec [of M_envp] that in \<open>auto simp: spec_vals_def\<close>)
  moreover have "within s p p" if p: "p \<in> set (pointers k)" for p
    using p vec [of M_args] vec [of M_envp] by (auto simp: vec_def owned_def split: if_splits)
  moreover have "distinct (t # task_owned (t, k, d))" using dist own by auto
  ultimately show "owns s t k (addr_of (sp_path d) # sp_args d) (sp_env d)"
    unfolding owns_def using at_t s(3) vals own(1) by (simp only: task_owned.simps) (auto simp: task_at_def)
  show "within s t (task_list t)" using at_t by (simp add: task_at_def)
qed

lemma owned_distinct:
  assumes "distinct (concat (map entry_blocks es))" "distinct (vals_of es)" "blocks_of es \<inter> set (vals_of es) = {}"
    and own: "\<And>t k d. (t, k, d) \<in> set es \<Longrightarrow> set (task_owned (t, k, d)) = set (pointers k) \<union> set (spec_vals d) \<and>
      (distinct (pointers k @ spec_vals d) \<longrightarrow> distinct (task_owned (t, k, d)))"
  shows "distinct (map fst es @ concat (map task_owned es)) \<and> set (map fst es @ concat (map task_owned es)) \<subseteq> blocks_of es \<union> set (vals_of es)"
  using assms
proof (induction es)
  case (Cons e es)
  obtain t k d where e: "e = (t, k, d)" by (cases e)
  have "distinct (map fst es @ concat (map task_owned es)) \<and> set (map fst es @ concat (map task_owned es)) \<subseteq> blocks_of es \<union> set (vals_of es)"
  proof (rule Cons.IH)
    show "distinct (concat (map entry_blocks es))" "distinct (vals_of es)" using Cons.prems(1,2) by simp_all
    show "blocks_of es \<inter> set (vals_of es) = {}" using Cons.prems(3) unfolding blocks_simps vals_simps set_append by blast
  qed (rule Cons.prems(4), simp)
  then have IH: "distinct (map fst es @ concat (map task_owned es))" "set (map fst es @ concat (map task_owned es)) \<subseteq> blocks_of es \<union> set (vals_of es)"
    by blast+
  have own: "set (task_owned e) = set (pointers k) \<union> set (spec_vals d)" "distinct (pointers k @ spec_vals d) \<Longrightarrow> distinct (task_owned e)"
    using Cons.prems(4) [of t k d] by (simp_all add: e)
  let ?B = "blocks_of es" and ?V = "set (vals_of es)"
  have "distinct ((t # pointers k) @ concat (map entry_blocks es))" using Cons.prems(1) by (simp only: e list.map concat.simps entry_blocks.simps)
  then have "distinct (t # pointers k)" "set (t # pointers k) \<inter> ?B = {}" unfolding distinct_append [of "t # pointers k"] blocks_of_def by blast+
  moreover have "distinct (spec_vals d)" "set (spec_vals d) \<inter> ?V = {}" using Cons.prems(2) by (simp_all add: e entry_spec_def)
  ultimately have d: "distinct (t # pointers k)" "set (t # pointers k) \<inter> ?B = {}" "distinct (spec_vals d)" "set (spec_vals d) \<inter> ?V = {}" .
  have x: "set (t # pointers k) \<inter> set (spec_vals d) = {}" "set (t # pointers k) \<inter> ?V = {}" "set (spec_vals d) \<inter> ?B = {}"
    using Cons.prems(3) by (auto simp: e entry_spec_def)
  have "distinct (pointers k @ spec_vals d)" using d(1,3) x(1) by auto
  then have de: "distinct (task_owned e)" by (rule own(2))
  have rest: "set (map fst es) \<union> set (concat (map task_owned es)) \<subseteq> ?B \<union> ?V" "set (map fst es) \<inter> set (concat (map task_owned es)) = {}"
    "distinct (map fst es)" "distinct (concat (map task_owned es))" using IH by auto
  have cut: "set (t # task_owned e) \<inter> (?B \<union> ?V) = {}" "t \<notin> set (task_owned e)" using own(1) d x by auto
  have "distinct (map fst (e # es) @ concat (map task_owned (e # es)))"
    using rest cut de by (auto simp: e)
  moreover have "set (map fst (e # es) @ concat (map task_owned (e # es))) \<subseteq> blocks_of (e # es) \<union> set (vals_of (e # es))"
    using rest(1) own(1) by (auto simp: e entry_spec_def)
  ultimately show ?case by blast
qed simp

definition owned_by :: "entry list \<Rightarrow> addr \<Rightarrow> addr list" where
  "owned_by es t = (case map_of (map (\<lambda>e. (fst e, task_owned e)) es) t of None \<Rightarrow> [] | Some b \<Rightarrow> b)"

lemma owned_by: "distinct (map fst es) \<Longrightarrow> e \<in> set es \<Longrightarrow> owned_by es (fst e) = task_owned e"
  unfolding owned_by_def by (subst map_of_is_SomeI [of _ "fst e" "task_owned e"]) (auto simp: comp_def)

lemma building_holdings:
  assumes b: "building s0 c cnf V vs now es s" and path: "\<forall>e \<in> set es. sp_path (entry_spec e) \<noteq> None"
    and cx: "deref (w_ctxs s0) c = Some cx" "cx_conf cx = cnf" and c: "c \<in> live s0"
  shows "holdings s c cnf (map fst es) (owned_by es)" "set (map fst es @ all_blocks (owned_by es) (map fst es)) \<inter> live s0 = {}"
proof -
  have r: "rooted s0 c cnf es s" and sep: "separated s0 V (opt_list now @ es) s" and dv: "distinct (vals_of es)" "set (vals_of es) \<subseteq> dom V"
    using b by (auto simp: building_def)
  have fin: "\<forall>e \<in> set es. finished_task s c e" using r unfolding rooted_def by (elim conjE)
  have dis: "distinct (concat (map entry_blocks es))" "(live s0 \<union> dom V) \<inter> blocks_of es = {}" "live s0 \<inter> dom V = {}"
    "\<And>p x. V p = Some x \<Longrightarrow> has_str s p x" using sep by (auto simp: separated_def)
  have vals: "p \<noteq> NULL \<and> within s p p" if "p \<in> set (vals_of es)" for p
    using that dv(2) dis(4) [of p] by (auto simp: has_str_def)
  have sub: "set (spec_vals d) \<subseteq> set (vals_of es)" if "(t, k, d) \<in> set es" for t k d
    using that by (force simp: vals_of_def entry_spec_def)
  have one: "set (task_owned (t, k, d)) = set (pointers k) \<union> set (spec_vals d) \<and>
      (distinct (pointers k @ spec_vals d) \<longrightarrow> distinct (task_owned (t, k, d)))" if e: "(t, k, d) \<in> set es" for t k d
  proof -
    have f: "finished_task s c (t, k, d)" by (rule bspec [OF fin e])
    then have "task_base c k d" "tk_args k \<noteq> NULL" by (simp_all add: shaped_def)
    moreover have "sp_path d \<noteq> None" using path e by (force simp: entry_spec_def)
    moreover have "NULL \<notin> set (spec_vals d)" using vals sub [OF e] by blast
    ultimately show ?thesis using task_owned_set [of c k d t] by blast
  qed
  have bv: "blocks_of es \<inter> set (vals_of es) = {}" using dis(2) dv(2) by blast
  note own = owned_distinct [OF dis(1) dv(1) bv one]
  have all: "all_blocks (owned_by es) (map fst es) = concat (map task_owned es)"
  proof -
    have "map (owned_by es) (map fst es) = map task_owned es" using own by (auto simp: owned_by)
    then show ?thesis by (simp only: all_blocks_def)
  qed
  have out: "blocks_of es \<union> set (vals_of es) \<subseteq> - live s0" using dis(2,3) dv(2) by blast
  then show "set (map fst es @ all_blocks (owned_by es) (map fst es)) \<inter> live s0 = {}" using own unfolding all by blast
  have "task_holds s (owned_by es) (fst e)" if e: "e \<in> set es" for e
  proof -
    obtain t k d where tkd: "e = (t, k, d)" by (cases e)
    have e': "(t, k, d) \<in> set es" using e tkd by simp
    have "distinct (entry_blocks (t, k, d))" by (rule distinct_member [OF dis(1) e'])
    moreover have "distinct (spec_vals d)" using distinct_member [OF dv(1) [unfolded vals_of_def] e'] by (simp add: entry_spec_def)
    moreover have "set (entry_blocks (t, k, d)) \<inter> set (spec_vals d) = {}" using entry_in_blocks [OF e'] sub [OF e'] bv by blast
    ultimately have "distinct (entry_blocks (t, k, d) @ spec_vals d)" unfolding distinct_append [of "entry_blocks (t, k, d)"] by blast
    moreover have "sp_path d \<noteq> None" using path e' by (force simp: entry_spec_def)
    moreover have "\<And>p. p \<in> set (spec_vals d) \<Longrightarrow> p \<noteq> NULL \<and> within s p p" using vals sub [OF e'] by blast
    ultimately have "owns s t k (addr_of (sp_path d) # sp_args d) (sp_env d)" "within s t (task_list t)"
      using finished_owns [OF bspec [OF fin e']] by blast+
    moreover have "owned_by es t = task_owned (t, k, d)" using owned_by [of es "(t, k, d)"] own e' by simp
    ultimately show ?thesis by (auto simp: task_holds_def tkd)
  qed
  moreover have "deref (w_ctxs s) c = Some cx" "within s c c"
  proof -
    have st: "steps {cnf} s0 s" and cw: "within s0 c c" "c \<notin> {cnf}" using r by (simp_all add: rooted_def)
    show "deref (w_ctxs s) c = Some cx" "within s c c" using steps_same(8) [OF st cw] steps_within [OF st cw] cx(1) by simp_all
  qed
  moreover have "distinct (c # cnf # map fst es @ all_blocks (owned_by es) (map fst es))"
  proof -
    have "c \<noteq> cnf" "cnf \<in> live s0" using r by (simp_all add: rooted_def)
    then show ?thesis using own out c unfolding all by auto
  qed
  moreover have "separate s" using r by (auto simp: rooted_def tidy_def dest: steps_tidy)
  ultimately show "holdings s c cnf (map fst es) (owned_by es)"
    using r cx(2) by (auto simp: holdings_def rooted_def dest: deref_not_NULL)
qed


section \<open>The parser and the end of the program\<close>

text \<open>C34: A configuration file of tasks with paths is read into well-formed data: after \<open>yyparse\<close> every task of the list owns its
  arrays and strings, no block belongs to two tasks or was in use before, and with the configuration and the context they are what
  \<open>context_close\<close> takes apart; closing the context then gives back each of these blocks once.\<close>

theorem yyparse_holdings:
  assumes "roomy os" "conf_ready s c cnf" "file_events bytes = (True, fs)" "describes (None, []) fs = Some (None, ds)"
    and "list_all (\<lambda>d. sp_path d \<noteq> None) ds" "deref (w_ctxs s) c = Some cx" "cx_conf cx = cnf"
  shows "returns (yyparse os cnf bytes) (\<lambda>r s'. r = 0 \<and> (\<exists>ts B. length ts = length ds \<and> holdings s' c cnf ts B \<and>
    set (ts @ all_blocks B ts) \<inter> live s = {} \<and>
    returns (context_close c) (\<lambda>_ s''. live s'' = live s' - set (all_blocks B ts @ [cnf, c])) s')) s"
proof (rule returns_mono)
  show "returns (yyparse os cnf bytes) (parsed os s c cnf True (None, ds)) s" using yyparse_run [OF assms(1-3)] assms(4) by simp
  fix r s'
  assume "parsed os s c cnf True (None, ds) r s'"
  then obtain V vs now es where p: "building s c cnf V vs now es s'" "said V now es = (None, ds)" "r = 0" unfolding parsed_def by auto
  have ds: "ds = map (map_spec (text_of V) \<circ> entry_spec) es" using p(2) by (auto simp: said_def)
  then have "\<forall>e \<in> set es. sp_path (entry_spec e) \<noteq> None" using assms(5) by (auto simp: list_all_iff spec.map_sel)
  moreover have "c \<in> live s" using assms(2) by (auto simp: conf_ready_def intro: within_live)
  ultimately have h: "holdings s' c cnf (map fst es) (owned_by es)" "set (map fst es @ all_blocks (owned_by es) (map fst es)) \<inter> live s = {}"
    using building_holdings [OF p(1) _ assms(6,7)] by blast+
  have "live (release_all ps s') = live s' - set ps" for ps by (induction ps arbitrary: s') auto
  then have "returns (context_close c) (\<lambda>_ s''. live s'' = live s' - set (all_blocks (owned_by es) (map fst es) @ [cnf, c])) s'"
    using context_close_run [OF h(1)] by (simp only: returns_def) blast
  then show "r = 0 \<and> (\<exists>ts B. length ts = length ds \<and> holdings s' c cnf ts B \<and> set (ts @ all_blocks B ts) \<inter> live s = {} \<and>
      returns (context_close c) (\<lambda>_ s''. live s'' = live s' - set (all_blocks B ts @ [cnf, c])) s')"
    using h p(3) ds by (intro conjI exI [of _ "map fst es"] exI [of _ "owned_by es"]) simp_all
qed

theorem yyparse_holdings_witness:
  "returns (yyparse ex_os 900 ''task{path /a;}'') (\<lambda>r s'. r = 0 \<and> (\<exists>t B. holdings s' 300 900 [t] B \<and>
     returns (context_close 300) (\<lambda>_ s''. live s'' = live s' - set (B t @ [900, 300])) s')) ex_conf_world"
proof -
  have d: "describes (None, []) [Set_path ''/a'', End_task] = Some (None, [Spec None (Some ''/a'') None [] []])" by (simp add: no_spec_def)
  obtain cx where cx: "deref (w_ctxs ex_conf_world) 300 = Some cx" "cx_conf cx = 900" by (simp add: ex_conf_world_def deref_def)
  show ?thesis
    by (rule returns_mono [OF yyparse_holdings [OF ex_roomy ex_conf_ready ex_events d _ cx]])
      (auto simp: length_Suc_conv all_blocks_def)
qed

end
