(* ===== verification/Spec2Isabelle.thy ===== *)
theory Spec2Isabelle
  imports Supervision Daemon Conf_Owned
begin

text \<open>
  Bitzer supervises processes: it reads a file of tasks, starts a process for each, waits for signals,
  and starts a task again whenever its process ended. This library models the program of \<open>src/\<close>
  function by function and proves what makes it correct.

  \<^bold>\<open>How code is modelled.\<close> A pointer is a number, 0 is \<open>NULL\<close>. The objects of one struct live in a partial map
  from addresses, one map per struct, and an object inside another lives at its offset. A statement
  of the program is a function from the state \<open>world\<close> (theory \<open>Machine\<close>) to an outcome: a value, the
  exit of the process with a status, the replacement of its image by \<open>execv\<close>, or \<open>None\<close>, which stands for undefined
  behaviour (a bad pointer, a double \<open>free\<close>, a full buffer, a read outside of an array) and for a loop that never ends.
  So a theorem that says \<open>returns m P s\<close> or \<open>ends m P s\<close> (theory \<open>Cmonad\<close>) says that the code is memory safe, that it ends,
  and how. Loops that may not end are \<open>partial_function (option)\<close>; no fuel bounds any execution, and where the number of
  iterations matters it is a theorem (\<open>rbtree_find_logarithmic\<close>). The kernel and the C library answer calls as a function of all
  calls before (record \<open>os\<close>), so each theorem quantifies over all behaviours in time;
  what the program relies on is a named hypothesis: \<open>malloc_fresh\<close> (a new block overlaps no live one), \<open>kernel_ok\<close> (processes have
  distinct positive pids, \<open>waitpid\<close> reports children), \<open>patient\<close> (after any history, only
  finitely many processes end before the program waits again; over time any number may), \<open>roomy\<close> (memory does not run out; the parser does not test its allocations). Each has a witness on a concrete system.

  \<^bold>\<open>The parts of the program and the theories that model them.\<close>
  \<^item> \<open>Prelude\<close>: heaps, result codes of \<open>bitzer.h\<close>, total correctness. \<open>Cmonad\<close>: statements, their sequencing,
    the proof rules. \<open>Machine\<close>: the structs of \<open>task.h\<close>, \<open>context.h\<close>, \<open>conf.h\<close>, \<open>log.h\<close>, \<open>bitzer.h\<close>, memory, system calls.
  \<^item> \<open>rbtree.h\<close>, \<open>rbtree.c\<close>: \<open>Rbtree\<close> has the code, \<open>Rbtree_Rep\<close> the abstraction of the pointers to a tree and a path in
    it, \<open>Rbtree_Balance\<close> the invariant, \<open>Rbtree_Ops\<close> rotations and colours, \<open>Rbtree_Insert\<close>, \<open>Rbtree_Delete_Fixup\<close>
    and \<open>Rbtree_Delete\<close> the operations, \<open>Rbtree_Alive\<close> that nodes stay nodes; \<open>Rbtree_Index\<close> the interface \<open>node_index\<close> that \<open>context.c\<close>
    relies on, and the properties.
  \<^item> \<open>list.h\<close>: \<open>List_Head\<close>, with the interface \<open>linked_list\<close>.
  \<^item> \<open>strutil.c\<close>: \<open>Strutil\<close>. \<open>log.h\<close>, \<open>log.c\<close>, \<open>alloc.c\<close>: \<open>Log\<close>. \<open>sighandler.c\<close>: \<open>Sighandler\<close>.
  \<^item> \<open>task.c\<close>: \<open>Task\<close> has the code, \<open>Task_Props\<close> its view from the supervisor, \<open>Task_Child\<close> from the child of the fork,
    \<open>Task_Close\<close> the release of a task's memory.
  \<^item> \<open>context.c\<close>: \<open>Context\<close> and \<open>Context_Life\<close> have the code; \<open>Supervisor\<close> the invariant that ties the list, the tree, the tasks
    and the children of the process together; \<open>Supervisor_Props\<close> the properties of starting and reaping.
  \<^item> \<open>conf.c\<close>: \<open>Conf\<close>. \<open>conf_scan.l\<close>: \<open>Conf_Scan\<close> has the rules and the longest match of \<open>flex\<close>. \<open>conf_gram.y\<close>: \<open>Conf_Gram\<close> has the
    grammar and the machine that reads tokens, \<open>Conf_Parse\<close> the macros and actions on the memory and \<open>yyparse\<close>. \<open>Conf_Heap\<close> shows what
    the accesses of the parser to memory do, \<open>Conf_Actions\<close> the macros and the end of a task, \<open>Conf_Build\<close> what a file describes,
    \<open>Conf_Run\<close> that each event keeps the state \<open>building\<close>, \<open>Conf_File\<close> the loop over the tokens, \<open>Conf_Result\<close> and \<open>Conf_Owned\<close> the properties.
  \<^item> \<open>main.c\<close>: \<open>Getopt\<close> has the options and the part of the C library that reads them, \<open>Bitzer_Main\<close> the code. \<open>Options\<close> shows what the
    command line sets, \<open>Daemon\<close> how the program becomes a daemon, \<open>Shutdown\<close> how it gives back all it owns, \<open>Supervision\<close> the runs
    of \<open>context_run\<close> with the signal callback of \<open>main.c\<close> behind the interface \<open>signal_client\<close>.

  \<^bold>\<open>What is shown, by part.\<close> The tree operations keep a balanced search tree with exactly the expected entries, the lookup finds a
  task by the pid of its process in logarithmic time. The list operations act as on sequences. A log call writes one record, within
  its buffer. A handler raises one flag. \<open>task_run\<close> starts one process and records it, its child never returns to the supervisor.
  Starting, reaping and restarting refine an abstract supervisor (a set of tasks, a map from running tasks to processes); in every
  reachable wait the invariant holds, however many processes ended; a pass of the loop ends unless processes keep ending while it reaps them.
  \<open>SIGTERM\<close> ends the program with status 1: the log, the file names, the configuration, the context and what the tasks own are freed once each,
  the structures of the tasks are not (a finding), and the pid file is unlinked.
  The command line, the pid file, the daemon's two forks, the joined paths and the title are as specified; every list of arguments is read to
  its end. The scanner cuts its input into the longest lexemes, which are told by their characters, and loses nothing; the token machine is equal to the grammar; the parser leaves in memory the list of exactly the tasks
  that the file describes, each owner of its arrays and strings, which is what the end of the program (\<open>holdings\<close>) relies on.

  \<^bold>\<open>Not modelled.\<close> The macro \<open>bz_abort\<close>, \<open>bz_log_debug\<close> with \<open>BZ_DEBUG_LOG\<close>, \<open>struct string\<close> of
  \<open>strutil.h\<close>, the static initialisers of \<open>list.h\<close> and the macros \<open>min\<close> and \<open>max\<close> of \<open>util.h\<close>: nothing uses them. The tables that \<open>flex\<close>
  and \<open>bison\<close> generate are not under \<open>src/\<close>: the scanner is the longest match that \<open>flex\<close> documents, the parser the machine of the grammar, which needs no
  look at the next token to reduce. \<open>conf_load\<close> and its callers take the parser as a parameter, so that their theorems hold for any;
  \<open>yyparse os\<close> is the one of the program. \<open>getopt_long\<close> is modelled without \<open>POSIXLY_CORRECT\<close>.
  The characters that the scanner echoes stay in the buffer of \<open>stdout\<close> and are not a system call of the model. Handlers run during
  \<open>pselect\<close>. For the six signals that \<open>context_sigmask\<close> blocks the mask ensures it, from that call on; a signal that arrives earlier, and \<open>SIGTTIN\<close> and
  \<open>SIGTTOU\<close>, which are never blocked and whose handler only logs, are modelled during the wait only. \<open>gettimeofday\<close> and \<open>localtime\<close> may change \<open>errno\<close>
  (\<open>os_time_errno\<close>); \<open>localtime\<close> is taken to succeed, as it does for every year that fits an \<open>int\<close>. The counts of the arguments and of the environment of a
  task are natural numbers: a \<open>size_t\<close> would wrap around only after more pointers than fit the memory.
\<close>

end
